(* ===== verification/Prelude.thy ===== *)
theory Prelude
  imports Main "HOL-Library.Word" "HOL-Library.Monad_Syntax" "HOL-Library.Multiset"
begin

text \<open>
  Shared vocabulary of the development.

  \<^item> The Rust integer types the engine uses: \<open>u8\<close>, \<open>u32\<close>, \<open>u64\<close> and \<open>usize\<close> (a 64-bit
    target) as machine words, whose \<open>+\<close> and \<open>-\<close> wrap as the release profile of the crate does
    (\<open>Cargo.toml\<close> sets no profile, so overflow checks and \<open>debug_assert!\<close> are off there);
    \<open>i64\<close> as a type of its own, a 64-bit pattern ordered as two's complement.
  \<^item> Panics. An operation of the source that can panic (an index out of range) or can fail to
    return (a pointer walk) has result type \<open>option\<close>, and \<open>None\<close> is that outcome. A Rust
    \<open>Result\<close> is the sum type \<open>'e + 'a\<close> with \<open>Inl\<close> for \<open>Err\<close>.
  \<^item> \<open>Vec\<close> access by index, and generic facts on lists that the components share.
\<close>

named_theorems chain_simps \<open>facts that move chains of arena slots over updates of the heap\<close>
named_theorems bytes_simps \<open>facts on byte buffers: lengths, slices, little-endian fields\<close>

section \<open>Machine integers\<close>

type_synonym u8 = "8 word"
type_synonym u32 = "32 word"
type_synonym u64 = "64 word"
type_synonym usize = "64 word"

datatype i64 = I64 (i64_bits: u64)

instantiation i64 :: linorder
begin

definition less_eq_i64 :: "i64 \<Rightarrow> i64 \<Rightarrow> bool" where
  "less_eq_i64 a b \<longleftrightarrow> sint (i64_bits a) \<le> sint (i64_bits b)"

definition less_i64 :: "i64 \<Rightarrow> i64 \<Rightarrow> bool" where
  "less_i64 a b \<longleftrightarrow> sint (i64_bits a) < sint (i64_bits b)"

instance
proof
  fix a b :: i64
  show "a \<le> b \<Longrightarrow> b \<le> a \<Longrightarrow> a = b"
    by (cases a; cases b) (auto simp: less_eq_i64_def dest: signed_word_eqI [where 'a = int])
qed (auto simp: less_eq_i64_def less_i64_def)

end

lemma I64_le [simp]: "I64 a \<le> I64 b \<longleftrightarrow> sint a \<le> sint b"
  by (simp add: less_eq_i64_def)

lemma I64_less [simp]: "I64 a < I64 b \<longleftrightarrow> sint a < sint b"
  by (simp add: less_i64_def)

lemma unat_eq_iff [simp]: "unat a = unat b \<longleftrightarrow> a = b" for a b :: "'a::len word"
  by (simp add: word_unat_eq_iff)

lemma unat_word_of_nat: "n < 2 ^ LENGTH('a) \<Longrightarrow> unat (word_of_nat n :: 'a::len word) = n"
  by (simp add: unsigned_of_nat take_bit_nat_eq_self)

lemma word_of_nat_fresh:
  assumes "Suc n < 2 ^ LENGTH('a)"
  shows "(word_of_nat (Suc n) :: 'a::len word) \<notin> word_of_nat ` {1..n}"
proof
  assume "(word_of_nat (Suc n) :: 'a word) \<in> word_of_nat ` {1..n}"
  then obtain j where j: "j \<le> n" "(word_of_nat (Suc n) :: 'a word) = word_of_nat j" by auto
  then have "unat (word_of_nat (Suc n) :: 'a word) = unat (word_of_nat j :: 'a word)" by (simp only:)
  then show False
    using j(1) assms unat_word_of_nat [of "Suc n", where 'a = 'a] unat_word_of_nat [of j, where 'a = 'a] by simp
qed

lemma u32_bound: "unat (x :: u32) < 4294967296"
  using unsigned_less [of x, where 'a = nat] by simp

lemma u64_bound: "unat (x :: u64) < 18446744073709551616"
  using unsigned_less [of x, where 'a = nat] by simp

section \<open>Vectors\<close>

text \<open>\<open>v[i]\<close> and \<open>v[i] = x\<close> of a \<open>Vec\<close> or a slice: a panic out of range.\<close>

definition vec_get :: "'a list \<Rightarrow> nat \<Rightarrow> 'a option" where
  "vec_get xs i = (if i < length xs then Some (xs ! i) else None)"

definition vec_set :: "'a list \<Rightarrow> nat \<Rightarrow> 'a \<Rightarrow> 'a list option" where
  "vec_set xs i x = (if i < length xs then Some (xs[i := x]) else None)"

lemma vec_get_Some [simp]: "i < length xs \<Longrightarrow> vec_get xs i = Some (xs ! i)"
  by (simp add: vec_get_def)

lemma vec_set_Some [simp]: "i < length xs \<Longrightarrow> vec_set xs i x = Some (xs[i := x])"
  by (simp add: vec_set_def)

lemma vec_get_None [simp]: "length xs \<le> i \<Longrightarrow> vec_get xs i = None"
  by (simp add: vec_get_def)

lemma vec_set_None [simp]: "length xs \<le> i \<Longrightarrow> vec_set xs i x = None"
  by (simp add: vec_set_def)

lemma vec_get_eq_Some: "vec_get xs i = Some x \<longleftrightarrow> i < length xs \<and> x = xs ! i"
  by (auto simp: vec_get_def)

section \<open>Results\<close>

text \<open>The \<open>?\<close> operator: an error ends the computation.\<close>

fun and_then :: "'e + 'a \<Rightarrow> ('a \<Rightarrow> 'e + 'b) \<Rightarrow> 'e + 'b" where
  "and_then (Inl e) f = Inl e"
| "and_then (Inr x) f = f x"

definition ok_or :: "'a option \<Rightarrow> 'e \<Rightarrow> 'e + 'a" where
  "ok_or x e = (case x of None \<Rightarrow> Inl e | Some y \<Rightarrow> Inr y)"

lemma ok_or_simps [simp]: "ok_or None e = Inl e" "ok_or (Some x) e = Inr x"
  by (simp_all add: ok_or_def)

lemma and_then_Inr: "and_then r f = Inr y \<longleftrightarrow> (\<exists>x. r = Inr x \<and> f x = Inr y)"
  by (cases r) auto

section \<open>Lists\<close>

text \<open>The first and the last element of a list, with the value to use when there is none.\<close>

definition first_or :: "'a \<Rightarrow> 'a list \<Rightarrow> 'a" where
  "first_or d xs = (case xs of [] \<Rightarrow> d | x # _ \<Rightarrow> x)"

definition last_or :: "'a \<Rightarrow> 'a list \<Rightarrow> 'a" where
  "last_or d xs = (if xs = [] then d else last xs)"

lemma first_or_simps [simp]: "first_or d [] = d" "first_or d (x # xs) = x"
  by (simp_all add: first_or_def)

lemma last_or_simps [simp]: "last_or d [] = d" "last_or d (x # xs) = last_or x xs"
  by (simp_all add: last_or_def)

lemma first_or_append [simp]: "first_or d (xs @ ys) = first_or (first_or d ys) xs"
  by (cases xs) auto

lemma last_or_append [simp]: "last_or d (xs @ ys) = last_or (last_or d xs) ys"
  by (auto simp: last_or_def)

lemma first_or_eq_iff: "d \<notin> set xs \<Longrightarrow> first_or d xs = d \<longleftrightarrow> xs = []"
  by (cases xs) auto

lemma last_or_eq_iff: "d \<notin> set xs \<Longrightarrow> last_or d xs = d \<longleftrightarrow> xs = []"
  by (cases xs rule: rev_cases) auto

lemma first_or_in: "xs \<noteq> [] \<Longrightarrow> first_or d xs \<in> set xs"
  by (cases xs) auto

lemma last_or_in: "xs \<noteq> [] \<Longrightarrow> last_or d xs \<in> set xs"
  by (cases xs rule: rev_cases) auto

lemma distinct_remove1_mid:
  "distinct (xs @ x # ys) \<Longrightarrow> remove1 x (xs @ x # ys) = xs @ ys"
  by (simp add: remove1_append)

lemma filter_distinct_mid:
  assumes "distinct (map f (xs @ z # ys))"
  shows "filter (\<lambda>y. f y \<noteq> f z) (xs @ z # ys) = xs @ ys"
proof -
  have "f y \<noteq> f z" if "y \<in> set (xs @ ys)" for y
    using that assms by (auto simp: image_iff)
  then have "filter (\<lambda>y. f y \<noteq> f z) (xs @ ys) = xs @ ys"
    by (intro filter_True) simp
  then show ?thesis by simp
qed

lemma distinct_mid_unique:
  assumes "distinct (xs @ x # ys)" "xs @ x # ys = xs' @ x # ys'"
  shows "xs = xs' \<and> ys = ys'"
proof -
  have "takeWhile (\<lambda>y. y \<noteq> x) (xs @ x # ys) = xs"
    using assms(1) by (induction xs) auto
  moreover have "distinct (xs' @ x # ys')"
    using assms by simp
  then have "takeWhile (\<lambda>y. y \<noteq> x) (xs' @ x # ys') = xs'"
    by (induction xs') auto
  ultimately have "xs = xs'" using assms(2) by metis
  then show ?thesis using assms(2) by simp
qed

end
