(* ===== verification/Orders.thy ===== *)
theory Orders
  imports Prelude
begin

text \<open>
  \<open>src/order.rs\<close>: the two sides of the book, the order record and its checked constructor.
  Field names carry a prefix, as the records for orders, arena nodes, fills and reports share
  theirs in the source.
\<close>

datatype Side = Bid | Ask

record Order =
  o_id :: u64
  o_trader_id :: u64
  o_side :: Side
  o_price :: i64
  o_quantity :: u64
  o_timestamp :: u64

text \<open>\<open>Order::new\<close>: no order without quantity.\<close>

definition Order_new :: "u64 \<Rightarrow> u64 \<Rightarrow> Side \<Rightarrow> i64 \<Rightarrow> u64 \<Rightarrow> u64 \<Rightarrow> Order option" where
  "Order_new order_id trader_id side price quantity timestamp =
     (if quantity = 0 then None
      else Some \<lparr>o_id = order_id, o_trader_id = trader_id, o_side = side, o_price = price,
                 o_quantity = quantity, o_timestamp = timestamp\<rparr>)"

definition opposite :: "Side \<Rightarrow> Side" where
  "opposite s = (case s of Bid \<Rightarrow> Ask | Ask \<Rightarrow> Bid)"

lemma opposite_simps [simp]: "opposite Bid = Ask" "opposite Ask = Bid"
  by (simp_all add: opposite_def)

lemma opposite_opposite [simp]: "opposite (opposite s) = s"
  by (cases s) auto

lemma opposite_neq [simp]: "opposite s \<noteq> s" "s \<noteq> opposite s"
  by (cases s; simp)+

lemma Order_new_quantity: "Order_new i t s p q ts = Some ord \<Longrightarrow> o_quantity ord = q \<and> q \<noteq> 0"
  by (auto simp: Order_new_def split: if_splits)

end
