(* ===== verification/Arena.thy ===== *)
theory Arena
  imports Orders
begin

text \<open>
  \<open>src/arena.rs\<close>: the pre-allocated pool of order nodes, its free list, and the intrusive doubly
  linked lists that hold the orders of one price level. Slots are named by \<open>u32\<close> indices, and
  \<open>u32::MAX\<close> is the null index; the links live inside the nodes, so the pool is modelled as the
  explicit store it is, with aliasing: the same \<open>n_next\<close> field threads a free slot into the free
  list and a used slot into its level.

  The first part translates the code. The second part says what a free list and a level look
  like in the store (chains of slots, in the style of heap abstractions of pointer programs) and
  proves what each operation does to them. The third part packages this as the locale
  \<open>intrusive_lists\<close> that the order book builds on, and interprets it.
\<close>

section \<open>The code\<close>

datatype ArenaError = Full

definition ARENA_NULL :: u32 where
  "ARENA_NULL = - 1"

definition DEFAULT_CAPACITY :: u32 where
  "DEFAULT_CAPACITY = 1048576"

record OrderNode =
  n_id :: u64
  n_trader_id :: u64
  n_price :: i64
  n_quantity :: u64
  n_timestamp :: u64
  n_prev :: u32
  n_next :: u32
  n_side :: Side

definition zeroed :: OrderNode where
  "zeroed = \<lparr>n_id = 0, n_trader_id = 0, n_price = I64 0, n_quantity = 0, n_timestamp = 0,
             n_prev = ARENA_NULL, n_next = ARENA_NULL, n_side = Bid\<rparr>"

definition from_order :: "Order \<Rightarrow> OrderNode" where
  "from_order order =
     \<lparr>n_id = o_id order, n_trader_id = o_trader_id order, n_price = o_price order,
      n_quantity = o_quantity order, n_timestamp = o_timestamp order,
      n_prev = ARENA_NULL, n_next = ARENA_NULL, n_side = o_side order\<rparr>"

definition to_order :: "OrderNode \<Rightarrow> Order" where
  "to_order n =
     \<lparr>o_id = n_id n, o_trader_id = n_trader_id n, o_side = n_side n, o_price = n_price n,
      o_quantity = n_quantity n, o_timestamp = n_timestamp n\<rparr>"

record PriceLevel =
  l_head :: u32
  l_tail :: u32
  l_count :: u32
  l_qty :: u64

definition PriceLevel_new :: PriceLevel where
  "PriceLevel_new = \<lparr>l_head = ARENA_NULL, l_tail = ARENA_NULL, l_count = 0, l_qty = 0\<rparr>"

record Arena =
  a_storage :: "OrderNode list"
  a_free_head :: u32
  a_count :: u32
  a_capacity :: u32

text \<open>\<open>Arena::new\<close>: the loop over \<open>0..capacity\<close> pushes one node per index, linked to the next.\<close>

definition Arena_new :: "u32 \<Rightarrow> Arena" where
  "Arena_new capacity =
     \<lparr>a_storage = map (\<lambda>k. let i = word_of_nat k in
          zeroed\<lparr>n_next := if i + 1 < capacity then i + 1 else ARENA_NULL\<rparr>) [0..<unat capacity],
      a_free_head = (if capacity > 0 then 0 else ARENA_NULL),
      a_count = 0,
      a_capacity = capacity\<rparr>"

definition arena_get :: "Arena \<Rightarrow> u32 \<Rightarrow> OrderNode option" where
  "arena_get a index = vec_get (a_storage a) (unat index)"

text \<open>
  A write through \<open>&mut self.storage[index as usize]\<close>, which is also what \<open>get_mut\<close> hands out.
\<close>

definition node_upd :: "Arena \<Rightarrow> u32 \<Rightarrow> (OrderNode \<Rightarrow> OrderNode) \<Rightarrow> Arena option" where
  "node_upd a index f = do {
     n \<leftarrow> vec_get (a_storage a) (unat index);
     s \<leftarrow> vec_set (a_storage a) (unat index) (f n);
     Some (a\<lparr>a_storage := s\<rparr>)
   }"

definition alloc :: "Arena \<Rightarrow> Order \<Rightarrow> (Arena \<times> (ArenaError + u32)) option" where
  "alloc a order =
     (if a_free_head a = ARENA_NULL then Some (a, Inl Full)
      else do {
        let index = a_free_head a;
        n \<leftarrow> arena_get a index;
        let a = a\<lparr>a_free_head := n_next n\<rparr>;
        a \<leftarrow> node_upd a index (\<lambda>_. from_order order);
        Some (a\<lparr>a_count := a_count a + 1\<rparr>, Inr index)
      })"

definition dealloc :: "Arena \<Rightarrow> u32 \<Rightarrow> Arena option" where
  "dealloc a index = do {
     a \<leftarrow> node_upd a index (\<lambda>n. n\<lparr>n_next := a_free_head a\<rparr>);
     let a = a\<lparr>a_free_head := index\<rparr>;
     Some (a\<lparr>a_count := a_count a - 1\<rparr>)
   }"

definition push_back :: "Arena \<Rightarrow> PriceLevel \<Rightarrow> u32 \<Rightarrow> (Arena \<times> PriceLevel) option" where
  "push_back a level index = do {
     n \<leftarrow> arena_get a index;
     let quantity = n_quantity n;
     (a, level) \<leftarrow>
       (if l_tail level \<noteq> ARENA_NULL then do {
          let old_tail = l_tail level;
          a \<leftarrow> node_upd a old_tail (\<lambda>n. n\<lparr>n_next := index\<rparr>);
          a \<leftarrow> node_upd a index (\<lambda>n. n\<lparr>n_prev := old_tail\<rparr>);
          Some (a, level)
        } else do {
          let level = level\<lparr>l_head := index\<rparr>;
          a \<leftarrow> node_upd a index (\<lambda>n. n\<lparr>n_prev := ARENA_NULL\<rparr>);
          Some (a, level)
        });
     a \<leftarrow> node_upd a index (\<lambda>n. n\<lparr>n_next := ARENA_NULL\<rparr>);
     Some (a, level\<lparr>l_tail := index, l_count := l_count level + 1, l_qty := l_qty level + quantity\<rparr>)
   }"

definition pop_front :: "Arena \<Rightarrow> PriceLevel \<Rightarrow> (Arena \<times> PriceLevel \<times> u32 option) option" where
  "pop_front a level =
     (if l_head level = ARENA_NULL then Some (a, level, None)
      else do {
        let index = l_head level;
        n \<leftarrow> arena_get a index;
        let nxt = n_next n;
        let quantity = n_quantity n;
        (a, level) \<leftarrow>
          (if nxt \<noteq> ARENA_NULL then do {
             a \<leftarrow> node_upd a nxt (\<lambda>n. n\<lparr>n_prev := ARENA_NULL\<rparr>);
             Some (a, level\<lparr>l_head := nxt\<rparr>)
           } else Some (a, level\<lparr>l_head := ARENA_NULL, l_tail := ARENA_NULL\<rparr>));
        Some (a, level\<lparr>l_count := l_count level - 1, l_qty := l_qty level - quantity\<rparr>, Some index)
      })"

definition arena_remove :: "Arena \<Rightarrow> PriceLevel \<Rightarrow> u32 \<Rightarrow> (Arena \<times> PriceLevel) option" where
  "arena_remove a level index = do {
     n \<leftarrow> arena_get a index;
     let prev_idx = n_prev n;
     let next_idx = n_next n;
     let quantity = n_quantity n;
     (a, level) \<leftarrow>
       (if prev_idx \<noteq> ARENA_NULL then do {
          a \<leftarrow> node_upd a prev_idx (\<lambda>n. n\<lparr>n_next := next_idx\<rparr>);
          Some (a, level)
        } else Some (a, level\<lparr>l_head := next_idx\<rparr>));
     (a, level) \<leftarrow>
       (if next_idx \<noteq> ARENA_NULL then do {
          a \<leftarrow> node_upd a next_idx (\<lambda>n. n\<lparr>n_prev := prev_idx\<rparr>);
          Some (a, level)
        } else Some (a, level\<lparr>l_tail := prev_idx\<rparr>));
     Some (a, level\<lparr>l_count := l_count level - 1, l_qty := l_qty level - quantity\<rparr>)
   }"

lemma to_order_from_order [simp]: "to_order (from_order ord) = ord"
  by (simp add: to_order_def from_order_def)

lemma to_order_sel [simp]:
  "o_id (to_order n) = n_id n" "o_trader_id (to_order n) = n_trader_id n"
  "o_side (to_order n) = n_side n" "o_price (to_order n) = n_price n"
  "o_quantity (to_order n) = n_quantity n" "o_timestamp (to_order n) = n_timestamp n"
  by (simp_all add: to_order_def)

lemma from_order_sel [simp]:
  "n_id (from_order ord) = o_id ord" "n_trader_id (from_order ord) = o_trader_id ord"
  "n_side (from_order ord) = o_side ord" "n_price (from_order ord) = o_price ord"
  "n_quantity (from_order ord) = o_quantity ord" "n_timestamp (from_order ord) = o_timestamp ord"
  by (simp_all add: from_order_def)

lemma to_order_links [simp]:
  "to_order (n\<lparr>n_next := x\<rparr>) = to_order n" "to_order (n\<lparr>n_prev := x\<rparr>) = to_order n"
  by (simp_all add: to_order_def)

section \<open>The store as a heap of nodes\<close>

definition heap :: "Arena \<Rightarrow> u32 \<Rightarrow> OrderNode" where
  "heap a i = a_storage a ! unat i"

definition inb :: "Arena \<Rightarrow> u32 \<Rightarrow> bool" where
  "inb a i \<longleftrightarrow> unat i < length (a_storage a)"

definition upd_node :: "Arena \<Rightarrow> u32 \<Rightarrow> (OrderNode \<Rightarrow> OrderNode) \<Rightarrow> Arena" where
  "upd_node a i f = a\<lparr>a_storage := (a_storage a)[unat i := f (heap a i)]\<rparr>"

lemma upd_node_sel [simp]:
  "a_free_head (upd_node a i f) = a_free_head a" "a_count (upd_node a i f) = a_count a"
  "a_capacity (upd_node a i f) = a_capacity a"
  "length (a_storage (upd_node a i f)) = length (a_storage a)"
  by (simp_all add: upd_node_def)

lemma inb_simps [simp]:
  "inb (upd_node a i f) = inb a" "inb (a\<lparr>a_free_head := x\<rparr>) = inb a"
  "inb (a\<lparr>a_count := c\<rparr>) = inb a"
  by (simp_all add: inb_def fun_eq_iff)

lemma heap_simps [simp]:
  "heap (a\<lparr>a_free_head := x\<rparr>) = heap a" "heap (a\<lparr>a_count := c\<rparr>) = heap a"
  by (simp_all add: heap_def fun_eq_iff)

lemma heap_upd_node [simp]: "inb a i \<Longrightarrow> heap (upd_node a i f) = (heap a)(i := f (heap a i))"
  by (auto simp: heap_def upd_node_def inb_def fun_eq_iff nth_list_update)

lemma arena_get_heap [simp]: "inb a i \<Longrightarrow> arena_get a i = Some (heap a i)"
  by (simp add: arena_get_def heap_def inb_def)

lemma node_upd_heap [simp]: "inb a i \<Longrightarrow> node_upd a i f = Some (upd_node a i f)"
  by (simp add: node_upd_def heap_def inb_def upd_node_def)

section \<open>Chains of slots\<close>

text \<open>
  \<open>next_path H xs e\<close>: the slots \<open>xs\<close> are linked by their \<open>next\<close> fields and the last one links to
  \<open>e\<close>. \<open>prev_path H b xs\<close>: the same backwards from the first slot, which links to \<open>b\<close>.
\<close>

fun next_path :: "(u32 \<Rightarrow> OrderNode) \<Rightarrow> u32 list \<Rightarrow> u32 \<Rightarrow> bool" where
  "next_path H [] e \<longleftrightarrow> True"
| "next_path H (x # xs) e \<longleftrightarrow> n_next (H x) = first_or e xs \<and> next_path H xs e"

fun prev_path :: "(u32 \<Rightarrow> OrderNode) \<Rightarrow> u32 \<Rightarrow> u32 list \<Rightarrow> bool" where
  "prev_path H b [] \<longleftrightarrow> True"
| "prev_path H b (x # xs) \<longleftrightarrow> n_prev (H x) = b \<and> prev_path H x xs"

lemma next_path_append [simp]:
  "next_path H (xs @ ys) e \<longleftrightarrow> next_path H xs (first_or e ys) \<and> next_path H ys e"
  by (induction xs) auto

lemma prev_path_append [simp]:
  "prev_path H b (xs @ ys) \<longleftrightarrow> prev_path H b xs \<and> prev_path H (last_or b xs) ys"
  by (induction xs arbitrary: b) auto

lemma next_path_cong [chain_simps]:
  "(\<And>i. i \<in> set xs \<Longrightarrow> n_next (H' i) = n_next (H i)) \<Longrightarrow> next_path H' xs e = next_path H xs e"
  by (induction xs) auto

lemma prev_path_cong [chain_simps]:
  "(\<And>i. i \<in> set xs \<Longrightarrow> n_prev (H' i) = n_prev (H i)) \<Longrightarrow> prev_path H' b xs = prev_path H b xs"
  by (induction xs arbitrary: b) auto

lemma next_path_upd [simp]: "i \<notin> set xs \<Longrightarrow> next_path (H(i := n)) xs e = next_path H xs e"
  by (rule next_path_cong) auto

lemma prev_path_upd [simp]: "i \<notin> set xs \<Longrightarrow> prev_path (H(i := n)) b xs = prev_path H b xs"
  by (rule prev_path_cong) auto

lemma next_path_upd_prev [simp]:
  "next_path (H(i := (H i)\<lparr>n_prev := x\<rparr>)) xs e = next_path H xs e"
  by (rule next_path_cong) auto

lemma prev_path_upd_next [simp]:
  "prev_path (H(i := (H i)\<lparr>n_next := x\<rparr>)) b xs = prev_path H b xs"
  by (rule prev_path_cong) auto

section \<open>Levels\<close>

fun qty_sum :: "(u32 \<Rightarrow> OrderNode) \<Rightarrow> u32 list \<Rightarrow> u64" where
  "qty_sum H [] = 0"
| "qty_sum H (x # xs) = n_quantity (H x) + qty_sum H xs"

lemma qty_sum_append [simp]: "qty_sum H (xs @ ys) = qty_sum H xs + qty_sum H ys"
  by (induction xs) auto

lemma qty_sum_cong [chain_simps]:
  "(\<And>i. i \<in> set xs \<Longrightarrow> n_quantity (H' i) = n_quantity (H i)) \<Longrightarrow> qty_sum H' xs = qty_sum H xs"
  by (induction xs) auto

lemma qty_sum_upd [simp]: "i \<notin> set xs \<Longrightarrow> qty_sum (H(i := n)) xs = qty_sum H xs"
  by (rule qty_sum_cong) auto

text \<open>
  \<open>level_ok H l xs\<close>: the level \<open>l\<close> is the doubly linked list of the slots \<open>xs\<close>, front first, and
  its \<open>count\<close> and \<open>qty\<close> are the number of slots and the (wrapping) sum of their quantities.
\<close>

definition level_ok :: "(u32 \<Rightarrow> OrderNode) \<Rightarrow> PriceLevel \<Rightarrow> u32 list \<Rightarrow> bool" where
  "level_ok H l xs \<longleftrightarrow>
     l_head l = first_or ARENA_NULL xs \<and> l_tail l = last_or ARENA_NULL xs \<and>
     l_count l = word_of_nat (length xs) \<and> l_qty l = qty_sum H xs \<and>
     next_path H xs ARENA_NULL \<and> prev_path H ARENA_NULL xs \<and>
     distinct xs \<and> ARENA_NULL \<notin> set xs"

text \<open>\<open>relinked X a a'\<close>: \<open>a'\<close> differs from \<open>a\<close> at most in the links of the slots in \<open>X\<close>.\<close>

definition relinked :: "u32 set \<Rightarrow> Arena \<Rightarrow> Arena \<Rightarrow> bool" where
  "relinked X a a' \<longleftrightarrow>
     (\<forall>i. to_order (heap a' i) = to_order (heap a i)) \<and>
     (\<forall>i. i \<notin> X \<longrightarrow> heap a' i = heap a i) \<and>
     length (a_storage a') = length (a_storage a) \<and> a_free_head a' = a_free_head a \<and>
     a_count a' = a_count a \<and> a_capacity a' = a_capacity a"

lemma relinked_inb: "relinked X a a' \<Longrightarrow> inb a' = inb a"
  by (auto simp: relinked_def inb_def)

lemma relinked_order: "relinked X a a' \<Longrightarrow> to_order (heap a' i) = to_order (heap a i)"
  by (simp add: relinked_def)

lemma relinked_frame: "relinked X a a' \<Longrightarrow> i \<notin> X \<Longrightarrow> heap a' i = heap a i"
  by (simp add: relinked_def)

lemma to_order_eqD:
  assumes "to_order n = to_order m"
  shows "n_id n = n_id m" "n_trader_id n = n_trader_id m" "n_side n = n_side m"
    "n_price n = n_price m" "n_quantity n = n_quantity m" "n_timestamp n = n_timestamp m"
  using assms by (auto simp: to_order_def)

lemma level_ok_cong:
  assumes "\<And>i. i \<in> set xs \<Longrightarrow> H' i = H i"
  shows "level_ok H' l xs = level_ok H l xs"
  using next_path_cong [of xs H' H] prev_path_cong [of xs H' H] qty_sum_cong [of xs H' H] assms
  by (simp add: level_ok_def)

lemma level_ok_upd [simp]: "i \<notin> set xs \<Longrightarrow> level_ok (H(i := n)) l xs = level_ok H l xs"
  by (rule level_ok_cong) auto

lemma level_ok_Nil [simp]: "level_ok H PriceLevel_new []"
  by (simp add: level_ok_def PriceLevel_new_def)

lemma level_ok_distinct: "level_ok H l xs \<Longrightarrow> distinct xs"
  by (simp add: level_ok_def)

lemma level_ok_head_null: "level_ok H l xs \<Longrightarrow> l_head l = ARENA_NULL \<longleftrightarrow> xs = []"
  by (auto simp: level_ok_def first_or_eq_iff)

lemma push_back_level:
  assumes lv: "level_ok (heap a) l xs" and i: "inb a i" "i \<noteq> ARENA_NULL" "i \<notin> set xs"
    and xs: "\<And>x. x \<in> set xs \<Longrightarrow> inb a x"
  shows "\<exists>a' l'. push_back a l i = Some (a', l') \<and> level_ok (heap a') l' (xs @ [i]) \<and>
           relinked (insert i (set xs)) a a'"
proof (cases xs rule: rev_cases)
  case Nil
  then show ?thesis
    using lv i by (auto simp: push_back_def level_ok_def relinked_def fun_upd_def)
next
  case (snoc ys t)
  then have t: "inb a t" "t \<noteq> ARENA_NULL" "t \<noteq> i" "t \<notin> set ys" "i \<notin> set ys"
    using lv i xs by (auto simp: level_ok_def)
  then show ?thesis
    using lv i snoc by (auto simp: push_back_def level_ok_def relinked_def Let_def)
qed

lemma pop_front_level_Nil: "level_ok (heap a) l [] \<Longrightarrow> pop_front a l = Some (a, l, None)"
  by (simp add: pop_front_def level_ok_def)

lemma pop_front_level:
  assumes lv: "level_ok (heap a) l (i # xs)" and xs: "\<And>x. x \<in> set (i # xs) \<Longrightarrow> inb a x"
  shows "\<exists>a' l'. pop_front a l = Some (a', l', Some i) \<and> level_ok (heap a') l' xs \<and>
           relinked (set xs) a a'"
proof (cases xs)
  case Nil
  then show ?thesis
    using lv xs by (auto simp: pop_front_def level_ok_def relinked_def)
next
  case (Cons j ys)
  then have "inb a i" "inb a j" "i \<noteq> ARENA_NULL" "j \<noteq> ARENA_NULL" "j \<notin> set ys" "i \<noteq> j"
    using lv xs by (auto simp: level_ok_def)
  then show ?thesis
    using lv Cons by (auto simp: pop_front_def level_ok_def relinked_def Let_def)
qed

lemma arena_remove_level:
  assumes lv: "level_ok (heap a) l (xs @ i # ys)"
    and inb: "\<And>x. x \<in> set (xs @ i # ys) \<Longrightarrow> inb a x"
  shows "\<exists>a' l'. arena_remove a l i = Some (a', l') \<and> level_ok (heap a') l' (xs @ ys) \<and>
           relinked (set (xs @ ys)) a a'"
proof -
  let ?l = "l\<lparr>l_count := l_count l - 1, l_qty := l_qty l - n_quantity (heap a i)\<rparr>"
  have i: "inb a i" "n_prev (heap a i) = last_or ARENA_NULL xs"
      "n_next (heap a i) = first_or ARENA_NULL ys"
    using lv inb by (simp_all add: level_ok_def)
  consider (only) "xs = []" "ys = []" | (first) j zs where "xs = []" "ys = j # zs"
    | (last) k ps where "xs = ps @ [k]" "ys = []"
    | (mid) k ps j zs where "xs = ps @ [k]" "ys = j # zs"
    by (metis list.exhaust rev_exhaust)
  then show ?thesis
  proof cases
    case only
    then have "arena_remove a l i = Some (a, ?l\<lparr>l_head := ARENA_NULL, l_tail := ARENA_NULL\<rparr>)"
      using i by (simp add: arena_remove_def)
    then show ?thesis
      using only lv by (simp add: level_ok_def relinked_def)
  next
    case first
    then have "j \<noteq> ARENA_NULL" "inb a j" "j \<notin> set zs" "j \<noteq> i"
      using lv inb by (auto simp: level_ok_def)
    then show ?thesis
      using first i lv by (simp add: arena_remove_def level_ok_def relinked_def)
  next
    case last
    then have "k \<noteq> ARENA_NULL" "inb a k" "k \<notin> set ps" "k \<noteq> i"
      using lv inb by (auto simp: level_ok_def)
    then show ?thesis
      using last i lv by (simp add: arena_remove_def level_ok_def relinked_def)
  next
    case mid
    then have "k \<noteq> ARENA_NULL" "inb a k" "k \<notin> set ps" "k \<noteq> i" "j \<noteq> ARENA_NULL" "inb a j"
      "j \<notin> set zs" "j \<noteq> i" "j \<noteq> k" "k \<notin> set zs" "j \<notin> set ps"
      using lv inb by (auto simp: level_ok_def)
    then show ?thesis
      using mid i lv by (simp add: arena_remove_def level_ok_def relinked_def)
  qed
qed

section \<open>The pool\<close>

text \<open>
  \<open>arena_ok a fl used\<close>: \<open>fl\<close> is the free list, \<open>used\<close> the slots handed out, and the two split the
  pool; \<open>count\<close> is the number of slots in use.
\<close>

definition arena_ok :: "Arena \<Rightarrow> u32 list \<Rightarrow> u32 set \<Rightarrow> bool" where
  "arena_ok a fl used \<longleftrightarrow>
     a_free_head a = first_or ARENA_NULL fl \<and> next_path (heap a) fl ARENA_NULL \<and> distinct fl \<and>
     length (a_storage a) = unat (a_capacity a) \<and>
     set fl \<union> used = {i. inb a i} \<and> set fl \<inter> used = {} \<and> a_count a = word_of_nat (card used)"

lemma unat_ARENA_NULL: "unat ARENA_NULL = 2 ^ 32 - 1"
  by (simp add: ARENA_NULL_def unsigned_minus_1_eq_mask mask_eq_exp_minus_1)

lemma unat_le_ARENA_NULL: "unat (x :: u32) \<le> unat ARENA_NULL"
  using u32_bound [of x] by (simp add: unat_ARENA_NULL)

lemma null_not_inb: "length (a_storage a) = unat (a_capacity a) \<Longrightarrow> \<not> inb a ARENA_NULL"
  using unat_le_ARENA_NULL [of "a_capacity a"] by (simp add: inb_def not_less)

lemma inb_image:
  assumes "length (a_storage a) = unat (a_capacity a)"
  shows "{i. inb a i} = word_of_nat ` {..<unat (a_capacity a)}"
proof (intro set_eqI iffI)
  fix i
  assume "i \<in> {i. inb a i}"
  then show "i \<in> word_of_nat ` {..<unat (a_capacity a)}"
    using assms by (auto simp: inb_def image_iff intro!: bexI [of _ "unat i"])
next
  fix i :: u32
  assume "i \<in> word_of_nat ` {..<unat (a_capacity a)}"
  then obtain k where "i = word_of_nat k" "k < unat (a_capacity a)" by auto
  moreover have "unat (word_of_nat k :: u32) \<le> k"
    by (simp add: unat_of_nat)
  ultimately show "i \<in> {i. inb a i}"
    using assms by (simp add: inb_def)
qed

lemma card_inb:
  assumes "length (a_storage a) = unat (a_capacity a)"
  shows "card {i. inb a i} = unat (a_capacity a)"
proof -
  have "unat (word_of_nat k :: u32) = k" if "k < unat (a_capacity a)" for k
    using that u32_bound [of "a_capacity a"] by (simp add: unat_word_of_nat)
  then have "inj_on (word_of_nat :: nat \<Rightarrow> u32) {..<unat (a_capacity a)}"
    by (metis inj_onI lessThan_iff)
  then show ?thesis
    by (simp add: inb_image [OF assms] card_image)
qed

lemma arena_ok_inb:
  assumes "arena_ok a fl used"
  shows "i \<in> set fl \<Longrightarrow> inb a i" "i \<in> used \<Longrightarrow> inb a i" "\<not> inb a ARENA_NULL"
    "ARENA_NULL \<notin> set fl" "ARENA_NULL \<notin> used"
proof -
  show "i \<in> set fl \<Longrightarrow> inb a i" "i \<in> used \<Longrightarrow> inb a i"
    using assms by (auto simp: arena_ok_def)
  show n: "\<not> inb a ARENA_NULL"
    using assms by (simp add: arena_ok_def null_not_inb)
  show "ARENA_NULL \<notin> set fl" "ARENA_NULL \<notin> used"
    using assms n by (auto simp: arena_ok_def)
qed

lemma arena_ok_card:
  assumes "arena_ok a fl used"
  shows "finite used" "length fl + card used = unat (a_capacity a)"
proof -
  have eq: "set fl \<union> used = {i. inb a i}" "set fl \<inter> used = {}" "distinct fl"
    and len: "length (a_storage a) = unat (a_capacity a)"
    using assms by (auto simp: arena_ok_def)
  show fin: "finite used"
    by (rule finite_subset [of _ UNIV]) auto
  show "length fl + card used = unat (a_capacity a)"
    using card_Un_disjoint [of "set fl" used] fin eq card_inb [OF len] distinct_card [of fl]
    by simp
qed

lemma arena_ok_count:
  assumes "arena_ok a fl used"
  shows "unat (a_count a) = card used"
proof -
  have "card used \<le> unat (a_capacity a)"
    using arena_ok_card [OF assms] by simp
  then have "card used < 2 ^ LENGTH(32)"
    using u32_bound [of "a_capacity a"] by simp
  then show ?thesis
    using assms by (simp add: arena_ok_def unat_word_of_nat)
qed

lemma alloc_Full: "arena_ok a [] used \<Longrightarrow> alloc a order = Some (a, Inl Full)"
  by (simp add: alloc_def arena_ok_def)

lemma alloc_ok:
  assumes ok: "arena_ok a (i # fl) used"
  shows "\<exists>a'. alloc a order = Some (a', Inr i) \<and> arena_ok a' fl (insert i used) \<and>
           heap a' = (heap a)(i := from_order order) \<and> inb a' = inb a"
proof -
  have i: "inb a i" "i \<noteq> ARENA_NULL" "i \<notin> set fl" "i \<notin> used"
    using ok arena_ok_inb [OF ok] by (auto simp: arena_ok_def)
  let ?a = "(upd_node (a\<lparr>a_free_head := first_or ARENA_NULL fl\<rparr>) i
              (\<lambda>_. from_order order))\<lparr>a_count := a_count a + 1\<rparr>"
  have "alloc a order = Some (?a, Inr i)"
    using ok i by (simp add: alloc_def arena_ok_def)
  moreover have "heap ?a = (heap a)(i := from_order order)" "inb ?a = inb a"
    using i by simp_all
  moreover have "arena_ok ?a fl (insert i used)"
    using ok i arena_ok_card(1) [OF ok] by (auto simp: arena_ok_def)
  ultimately show ?thesis by blast
qed

lemma dealloc_ok:
  assumes ok: "arena_ok a fl used" and i: "i \<in> used"
  shows "\<exists>a'. dealloc a i = Some a' \<and> arena_ok a' (i # fl) (used - {i}) \<and>
           heap a' = (heap a)(i := (heap a i)\<lparr>n_next := a_free_head a\<rparr>) \<and> inb a' = inb a"
proof -
  have i': "inb a i" "i \<noteq> ARENA_NULL" "i \<notin> set fl"
    using ok i arena_ok_inb [OF ok] by (auto simp: arena_ok_def)
  let ?a = "(upd_node a i (\<lambda>n. n\<lparr>n_next := a_free_head a\<rparr>))
              \<lparr>a_free_head := i, a_count := a_count a - 1\<rparr>"
  have "dealloc a i = Some ?a"
    using i' by (simp add: dealloc_def)
  moreover have "heap ?a = (heap a)(i := (heap a i)\<lparr>n_next := a_free_head a\<rparr>)" "inb ?a = inb a"
    using i' by simp_all
  moreover have "(word_of_nat (card used) :: u32) = word_of_nat (card (used - {i})) + 1"
    using card.remove [OF arena_ok_card(1) [OF ok] i] by (metis of_nat_Suc add.commute)
  then have "a_count ?a = word_of_nat (card (used - {i}))"
    using ok by (simp add: arena_ok_def)
  then have "arena_ok ?a (i # fl) (used - {i})"
    using ok i i' unfolding arena_ok_def by auto
  ultimately show ?thesis by blast
qed

lemma relinked_arena_ok:
  assumes "relinked X a a'" "arena_ok a fl used" "X \<subseteq> used"
  shows "arena_ok a' fl used"
proof -
  have "heap a' i = heap a i" if "i \<in> set fl" for i
    using assms that by (intro relinked_frame [OF assms(1)]) (auto simp: arena_ok_def)
  then have "next_path (heap a') fl ARENA_NULL"
    using assms(2) next_path_cong [of fl "heap a'" "heap a"] by (simp add: arena_ok_def)
  then show ?thesis
    using assms relinked_inb [OF assms(1)] by (simp add: arena_ok_def relinked_def)
qed


lemma heap_Arena_new:
  "inb (Arena_new c) i \<Longrightarrow>
   heap (Arena_new c) i = zeroed\<lparr>n_next := if i + 1 < c then i + 1 else ARENA_NULL\<rparr>"
  by (simp add: heap_def inb_def Arena_new_def Let_def)

lemma next_path_Arena_new:
  "k \<le> unat c \<Longrightarrow> next_path (heap (Arena_new c)) (map word_of_nat [k..<unat c]) ARENA_NULL"
proof (induction "unat c - k" arbitrary: k)
  case (Suc d)
  then have k: "k < unat c" by simp
  have small: "unat (word_of_nat j :: u32) = j" if "j \<le> unat c" for j
    using that u32_bound [of c] by (simp add: unat_word_of_nat)
  have "inb (Arena_new c) (word_of_nat k)"
    using k small [of k] by (simp add: inb_def Arena_new_def)
  moreover have "(word_of_nat k + 1 :: u32) = word_of_nat (Suc k)"
    by (simp add: add.commute)
  moreover have "(word_of_nat (Suc k) :: u32) < c \<longleftrightarrow> Suc k < unat c"
    using k small [of "Suc k"] by (simp only: word_less_nat_alt)
  moreover have "first_or ARENA_NULL (map word_of_nat [Suc k..<unat c]) =
      (if Suc k < unat c then word_of_nat (Suc k) else ARENA_NULL)"
    by (simp add: upt_conv_Cons del: upt_Suc of_nat_Suc)
  moreover have "next_path (heap (Arena_new c)) (map word_of_nat [Suc k..<unat c]) ARENA_NULL"
    using Suc k by (intro Suc.hyps) auto
  ultimately show ?case
    using k by (simp add: upt_conv_Cons heap_Arena_new del: upt_Suc of_nat_Suc)
qed simp

lemma arena_ok_new: "arena_ok (Arena_new c) (map word_of_nat [0..<unat c]) {}"
proof -
  have small: "unat (word_of_nat j :: u32) = j" if "j < unat c" for j
    using that u32_bound [of c] by (simp add: unat_word_of_nat)
  have "a_free_head (Arena_new c) = first_or ARENA_NULL (map word_of_nat [0..<unat c])"
    by (auto simp: Arena_new_def upt_conv_Cons word_gt_0 unat_gt_0 simp del: upt_Suc)
  moreover have "distinct (map (word_of_nat :: nat \<Rightarrow> u32) [0..<unat c])"
    by (auto simp: distinct_map intro!: inj_onI dest!: arg_cong [where f = unat] simp: small)
  moreover have "set (map word_of_nat [0..<unat c]) = {i. inb (Arena_new c) i}"
    using inb_image [of "Arena_new c"] by (simp add: Arena_new_def atLeast0LessThan)
  ultimately show ?thesis
    using next_path_Arena_new [of 0 c] by (simp add: arena_ok_def Arena_new_def)
qed

section \<open>The interface to the order book\<close>

text \<open>
  What a client of the intrusive lists relies on: a list handle \<open>l\<close> in store \<open>s\<close> represents a
  sequence of slots; pushing, popping and unlinking change that sequence as the names say, always
  return, and touch no other list.
\<close>

locale intrusive_lists =
  fixes rep :: "'s \<Rightarrow> 'l \<Rightarrow> 'i list \<Rightarrow> bool"
    and usable :: "'s \<Rightarrow> 'i \<Rightarrow> bool"
    and frame :: "'i set \<Rightarrow> 's \<Rightarrow> 's \<Rightarrow> bool"
    and new_list :: "'l"
    and push :: "'s \<Rightarrow> 'l \<Rightarrow> 'i \<Rightarrow> ('s \<times> 'l) option"
    and pop :: "'s \<Rightarrow> 'l \<Rightarrow> ('s \<times> 'l \<times> 'i option) option"
    and unlink :: "'s \<Rightarrow> 'l \<Rightarrow> 'i \<Rightarrow> ('s \<times> 'l) option"
  assumes rep_new: "rep s new_list []"
    and rep_distinct: "rep s l xs \<Longrightarrow> distinct xs"
    and push_rep: "\<lbrakk>rep s l xs; usable s i; i \<notin> set xs\<rbrakk> \<Longrightarrow>
      \<exists>s' l'. push s l i = Some (s', l') \<and> rep s' l' (xs @ [i]) \<and> frame (insert i (set xs)) s s'"
    and pop_rep_Nil: "rep s l [] \<Longrightarrow> pop s l = Some (s, l, None)"
    and pop_rep: "rep s l (i # xs) \<Longrightarrow>
      \<exists>s' l'. pop s l = Some (s', l', Some i) \<and> rep s' l' xs \<and> frame (set xs) s s'"
    and unlink_rep: "rep s l (xs @ i # ys) \<Longrightarrow>
      \<exists>s' l'. unlink s l i = Some (s', l') \<and> rep s' l' (xs @ ys) \<and> frame (set (xs @ ys)) s s'"
    and frame_rep: "\<lbrakk>frame X s s'; rep s l xs; X \<inter> set xs = {}\<rbrakk> \<Longrightarrow> rep s' l xs"
begin

lemma push_other:
  assumes "rep s l xs" "usable s i" "i \<notin> set xs" "push s l i = Some (s', l')"
    and "rep s m ys" "i \<notin> set ys" "set xs \<inter> set ys = {}"
  shows "rep s' m ys"
  using push_rep [OF assms(1-3)] assms(4-) frame_rep by fastforce

lemma unlink_other:
  assumes "rep s l (xs @ i # ys)" "unlink s l i = Some (s', l')"
    and "rep s m zs" "set (xs @ ys) \<inter> set zs = {}"
  shows "rep s' m zs"
  using unlink_rep [OF assms(1)] assms(2-) frame_rep by fastforce

text \<open>First in, first out: what is pushed comes out after everything already queued.\<close>

lemma push_pop_fifo:
  assumes "rep s l (x # xs)" "usable s i" "i \<notin> set (x # xs)"
  shows "\<exists>s1 l1 s2 l2. push s l i = Some (s1, l1) \<and> pop s1 l1 = Some (s2, l2, Some x) \<and>
           rep s2 l2 (xs @ [i])"
proof -
  obtain s1 l1 where "push s l i = Some (s1, l1)" "rep s1 l1 (x # (xs @ [i]))"
    using push_rep [OF assms] by auto
  then show ?thesis using pop_rep by blast
qed

text \<open>Unlinking the front slot is what \<open>pop\<close> does.\<close>

lemma unlink_front:
  assumes "rep s l (x # xs)"
  shows "\<exists>s1 l1 s2 l2. unlink s l x = Some (s1, l1) \<and> rep s1 l1 xs \<and>
           pop s l = Some (s2, l2, Some x) \<and> rep s2 l2 xs"
  using unlink_rep [of s l "[]" x xs] pop_rep [OF assms] assms by auto

end

definition level_rep :: "Arena \<Rightarrow> PriceLevel \<Rightarrow> u32 list \<Rightarrow> bool" where
  "level_rep a l xs \<longleftrightarrow> level_ok (heap a) l xs \<and> (\<forall>x\<in>set xs. inb a x)"

definition usable_slot :: "Arena \<Rightarrow> u32 \<Rightarrow> bool" where
  "usable_slot a i \<longleftrightarrow> inb a i \<and> i \<noteq> ARENA_NULL"

lemma relinked_level_rep:
  assumes "relinked X a a'" "level_rep a l xs" "X \<inter> set xs = {}"
  shows "level_rep a' l xs"
proof -
  have "heap a' i = heap a i" if "i \<in> set xs" for i
    using assms that by (auto intro: relinked_frame)
  then show ?thesis
    using assms level_ok_cong [of xs "heap a'" "heap a"] by (auto simp: level_rep_def relinked_inb)
qed

interpretation il: intrusive_lists level_rep usable_slot relinked PriceLevel_new
  push_back pop_front arena_remove
proof unfold_locales
  fix a a' l i xs ys X
  show "level_rep a PriceLevel_new []"
    by (simp add: level_rep_def)
  show "level_rep a l xs \<Longrightarrow> distinct xs"
    by (simp add: level_rep_def level_ok_def)
  show "\<lbrakk>level_rep a l xs; usable_slot a i; i \<notin> set xs\<rbrakk> \<Longrightarrow>
      \<exists>a' l'. push_back a l i = Some (a', l') \<and> level_rep a' l' (xs @ [i]) \<and>
        relinked (insert i (set xs)) a a'"
    using push_back_level [of a l xs i]
    by (fastforce simp: level_rep_def usable_slot_def dest: relinked_inb)
  show "level_rep a l [] \<Longrightarrow> pop_front a l = Some (a, l, None)"
    by (simp add: level_rep_def pop_front_level_Nil)
  show "level_rep a l (i # xs) \<Longrightarrow>
      \<exists>a' l'. pop_front a l = Some (a', l', Some i) \<and> level_rep a' l' xs \<and> relinked (set xs) a a'"
    using pop_front_level [of a l i xs] by (fastforce simp: level_rep_def dest: relinked_inb)
  show "level_rep a l (xs @ i # ys) \<Longrightarrow>
      \<exists>a' l'. arena_remove a l i = Some (a', l') \<and> level_rep a' l' (xs @ ys) \<and>
        relinked (set (xs @ ys)) a a'"
    using arena_remove_level [of a l xs i ys] by (fastforce simp: level_rep_def dest: relinked_inb)
  show "\<lbrakk>relinked X a a'; level_rep a l xs; X \<inter> set xs = {}\<rbrakk> \<Longrightarrow> level_rep a' l xs"
    by (rule relinked_level_rep)
qed

section \<open>Properties of the arena\<close>

text \<open>Three orders queued at one level of an arena with four slots.\<close>

definition ex_arena_order :: "u64 \<Rightarrow> Order" where
  "ex_arena_order k = \<lparr>o_id = k, o_trader_id = k, o_side = Bid, o_price = I64 100, o_quantity = 10,
     o_timestamp = 0\<rparr>"

fun ex_queue :: "Arena \<Rightarrow> PriceLevel \<Rightarrow> u64 list \<Rightarrow> Arena \<times> PriceLevel" where
  "ex_queue a l [] = (a, l)"
| "ex_queue a l (k # ks) =
     (case alloc a (ex_arena_order k) of
        Some (a, Inr i) \<Rightarrow> (case push_back a l i of Some (a, l) \<Rightarrow> ex_queue a l ks | None \<Rightarrow> (a, l))
      | _ \<Rightarrow> (a, l))"

definition ex_level :: "Arena \<times> PriceLevel" where
  "ex_level = ex_queue (Arena_new 4) PriceLevel_new [1, 2, 3]"

text \<open>
  Removing any order of a price level, first, last or in the middle, returns, closes the
  doubly linked list around it (links, count and total quantity of the level), and leaves every
  other level of the arena and every stored order as it was.
\<close>

theorem remove_unlinks:
  assumes "level_rep a l (xs @ i # ys)"
  shows "\<exists>a' l'. arena_remove a l i = Some (a', l') \<and> level_rep a' l' (xs @ ys) \<and>
    (\<forall>m zs. level_rep a m zs \<and> set (xs @ ys) \<inter> set zs = {} \<longrightarrow> level_rep a' m zs) \<and>
    (\<forall>j. to_order (heap a' j) = to_order (heap a j))"
proof -
  obtain a' l' where r: "arena_remove a l i = Some (a', l')" "level_rep a' l' (xs @ ys)"
    "relinked (set (xs @ ys)) a a'"
    using il.unlink_rep [OF assms] by blast
  then show ?thesis
    using il.unlink_other [OF assms r(1)] relinked_order [OF r(3)] by blast
qed

theorem remove_unlinks_witness:
  "level_rep (fst ex_level) (snd ex_level) ([0] @ 1 # [2]) \<and>
   (\<exists>a' l'. arena_remove (fst ex_level) (snd ex_level) 1 = Some (a', l') \<and> level_rep a' l' [0, 2])"
proof -
  have "level_rep (fst ex_level) (snd ex_level) ([0] @ 1 # [2])" by code_simp
  with remove_unlinks [OF this] show ?thesis by auto
qed

text \<open>
  A level is a first-in first-out queue: after \<open>push_back\<close>, \<open>pop_front\<close> still returns the oldest
  slot, and the pushed slot is last in what remains.
\<close>

theorem push_pop_is_fifo:
  assumes "level_rep a l (x # xs)" "inb a i" "i \<noteq> ARENA_NULL" "i \<notin> set (x # xs)"
  shows "\<exists>a1 l1 a2 l2. push_back a l i = Some (a1, l1) \<and> pop_front a1 l1 = Some (a2, l2, Some x) \<and>
    level_rep a2 l2 (xs @ [i])"
  using assms by (intro il.push_pop_fifo) (simp_all add: usable_slot_def)

theorem push_pop_is_fifo_witness:
  "level_rep (fst ex_level) (snd ex_level) (0 # [1, 2]) \<and> inb (fst ex_level) 3 \<and> 3 \<noteq> ARENA_NULL \<and>
   (\<exists>a1 l1 a2 l2. push_back (fst ex_level) (snd ex_level) 3 = Some (a1, l1) \<and>
      pop_front a1 l1 = Some (a2, l2, Some 0) \<and> level_rep a2 l2 ([1, 2] @ [3]))"
proof -
  have 1: "level_rep (fst ex_level) (snd ex_level) (0 # [1, 2])" by code_simp
  have 2: "inb (fst ex_level) 3" "3 \<noteq> ARENA_NULL" "3 \<notin> set (0 # [1, 2 :: u32])" by code_simp+
  from push_pop_is_fifo [OF 1 2] 1 2 show ?thesis by auto
qed

text \<open>
  The pool never hands out a slot in use. \<open>alloc\<close> fails exactly when every slot is used; else it
  returns a free slot that now holds the order, and \<open>dealloc\<close> of that slot gives back the pool with
  the same free list.
\<close>

theorem alloc_dealloc:
  assumes "arena_ok a fl used"
  shows "if fl = [] then alloc a order = Some (a, Inl Full)
    else \<exists>a1 i a2. alloc a order = Some (a1, Inr i) \<and> i = hd fl \<and> i \<notin> used \<and>
      to_order (heap a1 i) = order \<and> (\<forall>j\<in>used. heap a1 j = heap a j) \<and>
      arena_ok a1 (tl fl) (insert i used) \<and>
      dealloc a1 i = Some a2 \<and> arena_ok a2 fl used"
proof (cases fl)
  case Nil
  then show ?thesis using assms alloc_Full by simp
next
  case (Cons i fl')
  then have i: "i \<notin> used" using assms by (auto simp: arena_ok_def)
  obtain a1 where a1: "alloc a order = Some (a1, Inr i)" "arena_ok a1 fl' (insert i used)"
    "heap a1 = (heap a)(i := from_order order)"
    using alloc_ok assms Cons by blast
  moreover obtain a2 where "dealloc a1 i = Some a2" "arena_ok a2 (i # fl') (insert i used - {i})"
    using dealloc_ok [OF a1(2), of i] by blast
  ultimately show ?thesis using Cons i by auto
qed

theorem alloc_dealloc_witness:
  "\<exists>a1 a2. alloc (Arena_new 2) (ex_arena_order 7) = Some (a1, Inr 0) \<and> dealloc a1 0 = Some a2 \<and>
     arena_ok a2 [0, 1] {}"
proof -
  have ok: "arena_ok (Arena_new 2) [0, 1] {}"
    using arena_ok_new [of 2] by (simp add: upt_rec)
  from alloc_dealloc [OF ok, of "ex_arena_order 7"] show ?thesis by auto
qed

end
