(* ===== verification/Containers.thy ===== *)
theory Containers
  imports Prelude "HOL-Library.AList"
begin

text \<open>
  The two standard-library containers the order book uses, restricted to the operations it
  calls: \<open>HashMap\<close> (an association list with distinct keys; the book never iterates over it, so
  the order of the entries is not observable) and \<open>BTreeMap\<close> (an association list with strictly
  ascending keys, so that \<open>keys().next()\<close> and \<open>keys().next_back()\<close> are its two ends).

  What the book relies on is stated as two locales: the laws of a finite map, and those of a map
  with its smallest and largest key. Both are interpreted on the models below.
\<close>

section \<open>Interfaces\<close>

locale map_interface =
  fixes empty_map :: "'m"
    and get :: "'m \<Rightarrow> 'k \<Rightarrow> 'v option"
    and put :: "'k \<Rightarrow> 'v \<Rightarrow> 'm \<Rightarrow> 'm"
    and del :: "'k \<Rightarrow> 'm \<Rightarrow> 'm"
    and len :: "'m \<Rightarrow> nat"
    and ok :: "'m \<Rightarrow> bool"
  assumes ok_empty: "ok empty_map"
    and ok_put: "ok m \<Longrightarrow> ok (put k v m)"
    and ok_del: "ok m \<Longrightarrow> ok (del k m)"
    and get_empty: "get empty_map k = None"
    and get_put: "ok m \<Longrightarrow> get (put k v m) = (get m)(k \<mapsto> v)"
    and get_del: "ok m \<Longrightarrow> get (del k m) = (get m)(k := None)"
    and finite_dom: "ok m \<Longrightarrow> finite (dom (get m))"
    and len_card: "ok m \<Longrightarrow> len m = card (dom (get m))"
begin

lemma len_put_new: "ok m \<Longrightarrow> get m k = None \<Longrightarrow> len (put k v m) = Suc (len m)"
  by (simp add: len_card ok_put get_put finite_dom domIff)

lemma len_put_old: "ok m \<Longrightarrow> get m k = Some w \<Longrightarrow> len (put k v m) = len m"
  by (simp add: len_card ok_put get_put insert_absorb domIff)

lemma len_del: "ok m \<Longrightarrow> get m k = Some v \<Longrightarrow> Suc (len (del k m)) = len m"
  using card_Suc_Diff1 [of "dom (get m)" k]
  by (simp add: len_card ok_del get_del finite_dom domIff del: card_Diff_insert)

lemma len_empty: "len empty_map = 0"
  by (simp add: len_card ok_empty get_empty dom_def)

end

locale ordered_map_interface = map_interface empty_map get put del len ok
  for empty_map :: "'m"
    and get :: "'m \<Rightarrow> 'k::linorder \<Rightarrow> 'v option"
    and put del len ok +
  fixes first_key last_key :: "'m \<Rightarrow> 'k option"
  assumes first_key_Min:
      "ok m \<Longrightarrow> first_key m = (if dom (get m) = {} then None else Some (Min (dom (get m))))"
    and last_key_Max:
      "ok m \<Longrightarrow> last_key m = (if dom (get m) = {} then None else Some (Max (dom (get m))))"
begin

text \<open>A new entry moves the ends exactly as a running minimum and maximum would.\<close>

lemma first_key_put:
  "ok m \<Longrightarrow> first_key (put k v m) = Some (case first_key m of None \<Rightarrow> k | Some a \<Rightarrow> min a k)"
  by (simp add: first_key_Min ok_put get_put finite_dom min.commute)

lemma last_key_put:
  "ok m \<Longrightarrow> last_key (put k v m) = Some (case last_key m of None \<Rightarrow> k | Some a \<Rightarrow> max a k)"
  by (simp add: last_key_Max ok_put get_put finite_dom max.commute)

lemma first_key_put_old: "ok m \<Longrightarrow> get m k = Some w \<Longrightarrow> first_key (put k v m) = first_key m"
  by (simp add: first_key_Min ok_put get_put insert_absorb domIff)

lemma last_key_put_old: "ok m \<Longrightarrow> get m k = Some w \<Longrightarrow> last_key (put k v m) = last_key m"
  by (simp add: last_key_Max ok_put get_put insert_absorb domIff)

lemma first_key_None: "ok m \<Longrightarrow> first_key m = None \<longleftrightarrow> (\<forall>k. get m k = None)"
  by (auto simp: first_key_Min dom_def)

lemma last_key_None: "ok m \<Longrightarrow> last_key m = None \<longleftrightarrow> (\<forall>k. get m k = None)"
  by (auto simp: last_key_Max dom_def)

lemma first_key_Some:
  assumes "ok m" "first_key m = Some k"
  shows "get m k \<noteq> None" and "get m k' \<noteq> None \<Longrightarrow> k \<le> k'"
proof -
  have ne: "dom (get m) \<noteq> {}" and k: "k = Min (dom (get m))"
    using assms by (auto simp: first_key_Min split: if_splits)
  show "get m k \<noteq> None"
    using Min_in [OF finite_dom [OF assms(1)] ne] by (simp add: k domIff)
  show "get m k' \<noteq> None \<Longrightarrow> k \<le> k'"
    unfolding k by (rule Min_le [OF finite_dom [OF assms(1)]]) (simp add: domIff)
qed

lemma last_key_Some:
  assumes "ok m" "last_key m = Some k"
  shows "get m k \<noteq> None" and "get m k' \<noteq> None \<Longrightarrow> k' \<le> k"
proof -
  have ne: "dom (get m) \<noteq> {}" and k: "k = Max (dom (get m))"
    using assms by (auto simp: last_key_Max split: if_splits)
  show "get m k \<noteq> None"
    using Max_in [OF finite_dom [OF assms(1)] ne] by (simp add: k domIff)
  show "get m k' \<noteq> None \<Longrightarrow> k' \<le> k"
    unfolding k by (rule Max_ge [OF finite_dom [OF assms(1)]]) (simp add: domIff)
qed

end

section \<open>HashMap\<close>

type_synonym ('k, 'v) hash_map = "('k \<times> 'v) list"

definition hm_get :: "('k, 'v) hash_map \<Rightarrow> 'k \<Rightarrow> 'v option" where
  "hm_get m k = map_of m k"

definition hm_insert :: "'k \<Rightarrow> 'v \<Rightarrow> ('k, 'v) hash_map \<Rightarrow> ('k, 'v) hash_map" where
  "hm_insert k v m = AList.update k v m"

definition hm_remove :: "'k \<Rightarrow> ('k, 'v) hash_map \<Rightarrow> ('k, 'v) hash_map" where
  "hm_remove k m = AList.delete k m"

definition hm_ok :: "('k, 'v) hash_map \<Rightarrow> bool" where
  "hm_ok m = distinct (map fst m)"

interpretation hm: map_interface "[]" hm_get hm_insert hm_remove length hm_ok
proof unfold_locales
  fix m :: "('a, 'b) hash_map" and k :: 'a and v :: 'b
  show "hm_ok []" "hm_get [] k = None"
    by (simp_all add: hm_ok_def hm_get_def)
  show "hm_ok m \<Longrightarrow> hm_ok (hm_insert k v m)"
    by (simp add: hm_ok_def hm_insert_def distinct_update)
  show "hm_ok m \<Longrightarrow> hm_ok (hm_remove k m)"
    by (simp add: hm_ok_def hm_remove_def distinct_delete)
  show "hm_get (hm_insert k v m) = (hm_get m)(k \<mapsto> v)"
    by (auto simp: hm_get_def hm_insert_def update_conv fun_eq_iff)
  show "hm_get (hm_remove k m) = (hm_get m)(k := None)"
    by (auto simp: hm_get_def hm_remove_def delete_conv fun_eq_iff)
  show "finite (dom (hm_get m))"
    by (simp add: hm_get_def [abs_def] finite_dom_map_of)
  show "hm_ok m \<Longrightarrow> length m = card (dom (hm_get m))"
    using distinct_card [of "map fst m"]
    by (simp add: hm_ok_def hm_get_def [abs_def] dom_map_of_conv_image_fst)
qed

section \<open>BTreeMap\<close>

type_synonym ('k, 'v) btree_map = "('k \<times> 'v) list"

definition bt_get :: "('k, 'v) btree_map \<Rightarrow> 'k \<Rightarrow> 'v option" where
  "bt_get m k = map_of m k"

fun bt_insert :: "'k::linorder \<Rightarrow> 'v \<Rightarrow> ('k, 'v) btree_map \<Rightarrow> ('k, 'v) btree_map" where
  "bt_insert key val [] = [(key, val)]"
| "bt_insert key val (e # m) =
     (if fst e < key then e # bt_insert key val m
      else (key, val) # (if fst e = key then m else e # m))"

definition bt_remove :: "'k \<Rightarrow> ('k, 'v) btree_map \<Rightarrow> ('k, 'v) btree_map" where
  "bt_remove key m = filter (\<lambda>e. fst e \<noteq> key) m"

definition bt_first :: "('k, 'v) btree_map \<Rightarrow> 'k option" where
  "bt_first m = (case m of [] \<Rightarrow> None | e # _ \<Rightarrow> Some (fst e))"

definition bt_last :: "('k, 'v) btree_map \<Rightarrow> 'k option" where
  "bt_last m = (if m = [] then None else Some (fst (last m)))"

definition bt_ok :: "('k::linorder, 'v) btree_map \<Rightarrow> bool" where
  "bt_ok m = sorted_wrt (<) (map fst m)"

lemma bt_ok_Cons [simp]: "bt_ok (e # m) \<longleftrightarrow> (\<forall>x\<in>set m. fst e < fst x) \<and> bt_ok m"
  by (auto simp: bt_ok_def)

lemma bt_ok_Nil [simp]: "bt_ok []"
  by (simp add: bt_ok_def)

lemma set_bt_insert: "x \<in> set (bt_insert k v m) \<Longrightarrow> x = (k, v) \<or> x \<in> set m"
  by (induction m) (auto split: if_splits)

lemma bt_ok_insert: "bt_ok m \<Longrightarrow> bt_ok (bt_insert k v m)"
proof (induction m)
  case (Cons e m)
  then show ?case
    by (auto simp: not_less le_less dest!: set_bt_insert intro: less_trans)
qed simp

lemma bt_get_insert: "bt_get (bt_insert k v m) = (bt_get m)(k \<mapsto> v)"
  by (induction m) (auto simp: bt_get_def fun_eq_iff)

lemma bt_get_remove: "bt_get (bt_remove k m) = (bt_get m)(k := None)"
  by (induction m) (auto simp: bt_get_def bt_remove_def fun_eq_iff)

lemma bt_ok_distinct: "bt_ok m \<Longrightarrow> distinct (map fst m)"
  by (simp add: bt_ok_def strict_sorted_iff)

lemma dom_bt_get: "dom (bt_get m) = fst ` set m"
  by (simp add: bt_get_def [abs_def] dom_map_of_conv_image_fst)

lemma bt_first_Min: "bt_ok (e # m) \<Longrightarrow> Min (fst ` set (e # m)) = fst e"
  by (rule Min_eqI) (auto intro: less_imp_le)

lemma bt_last_Max: "bt_ok m \<Longrightarrow> m \<noteq> [] \<Longrightarrow> Max (fst ` set m) = fst (last m)"
proof (induction m)
  case (Cons e m)
  show ?case
  proof (cases "m = []")
    case False
    then have "Max (fst ` set m) = fst (last m)" "fst e < fst (last m)"
      using Cons by auto
    then show ?thesis
      using False by (simp add: max_absorb2 less_imp_le)
  qed simp
qed simp

interpretation bt: ordered_map_interface "[]" bt_get bt_insert bt_remove length bt_ok bt_first bt_last
proof unfold_locales
  fix m :: "('a::linorder, 'b) btree_map" and k :: 'a and v :: 'b
  show "bt_ok []" "bt_get [] k = None"
    by (simp_all add: bt_get_def)
  show "bt_ok m \<Longrightarrow> bt_ok (bt_insert k v m)"
    by (rule bt_ok_insert)
  show "bt_ok m \<Longrightarrow> bt_ok (bt_remove k m)"
    by (auto simp: bt_ok_def bt_remove_def sorted_wrt_map sorted_wrt_filter)
  show "bt_get (bt_insert k v m) = (bt_get m)(k \<mapsto> v)"
    by (rule bt_get_insert)
  show "bt_get (bt_remove k m) = (bt_get m)(k := None)"
    by (rule bt_get_remove)
  show "finite (dom (bt_get m))"
    by (simp add: dom_bt_get)
  show "bt_ok m \<Longrightarrow> length m = card (dom (bt_get m))"
    using distinct_card [of "map fst m"] by (simp add: dom_bt_get bt_ok_distinct)
  show "bt_ok m \<Longrightarrow>
      bt_first m = (if dom (bt_get m) = {} then None else Some (Min (dom (bt_get m))))"
    using bt_first_Min [of "hd m" "tl m"]
    by (cases m) (simp_all add: bt_first_def dom_bt_get del: list.set)
  show "bt_ok m \<Longrightarrow>
      bt_last m = (if dom (bt_get m) = {} then None else Some (Max (dom (bt_get m))))"
    by (auto simp: bt_last_def dom_bt_get bt_last_Max)
qed

end
