(* ===== verification/Book.thy ===== *)
theory Book
  imports Arena Containers
begin

text \<open>
  \<open>src/book.rs\<close>: the limit order book. Two sorted maps from price to level, the cached best
  prices, the index from order id to arena slot, and the arena. \<open>insert_order\<close>, \<open>cancel_order\<close>
  and \<open>reduce_front_quantity\<close> are the three operations that change it.

  Results: \<open>None\<close> is a panic (or a walk that does not end), \<open>Some (b, r)\<close> is the book after the
  call with the Rust \<open>Result\<close> \<open>r\<close>; the book is returned on the error paths too, since the source
  mutates it through \<open>&mut self\<close> before some of them.

  The abstract view is the price-time priority book: for each side and price, the queue of
  resting orders (\<open>depth\<close>). The lemmas show that the representation invariant \<open>book_rep\<close> is kept
  and that each operation, on every branch, does to \<open>depth\<close> what its name promises.
\<close>

section \<open>The code\<close>

datatype BookError =
    DuplicateOrderId u64
  | OrderNotFound u64
  | PriceLevelNotFound i64
  | FillExceedsQuantity u64 u64
  | ArenaFull

record OrderBook =
  b_bids :: "(i64, PriceLevel) btree_map"
  b_asks :: "(i64, PriceLevel) btree_map"
  b_best_bid :: "i64 option"
  b_best_ask :: "i64 option"
  b_order_index :: "(u64, u32) hash_map"
  b_arena :: Arena

definition OrderBook_with_capacity :: "u32 \<Rightarrow> OrderBook" where
  "OrderBook_with_capacity arena_capacity =
     \<lparr>b_bids = [], b_asks = [], b_best_bid = None, b_best_ask = None,
      b_order_index = [], b_arena = Arena_new arena_capacity\<rparr>"

definition OrderBook_new :: OrderBook where
  "OrderBook_new = OrderBook_with_capacity DEFAULT_CAPACITY"

definition best_bid :: "OrderBook \<Rightarrow> i64 option" where
  "best_bid b = b_best_bid b"

definition best_ask :: "OrderBook \<Rightarrow> i64 option" where
  "best_ask b = b_best_ask b"

definition order_count :: "OrderBook \<Rightarrow> nat" where
  "order_count b = length (b_order_index b)"

text \<open>\<open>match side { Side::Bid => bids, Side::Ask => asks }\<close>, for reading and for writing.\<close>

definition levels :: "OrderBook \<Rightarrow> Side \<Rightarrow> (i64, PriceLevel) btree_map" where
  "levels b side = (case side of Bid \<Rightarrow> b_bids b | Ask \<Rightarrow> b_asks b)"

definition set_levels :: "OrderBook \<Rightarrow> Side \<Rightarrow> (i64, PriceLevel) btree_map \<Rightarrow> OrderBook" where
  "set_levels b side m = (case side of Bid \<Rightarrow> b\<lparr>b_bids := m\<rparr> | Ask \<Rightarrow> b\<lparr>b_asks := m\<rparr>)"

definition update_best_after_insert :: "OrderBook \<Rightarrow> Side \<Rightarrow> i64 \<Rightarrow> OrderBook" where
  "update_best_after_insert b side price =
     (case side of
        Bid \<Rightarrow> b\<lparr>b_best_bid := Some (case b_best_bid b of None \<Rightarrow> price | Some p \<Rightarrow> max p price)\<rparr>
      | Ask \<Rightarrow> b\<lparr>b_best_ask := Some (case b_best_ask b of None \<Rightarrow> price | Some p \<Rightarrow> min p price)\<rparr>)"

definition insert_order :: "OrderBook \<Rightarrow> Order \<Rightarrow> (OrderBook \<times> (BookError + unit)) option" where
  "insert_order b order =
     (if hm_get (b_order_index b) (o_id order) \<noteq> None
      then Some (b, Inl (DuplicateOrderId (o_id order)))
      else do {
        let side = o_side order;
        let price = o_price order;
        (arena, r) \<leftarrow> alloc (b_arena b) order;
        case r of
          Inl _ \<Rightarrow> Some (b\<lparr>b_arena := arena\<rparr>, Inl ArenaFull)
        | Inr index \<Rightarrow> do {
            let level = (case bt_get (levels b side) price of
                           None \<Rightarrow> PriceLevel_new | Some l \<Rightarrow> l);
            (arena, level) \<leftarrow> push_back arena level index;
            let b = set_levels b side (bt_insert price level (levels b side));
            let b = b\<lparr>b_arena := arena,
                      b_order_index := hm_insert (o_id order) index (b_order_index b)\<rparr>;
            Some (update_best_after_insert b side price, Inr ())
          }
      })"

text \<open>
  The tail shared by \<open>cancel_order\<close> and \<open>reduce_front_quantity\<close>: an emptied level is removed and
  the best price of its side is read again from the map.
\<close>

definition drop_level :: "OrderBook \<Rightarrow> Side \<Rightarrow> i64 \<Rightarrow> OrderBook" where
  "drop_level b side price =
     (case side of
        Bid \<Rightarrow> (let bids = bt_remove price (b_bids b)
                in b\<lparr>b_bids := bids, b_best_bid := bt_last bids\<rparr>)
      | Ask \<Rightarrow> (let asks = bt_remove price (b_asks b)
                in b\<lparr>b_asks := asks, b_best_ask := bt_first asks\<rparr>))"

definition book_cancel_order :: "OrderBook \<Rightarrow> u64 \<Rightarrow> (OrderBook \<times> (BookError + Order)) option" where
  "book_cancel_order b order_id =
     (case hm_get (b_order_index b) order_id of
        None \<Rightarrow> Some (b, Inl (OrderNotFound order_id))
      | Some index \<Rightarrow> do {
          let b = b\<lparr>b_order_index := hm_remove order_id (b_order_index b)\<rparr>;
          n \<leftarrow> arena_get (b_arena b) index;
          let order = to_order n;
          let side = o_side order;
          let price = o_price order;
          case bt_get (levels b side) price of
            None \<Rightarrow> Some (b, Inl (PriceLevelNotFound price))
          | Some level \<Rightarrow> do {
              (arena, level) \<leftarrow> arena_remove (b_arena b) level index;
              arena \<leftarrow> dealloc arena index;
              let b = (set_levels b side (bt_insert price level (levels b side)))\<lparr>b_arena := arena\<rparr>;
              let b = (if l_count level = 0 then drop_level b side price else b);
              Some (b, Inr order)
            }
        })"

definition peek_front :: "OrderBook \<Rightarrow> Side \<Rightarrow> i64 \<Rightarrow> OrderNode option option" where
  "peek_front b side price =
     (case bt_get (levels b side) price of
        None \<Rightarrow> Some None
      | Some level \<Rightarrow>
          if l_head level = ARENA_NULL then Some None
          else do { n \<leftarrow> arena_get (b_arena b) (l_head level); Some (Some n) })"

definition reduce_front_quantity ::
  "OrderBook \<Rightarrow> Side \<Rightarrow> i64 \<Rightarrow> u64 \<Rightarrow> (OrderBook \<times> (BookError + u64)) option" where
  "reduce_front_quantity b side price fill_qty =
     (case bt_get (levels b side) price of
        None \<Rightarrow> Some (b, Inl (PriceLevelNotFound price))
      | Some level \<Rightarrow>
          if l_head level = ARENA_NULL then Some (b, Inl (PriceLevelNotFound price))
          else do {
            let head_idx = l_head level;
            front \<leftarrow> arena_get (b_arena b) head_idx;
            if fill_qty > n_quantity front
            then Some (b, Inl (FillExceedsQuantity (n_quantity front) fill_qty))
            else do {
              let remaining = n_quantity front - fill_qty;
              arena \<leftarrow> node_upd (b_arena b) head_idx (\<lambda>n. n\<lparr>n_quantity := remaining\<rparr>);
              let level = level\<lparr>l_qty := l_qty level - fill_qty\<rparr>;
              if remaining = 0 then do {
                n \<leftarrow> arena_get arena head_idx;
                let removed_id = n_id n;
                (arena, level, _) \<leftarrow> pop_front arena level;
                arena \<leftarrow> dealloc arena head_idx;
                let b = (set_levels b side (bt_insert price level (levels b side)))
                          \<lparr>b_arena := arena,
                           b_order_index := hm_remove removed_id (b_order_index b)\<rparr>;
                Some (if l_count level = 0 then drop_level b side price else b, Inr 0)
              } else
                Some ((set_levels b side (bt_insert price level (levels b side)))
                        \<lparr>b_arena := arena\<rparr>, Inr remaining)
            }
          })"

text \<open>The walk of \<open>all_resting_orders\<close> along one level, and the two loops over the levels.\<close>

partial_function (option) collect_level :: "Arena \<Rightarrow> u32 \<Rightarrow> Order list \<Rightarrow> Order list option" where
  "collect_level a idx orders =
     (if idx = ARENA_NULL then Some orders
      else do {
        node \<leftarrow> arena_get a idx;
        collect_level a (n_next node) (orders @ [to_order node])
      })"

declare collect_level.simps [code]

fun collect_levels :: "Arena \<Rightarrow> PriceLevel list \<Rightarrow> Order list \<Rightarrow> Order list option" where
  "collect_levels a [] orders = Some orders"
| "collect_levels a (l # ls) orders = do {
     orders \<leftarrow> collect_level a (l_head l) orders;
     collect_levels a ls orders
   }"

definition all_resting_orders :: "OrderBook \<Rightarrow> Order list option" where
  "all_resting_orders b = do {
     orders \<leftarrow> collect_levels (b_arena b) (map snd (b_asks b)) [];
     collect_levels (b_arena b) (rev (map snd (b_bids b))) orders
   }"

section \<open>The representation invariant\<close>

text \<open>The order stored in a slot.\<close>

definition ord :: "Arena \<Rightarrow> u32 \<Rightarrow> Order" where
  "ord a i = to_order (heap a i)"

definition slots :: "(Side \<Rightarrow> i64 \<Rightarrow> u32 list) \<Rightarrow> u32 set" where
  "slots g = (\<Union>s p. set (g s p))"

text \<open>The cached best price of a side, and the one its map of levels has.\<close>

definition cached :: "OrderBook \<Rightarrow> Side \<Rightarrow> i64 option" where
  "cached b s = (case s of Bid \<Rightarrow> b_best_bid b | Ask \<Rightarrow> b_best_ask b)"

definition best_of :: "Side \<Rightarrow> (i64, PriceLevel) btree_map \<Rightarrow> i64 option" where
  "best_of s m = (case s of Bid \<Rightarrow> bt_last m | Ask \<Rightarrow> bt_first m)"

text \<open>
  \<open>book_rep b g fl\<close>: \<open>g s p\<close> is the queue of slots at price \<open>p\<close> of side \<open>s\<close>, and \<open>fl\<close> the free
  list. No level is empty, every node is filed under its own side and price and has quantity, the
  index maps exactly the ids of the resting orders to their slots, and the cached best prices are
  the ends of the maps.
\<close>

definition book_rep :: "OrderBook \<Rightarrow> (Side \<Rightarrow> i64 \<Rightarrow> u32 list) \<Rightarrow> u32 list \<Rightarrow> bool" where
  "book_rep b g fl \<longleftrightarrow>
     arena_ok (b_arena b) fl (slots g) \<and>
     (\<forall>s. bt_ok (levels b s)) \<and>
     (\<forall>s p. case bt_get (levels b s) p of
        None \<Rightarrow> g s p = []
      | Some l \<Rightarrow> g s p \<noteq> [] \<and> level_rep (b_arena b) l (g s p)) \<and>
     (\<forall>s p. \<forall>i\<in>set (g s p). o_side (ord (b_arena b) i) = s \<and> o_price (ord (b_arena b) i) = p \<and>
        o_quantity (ord (b_arena b) i) \<noteq> 0) \<and>
     hm_ok (b_order_index b) \<and>
     (\<forall>k i. hm_get (b_order_index b) k = Some i \<longleftrightarrow> i \<in> slots g \<and> o_id (ord (b_arena b) i) = k) \<and>
     (\<forall>s. cached b s = best_of s (levels b s))"

definition book_ok :: "OrderBook \<Rightarrow> bool" where
  "book_ok b \<longleftrightarrow> (\<exists>g fl. book_rep b g fl)"

lemma levels_simps [simp]:
  "levels (set_levels b s m) s' = (if s' = s then m else levels b s')"
  "levels (b\<lparr>b_arena := a\<rparr>) s = levels b s" "levels (b\<lparr>b_order_index := idx\<rparr>) s = levels b s"
  "levels (b\<lparr>b_best_bid := x\<rparr>) s = levels b s" "levels (b\<lparr>b_best_ask := x\<rparr>) s = levels b s"
  by (cases s; cases s'; simp add: levels_def set_levels_def)+

lemma set_levels_sel [simp]:
  "b_arena (set_levels b s m) = b_arena b" "b_order_index (set_levels b s m) = b_order_index b"
  "b_best_bid (set_levels b s m) = b_best_bid b" "b_best_ask (set_levels b s m) = b_best_ask b"
  by (cases s; simp add: set_levels_def)+

lemma levels_Bid [simp]: "levels b Bid = b_bids b" and levels_Ask [simp]: "levels b Ask = b_asks b"
  by (simp_all add: levels_def)

lemma cached_simps [simp]:
  "cached (b\<lparr>b_arena := a\<rparr>) s' = cached b s'"
  "cached (b\<lparr>b_order_index := idx\<rparr>) s' = cached b s'"
  "cached (set_levels b s m) s' = cached b s'"
  by (simp_all add: cached_def split: Side.split)

lemma levels_update_best [simp]: "levels (update_best_after_insert b s p) = levels b"
  by (cases s) (simp_all add: update_best_after_insert_def fun_eq_iff)

lemma update_best_sel [simp]:
  "b_arena (update_best_after_insert b s p) = b_arena b"
  "b_order_index (update_best_after_insert b s p) = b_order_index b"
  by (cases s; simp add: update_best_after_insert_def)+

lemma drop_level_sel [simp]:
  "b_arena (drop_level b s p) = b_arena b" "b_order_index (drop_level b s p) = b_order_index b"
  "levels (drop_level b s p) s' = (if s' = s then bt_remove p (levels b s) else levels b s')"
  "cached (drop_level b s p) s' =
     (if s' = s then best_of s (bt_remove p (levels b s)) else cached b s')"
  by (cases s; cases s'; simp add: drop_level_def Let_def levels_def cached_def best_of_def)+

text \<open>The running best price of \<open>update_best_after_insert\<close> is the one of the grown map.\<close>

lemma cached_update_best:
  assumes "bt_ok (levels b s)" "\<And>s. cached b s = best_of s (levels b s)"
  shows "cached (update_best_after_insert (set_levels b s (bt_insert p l (levels b s))
             \<lparr>b_arena := a, b_order_index := idx\<rparr>) s p) s' =
         best_of s' (if s' = s then bt_insert p l (levels b s) else levels b s')"
  using assms(1) assms(2) [of Bid] assms(2) [of Ask]
  by (cases s; cases s')
    (simp_all add: update_best_after_insert_def cached_def best_of_def set_levels_def levels_def
       bt.first_key_put bt.last_key_put)

lemma best_of_insert_old:
  "bt_ok m \<Longrightarrow> bt_get m p = Some l \<Longrightarrow> best_of s (bt_insert p l' m) = best_of s m"
  by (cases s) (simp_all add: best_of_def bt.first_key_put_old bt.last_key_put_old)

section \<open>Moving the invariant over an update of one level\<close>

lemma book_repD:
  assumes "book_rep b g fl"
  shows "arena_ok (b_arena b) fl (slots g)" "bt_ok (levels b s)"
    "bt_get (levels b s) p = None \<Longrightarrow> g s p = []"
    "bt_get (levels b s) p = Some l \<Longrightarrow> g s p \<noteq> []"
    "bt_get (levels b s) p = Some l \<Longrightarrow> level_rep (b_arena b) l (g s p)"
    "i \<in> set (g s p) \<Longrightarrow> o_side (ord (b_arena b) i) = s"
    "i \<in> set (g s p) \<Longrightarrow> o_price (ord (b_arena b) i) = p"
    "i \<in> set (g s p) \<Longrightarrow> o_quantity (ord (b_arena b) i) \<noteq> 0"
    "hm_ok (b_order_index b)"
    "hm_get (b_order_index b) k = Some i \<longleftrightarrow> i \<in> slots g \<and> o_id (ord (b_arena b) i) = k"
    "cached b s = best_of s (levels b s)"
proof -
  have lv: "case bt_get (levels b s) p of None \<Rightarrow> g s p = []
      | Some l \<Rightarrow> g s p \<noteq> [] \<and> level_rep (b_arena b) l (g s p)"
    using assms unfolding book_rep_def by blast
  show "arena_ok (b_arena b) fl (slots g)" "bt_ok (levels b s)" "hm_ok (b_order_index b)"
    "hm_get (b_order_index b) k = Some i \<longleftrightarrow> i \<in> slots g \<and> o_id (ord (b_arena b) i) = k"
    "cached b s = best_of s (levels b s)"
    "i \<in> set (g s p) \<Longrightarrow> o_side (ord (b_arena b) i) = s"
    "i \<in> set (g s p) \<Longrightarrow> o_price (ord (b_arena b) i) = p"
    "i \<in> set (g s p) \<Longrightarrow> o_quantity (ord (b_arena b) i) \<noteq> 0"
    using assms unfolding book_rep_def by blast+
  show "bt_get (levels b s) p = None \<Longrightarrow> g s p = []"
    "bt_get (levels b s) p = Some l \<Longrightarrow> g s p \<noteq> []"
    "bt_get (levels b s) p = Some l \<Longrightarrow> level_rep (b_arena b) l (g s p)"
    using lv by simp_all
qed

lemma book_rep_disjoint:
  assumes "book_rep b g fl" "i \<in> set (g s p)" "i \<in> set (g s' p')"
  shows "s' = s" "p' = p"
  using book_repD(6,7) [OF assms(1,2)] book_repD(6,7) [OF assms(1,3)] by auto

lemma book_rep_ids_inj:
  assumes "book_rep b g fl" "i \<in> slots g" "j \<in> slots g"
    and "o_id (ord (b_arena b) i) = o_id (ord (b_arena b) j)"
  shows "i = j"
  using book_repD(10) [OF assms(1), of "o_id (ord (b_arena b) i)"] assms(2-)
  by (metis option.inject)

lemma slotsI [intro]: "i \<in> set (g s p) \<Longrightarrow> i \<in> slots g"
  by (auto simp: slots_def)

lemma slots_upd:
  assumes "book_rep b g fl"
  shows "slots (g(s := (g s)(p := xs))) = (slots g - set (g s p)) \<union> set xs"
proof (intro set_eqI iffI)
  fix i
  assume "i \<in> slots (g(s := (g s)(p := xs)))"
  then show "i \<in> (slots g - set (g s p)) \<union> set xs"
    using book_rep_disjoint [OF assms] by (auto simp: slots_def split: if_splits)
next
  fix i
  assume "i \<in> (slots g - set (g s p)) \<union> set xs"
  then show "i \<in> slots (g(s := (g s)(p := xs)))"
    by (auto simp: slots_def)
qed

lemma book_rep_update:
  assumes rep: "book_rep b g fl"
    and g': "g' = g(s := (g s)(p := xs))"
    and arena: "arena_ok (b_arena b') fl' (slots g')"
    and frame: "\<And>i. i \<in> slots g - set (g s p) \<Longrightarrow> heap (b_arena b') i = heap (b_arena b) i"
    and lev_other: "\<And>s'. s' \<noteq> s \<Longrightarrow> levels b' s' = levels b s'"
    and lev_ok: "bt_ok (levels b' s)"
    and lev: "bt_get (levels b' s) = (bt_get (levels b s))(p := lv)"
    and lv: "case lv of None \<Rightarrow> xs = [] | Some l \<Rightarrow> xs \<noteq> [] \<and> level_rep (b_arena b') l xs"
    and tags: "\<And>i. i \<in> set xs \<Longrightarrow> o_side (ord (b_arena b') i) = s \<and>
        o_price (ord (b_arena b') i) = p \<and> o_quantity (ord (b_arena b') i) \<noteq> 0"
    and idx_ok: "hm_ok (b_order_index b')"
    and idx: "\<And>k i. hm_get (b_order_index b') k = Some i \<longleftrightarrow>
        i \<in> slots g' \<and> o_id (ord (b_arena b') i) = k"
    and best: "\<And>s. cached b' s = best_of s (levels b' s)"
  shows "book_rep b' g' fl'"
proof -
  have fr: "heap (b_arena b') i = heap (b_arena b) i"
    if "i \<in> set (g s' p')" "(s', p') \<noteq> (s, p)" for i s' p'
    using that book_rep_disjoint [OF rep] by (intro frame) auto
  have lvl: "case bt_get (levels b' s') p' of None \<Rightarrow> g' s' p' = []
      | Some l \<Rightarrow> g' s' p' \<noteq> [] \<and> level_rep (b_arena b') l (g' s' p')" for s' p'
  proof (cases "(s', p') = (s, p)")
    case True
    then show ?thesis using lv by (auto simp: g' lev split: option.split)
  next
    case False
    then have g: "g' s' p' = g s' p'" and gt: "bt_get (levels b' s') p' = bt_get (levels b s') p'"
      using lev_other [of s'] by (auto simp: g' lev) (cases "s' = s"; simp add: lev)
    have "level_rep (b_arena b') l (g s' p')" if "level_rep (b_arena b) l (g s' p')" for l
    proof -
      have "inb (b_arena b') i" if "i \<in> set (g s' p')" for i
        using that g by (intro arena_ok_inb(2) [OF arena]) (metis slotsI)
      then show ?thesis
        using that False fr level_ok_cong [of "g s' p'" "heap (b_arena b')" "heap (b_arena b)"]
        by (simp add: level_rep_def)
    qed
    then show ?thesis
      using book_repD(3-5) [OF rep, of s' p'] by (auto simp: g gt split: option.split)
  qed
  have tg: "o_side (ord (b_arena b') i) = s' \<and> o_price (ord (b_arena b') i) = p' \<and>
      o_quantity (ord (b_arena b') i) \<noteq> 0" if "i \<in> set (g' s' p')" for s' p' i
  proof (cases "(s', p') = (s, p)")
    case True
    then show ?thesis using that tags by (simp add: g')
  next
    case False
    then have i: "i \<in> set (g s' p')" using that by (auto simp: g' split: if_splits)
    then show ?thesis
      using book_repD(6-8) [OF rep i] fr [OF i False] by (simp add: ord_def)
  qed
  have "bt_ok (levels b' s')" for s'
    using lev_ok lev_other book_repD(2) [OF rep] by (cases "s' = s") simp_all
  then show ?thesis
    using arena lvl tg idx_ok idx best unfolding book_rep_def by blast
qed

section \<open>The operations on the representation\<close>

lemma ord_relinked: "relinked X a a' \<Longrightarrow> ord a' = ord a"
  by (simp add: relinked_def ord_def fun_eq_iff)

lemma book_rep_with_capacity:
  "book_rep (OrderBook_with_capacity c) (\<lambda>_ _. []) (map word_of_nat [0..<unat c])"
  using arena_ok_new [of c]
  by (auto simp: book_rep_def OrderBook_with_capacity_def levels_def slots_def cached_def
        best_of_def hm_ok_def hm_get_def bt_get_def bt_first_def bt_last_def split: Side.split)

lemma insert_order_duplicate:
  assumes "book_rep b g fl" "i \<in> slots g" "o_id (ord (b_arena b) i) = o_id order"
  shows "insert_order b order = Some (b, Inl (DuplicateOrderId (o_id order)))"
  using book_repD(10) [OF assms(1), of "o_id order" i] assms by (simp add: insert_order_def)

lemma book_rep_index_None:
  assumes "book_rep b g fl" "\<And>i. i \<in> slots g \<Longrightarrow> o_id (ord (b_arena b) i) \<noteq> k"
  shows "hm_get (b_order_index b) k = None"
  using assms(2) book_repD(10) [OF assms(1), of k]
  by (cases "hm_get (b_order_index b) k") auto

lemma insert_order_full:
  assumes "book_rep b g []" "\<And>i. i \<in> slots g \<Longrightarrow> o_id (ord (b_arena b) i) \<noteq> o_id order"
  shows "insert_order b order = Some (b, Inl ArenaFull)"
  using book_rep_index_None [OF assms] alloc_Full [OF book_repD(1) [OF assms(1)]]
  by (simp add: insert_order_def)

lemma insert_order_rep:
  assumes rep: "book_rep b g (i # fl)" and qty: "o_quantity order \<noteq> 0"
    and fresh: "\<And>j. j \<in> slots g \<Longrightarrow> o_id (ord (b_arena b) j) \<noteq> o_id order"
  defines "s \<equiv> o_side order" and "p \<equiv> o_price order"
  shows "\<exists>b'. insert_order b order = Some (b', Inr ()) \<and>
           book_rep b' (g(s := (g s)(p := g s p @ [i]))) fl \<and>
           ord (b_arena b') = (ord (b_arena b))(i := order)"
proof -
  let ?g = "g(s := (g s)(p := g s p @ [i]))"
  note ok = book_repD(1) [OF rep]
  have i: "i \<notin> slots g" "usable_slot (b_arena b) i"
    using ok arena_ok_inb [OF ok] by (auto simp: arena_ok_def usable_slot_def)
  have idx: "hm_get (b_order_index b) (o_id order) = None"
    using book_rep_index_None [OF rep] fresh by blast
  obtain a1 where a1: "alloc (b_arena b) order = Some (a1, Inr i)"
    "arena_ok a1 fl (insert i (slots g))" "heap a1 = (heap (b_arena b))(i := from_order order)"
    "inb a1 = inb (b_arena b)"
    using alloc_ok [OF ok] by blast
  define l where "l = (case bt_get (levels b s) p of None \<Rightarrow> PriceLevel_new | Some l \<Rightarrow> l)"
  have "level_rep (b_arena b) l (g s p)"
    using book_repD(3,5) [OF rep, of s p] il.rep_new by (auto simp: l_def split: option.split)
  moreover have "i \<notin> set (g s p)" using i by auto
  ultimately have "level_rep a1 l (g s p)"
    by (simp add: level_rep_def a1)
  then obtain a2 l2 where a2: "push_back a1 l i = Some (a2, l2)" "level_rep a2 l2 (g s p @ [i])"
    "relinked (insert i (set (g s p))) a1 a2"
    using il.push_rep [of a1 l "g s p" i] i \<open>i \<notin> set (g s p)\<close> by (auto simp: usable_slot_def a1)
  define b' where "b' = update_best_after_insert
     (set_levels b s (bt_insert p l2 (levels b s))
        \<lparr>b_arena := a2, b_order_index := hm_insert (o_id order) i (b_order_index b)\<rparr>) s p"
  have ord': "ord a2 = (ord (b_arena b))(i := order)"
    using ord_relinked [OF a2(3)] by (auto simp: ord_def a1 fun_eq_iff)
  have slots': "slots ?g = insert i (slots g)"
    unfolding slots_upd [OF rep] by (auto simp: slots_def)
  have "insert_order b order = Some (b', Inr ())"
    using idx a1(1) a2(1) by (simp add: insert_order_def b'_def l_def s_def p_def Let_def)
  moreover have "book_rep b' ?g fl"
  proof (rule book_rep_update [OF rep refl, where lv = "Some l2"])
    show "arena_ok (b_arena b') fl (slots ?g)"
      using relinked_arena_ok [OF a2(3) a1(2)] by (auto simp: b'_def slots')
    show "heap (b_arena b') j = heap (b_arena b) j" if "j \<in> slots g - set (g s p)" for j
      using that i relinked_frame [OF a2(3), of j] by (auto simp: b'_def a1)
    show "levels b' s' = levels b s'" if "s' \<noteq> s" for s'
      using that by (simp add: b'_def)
    show "bt_ok (levels b' s)"
      using book_repD(2) [OF rep] by (simp add: b'_def bt.ok_put)
    show "bt_get (levels b' s) = (bt_get (levels b s))(p := Some l2)"
      using book_repD(2) [OF rep] by (simp add: b'_def bt.get_put)
    show "case Some l2 of None \<Rightarrow> g s p @ [i] = []
        | Some l \<Rightarrow> g s p @ [i] \<noteq> [] \<and> level_rep (b_arena b') l (g s p @ [i])"
      using a2(2) by (simp add: b'_def)
    show "o_side (ord (b_arena b') j) = s \<and> o_price (ord (b_arena b') j) = p \<and>
        o_quantity (ord (b_arena b') j) \<noteq> 0" if "j \<in> set (g s p @ [i])" for j
      using that qty book_repD(6-8) [OF rep, of j s p] by (auto simp: b'_def ord' s_def p_def)
    show "hm_ok (b_order_index b')"
      using book_repD(9) [OF rep] by (simp add: b'_def hm.ok_put)
    show "hm_get (b_order_index b') k = Some j \<longleftrightarrow> j \<in> slots ?g \<and> o_id (ord (b_arena b') j) = k"
      for k j
      using book_repD(10) [OF rep] fresh i(1) hm.get_put [OF book_repD(9) [OF rep]]
      unfolding slots' by (auto simp: b'_def ord')
    show "cached b' s' = best_of s' (levels b' s')" for s'
      using cached_update_best [OF book_repD(2,11) [OF rep]] by (simp add: b'_def)
  qed
  ultimately show ?thesis using ord' by (auto simp: b'_def)
qed

lemma level_count_zero:
  assumes "arena_ok a fl used" "set xs \<subseteq> used" "level_rep a l xs"
  shows "l_count l = 0 \<longleftrightarrow> xs = []"
proof -
  have "length xs = card (set xs)"
    using il.rep_distinct [OF assms(3)] by (simp add: distinct_card)
  also have "\<dots> \<le> card used"
    using assms(2) arena_ok_card(1) [OF assms(1)] by (rule card_mono [rotated])
  also have "\<dots> \<le> unat (a_capacity a)"
    using arena_ok_card(2) [OF assms(1)] by simp
  finally have "unat (word_of_nat (length xs) :: u32) = length xs"
    using u32_bound [of "a_capacity a"] by (intro unat_word_of_nat) simp
  then show ?thesis
    using assms(3) by (auto simp: level_rep_def level_ok_def unat_eq_zero)
qed

lemma slots_obtain:
  assumes "book_rep b g fl" "i \<in> slots g"
  defines "o' \<equiv> ord (b_arena b) i"
  shows "i \<in> set (g (o_side o') (o_price o'))"
proof -
  obtain s p where "i \<in> set (g s p)" using assms(2) by (auto simp: slots_def)
  then show ?thesis
    using book_repD(6,7) [OF assms(1), of i s p] by (simp add: o'_def)
qed

lemma slots_remove:
  assumes "book_rep b g fl" "g s p = xs @ i # ys"
  shows "slots (g(s := (g s)(p := xs @ ys))) = slots g - {i}"
proof -
  have "bt_get (levels b s) p \<noteq> None"
    using assms(2) book_repD(3) [OF assms(1), of s p] by auto
  then have "distinct (g s p)"
    using book_repD(5) [OF assms(1), of s p] il.rep_distinct by auto
  then show ?thesis
    unfolding slots_upd [OF assms(1)] assms(2) using assms(2) by (auto intro: slotsI [of _ g s p])
qed

text \<open>
  The common end of \<open>cancel_order\<close> and of a fill that exhausts the front order: the slot has left
  its level and went back to the pool, the id has left the index.
\<close>

lemma book_rep_remove:
  assumes rep: "book_rep b g fl" and split: "g s p = xs @ i # ys"
    and a2: "arena_ok a2 (i # fl) (slots g - {i})"
      "\<And>j. j \<in> slots g - set (g s p) \<Longrightarrow> heap a2 j = heap (b_arena b) j"
      "\<And>j. j \<noteq> i \<Longrightarrow> ord a2 j = ord (b_arena b) j"
    and l1: "level_rep a2 l1 (xs @ ys)"
    and k: "o_id (ord (b_arena b) i) = k"
  defines "b1 \<equiv> (set_levels b s (bt_insert p l1 (levels b s)))
                   \<lparr>b_arena := a2, b_order_index := hm_remove k (b_order_index b)\<rparr>"
  shows "book_rep (if l_count l1 = 0 then drop_level b1 s p else b1)
           (g(s := (g s)(p := xs @ ys))) (i # fl)"
    (is "book_rep ?b ?g _")
proof -
  have old: "bt_get (levels b s) p \<noteq> None"
    using split book_repD(3) [OF rep, of s p] by auto
  then have "distinct (g s p)"
    using book_repD(5) [OF rep, of s p] il.rep_distinct by auto
  have slots': "slots ?g = slots g - {i}" by (rule slots_remove [OF rep split])
  have i: "i \<in> slots g" using split by (auto intro: slotsI [of i g s p])
  have "set (xs @ ys) \<subseteq> slots g - {i}"
    using split \<open>distinct (g s p)\<close> by (auto intro: slotsI [of _ g s p])
  then have zero: "l_count l1 = 0 \<longleftrightarrow> xs @ ys = []"
    by (rule level_count_zero [OF a2(1) _ l1])
  have lv: "bt_ok (levels b s)" "bt_ok (bt_insert p l1 (levels b s))"
    using book_repD(2) [OF rep] by (simp_all add: bt.ok_put)
  have arena: "b_arena ?b = a2" and index: "b_order_index ?b = hm_remove k (b_order_index b)"
    by (simp_all add: b1_def)
  show ?thesis
  proof (rule book_rep_update [OF rep refl, where lv = "if xs @ ys = [] then None else Some l1"])
    show "arena_ok (b_arena ?b) (i # fl) (slots ?g)"
      using a2(1) by (simp add: arena slots')
    show "heap (b_arena ?b) j = heap (b_arena b) j" if "j \<in> slots g - set (g s p)" for j
      using a2(2) [OF that] by (simp add: arena)
    show "levels ?b s' = levels b s'" if "s' \<noteq> s" for s'
      using that by (simp add: b1_def)
    show "bt_ok (levels ?b s)"
      using lv by (simp add: b1_def bt.ok_del)
    show "bt_get (levels ?b s) = (bt_get (levels b s))(p := if xs @ ys = [] then None else Some l1)"
      using lv zero by (simp add: b1_def bt.get_del bt.get_put)
    show "case if xs @ ys = [] then None else Some l1 of None \<Rightarrow> xs @ ys = []
        | Some l \<Rightarrow> xs @ ys \<noteq> [] \<and> level_rep (b_arena ?b) l (xs @ ys)"
      using l1 by (simp add: arena)
    show "o_side (ord (b_arena ?b) j) = s \<and> o_price (ord (b_arena ?b) j) = p \<and>
        o_quantity (ord (b_arena ?b) j) \<noteq> 0" if "j \<in> set (xs @ ys)" for j
    proof -
      have "j \<noteq> i" "j \<in> set (g s p)"
        using that split \<open>distinct (g s p)\<close> by auto
      then show ?thesis
        using book_repD(6-8) [OF rep, of j s p] a2(3) [of j] by (simp add: arena)
    qed
    show "hm_ok (b_order_index ?b)"
      using book_repD(9) [OF rep] by (simp add: index hm.ok_del)
    show "hm_get (b_order_index ?b) k' = Some j \<longleftrightarrow> j \<in> slots ?g \<and> o_id (ord (b_arena ?b) j) = k'"
      for k' j
    proof (cases "j = i")
      case True
      then show ?thesis
        using book_repD(10) [OF rep, of k' i] k
        by (simp add: slots' index hm.get_del [OF book_repD(9) [OF rep]])
    next
      case False
      then show ?thesis
        using book_repD(10) [OF rep, of k' j] a2(3) [of j] i k book_rep_ids_inj [OF rep i, of j]
        by (auto simp: slots' arena index hm.get_del [OF book_repD(9) [OF rep]])
    qed
    show "cached ?b s' = best_of s' (levels ?b s')" for s'
      using book_repD(11) [OF rep] lv(1) old best_of_insert_old by (auto simp: b1_def)
  qed
qed

lemma cancel_order_rep:
  assumes rep: "book_rep b g fl" and i: "i \<in> slots g" and k: "o_id (ord (b_arena b) i) = k"
  defines "o' \<equiv> ord (b_arena b) i"
  shows "\<exists>b' xs ys. g (o_side o') (o_price o') = xs @ i # ys \<and>
           book_cancel_order b k = Some (b', Inr o') \<and>
           book_rep b' (g(o_side o' := (g (o_side o'))(o_price o' := xs @ ys))) (i # fl) \<and>
           ord (b_arena b') = ord (b_arena b)"
proof -
  let ?s = "o_side o'" and ?p = "o_price o'"
  note ok = book_repD(1) [OF rep]
  obtain xs ys where split: "g ?s ?p = xs @ i # ys"
    using slots_obtain [OF rep i] by (auto simp: o'_def in_set_conv_decomp)
  then obtain l where l: "bt_get (levels b ?s) ?p = Some l" "level_rep (b_arena b) l (xs @ i # ys)"
    using book_repD(3,5) [OF rep, of ?s ?p] by (cases "bt_get (levels b ?s) ?p") auto
  then obtain a1 l1 where a1: "arena_remove (b_arena b) l i = Some (a1, l1)"
    "level_rep a1 l1 (xs @ ys)" "relinked (set (xs @ ys)) (b_arena b) a1"
    using il.unlink_rep by blast
  have "i \<notin> set (xs @ ys)" using il.rep_distinct [OF l(2)] by auto
  have "set (xs @ ys) \<subseteq> slots g"
    using split by (auto intro: slotsI [of _ g ?s ?p])
  then obtain a2 where a2: "dealloc a1 i = Some a2" "arena_ok a2 (i # fl) (slots g - {i})"
    "heap a2 = (heap a1)(i := (heap a1 i)\<lparr>n_next := a_free_head a1\<rparr>)" "inb a2 = inb a1"
    using dealloc_ok [OF relinked_arena_ok [OF a1(3) ok] i] by blast
  have ord': "ord a2 = ord (b_arena b)"
    using ord_relinked [OF a1(3)] by (auto simp: ord_def a2 fun_eq_iff)
  let ?b1 = "(set_levels b ?s (bt_insert ?p l1 (levels b ?s)))
               \<lparr>b_arena := a2, b_order_index := hm_remove k (b_order_index b)\<rparr>"
  let ?b = "if l_count l1 = 0 then drop_level ?b1 ?s ?p else ?b1"
  have "hm_get (b_order_index b) k = Some i"
    using book_repD(10) [OF rep] i k by blast
  moreover have "arena_get (b_arena b) i = Some (heap (b_arena b) i)"
    using arena_ok_inb(2) [OF ok i] by simp
  moreover have "(set_levels (b\<lparr>b_order_index := idx\<rparr>) s m)\<lparr>b_arena := a\<rparr> =
      (set_levels b s m)\<lparr>b_arena := a, b_order_index := idx\<rparr>" for idx s m a
    by (cases s) (simp_all add: set_levels_def)
  ultimately have "book_cancel_order b k = Some (?b, Inr o')"
    using l(1) a1(1) a2(1) by (simp add: book_cancel_order_def o'_def ord_def Let_def)
  moreover have "book_rep ?b (g(?s := (g ?s)(?p := xs @ ys))) (i # fl)"
  proof (rule book_rep_remove [OF rep split a2(2) _ _ _ k])
    show "heap a2 j = heap (b_arena b) j" if "j \<in> slots g - set (g ?s ?p)" for j
      using that relinked_frame [OF a1(3), of j] by (auto simp: split a2)
    show "ord a2 j = ord (b_arena b) j" for j by (simp add: ord')
    show "level_rep a2 l1 (xs @ ys)"
      using a1(2) \<open>i \<notin> set (xs @ ys)\<close> by (simp add: level_rep_def a2)
  qed
  moreover have "ord (b_arena ?b) = ord (b_arena b)" by (simp add: ord')
  ultimately show ?thesis using split by blast
qed

lemma book_rep_level:
  assumes "book_rep b g fl" "g s p = i # xs"
  shows "\<exists>l. bt_get (levels b s) p = Some l \<and> level_rep (b_arena b) l (i # xs) \<and> l_head l = i \<and>
    l_head l \<noteq> ARENA_NULL \<and> inb (b_arena b) i"
proof -
  obtain l where "bt_get (levels b s) p = Some l" "level_rep (b_arena b) l (i # xs)"
    using book_repD(3,5) [OF assms(1), of s p] assms(2) by (cases "bt_get (levels b s) p") auto
  then show ?thesis by (auto simp: level_rep_def level_ok_def)
qed

lemma peek_front_rep:
  assumes "book_rep b g fl" "g s p = i # xs"
  shows "peek_front b s p = Some (Some (heap (b_arena b) i))"
  using book_rep_level [OF assms] by (auto simp: peek_front_def)

lemma peek_front_None:
  assumes "book_rep b g fl" "g s p = []"
  shows "peek_front b s p = Some None"
  using book_repD(4) [OF assms(1), of s p] assms(2)
  by (cases "bt_get (levels b s) p") (auto simp: peek_front_def)

lemma reduce_not_found:
  assumes "book_rep b g fl" "g s p = []"
  shows "reduce_front_quantity b s p q = Some (b, Inl (PriceLevelNotFound p))"
  using book_repD(4) [OF assms(1), of s p] assms(2)
  by (cases "bt_get (levels b s) p") (auto simp: reduce_front_quantity_def)

lemma reduce_exceeds:
  assumes "book_rep b g fl" "g s p = i # xs" "o_quantity (ord (b_arena b) i) < q"
  shows "reduce_front_quantity b s p q =
           Some (b, Inl (FillExceedsQuantity (o_quantity (ord (b_arena b) i)) q))"
  using book_rep_level [OF assms(1,2)] assms(3)
  by (auto simp: reduce_front_quantity_def ord_def)

text \<open>Writing the remaining quantity into the front node keeps the level a level.\<close>

lemma level_rep_reduce:
  fixes q :: u64
  assumes "level_rep a l (i # xs)"
  defines "a1 \<equiv> upd_node a i (\<lambda>n. n\<lparr>n_quantity := n_quantity (heap a i) - q\<rparr>)"
  shows "level_rep a1 (l\<lparr>l_qty := l_qty l - q\<rparr>) (i # xs)"
    and "ord a1 = (ord a)(i := (ord a i)\<lparr>o_quantity := o_quantity (ord a i) - q\<rparr>)"
proof -
  have i: "inb a i" "i \<notin> set xs" using assms(1) by (auto simp: level_rep_def level_ok_def)
  then show "level_rep a1 (l\<lparr>l_qty := l_qty l - q\<rparr>) (i # xs)"
    using assms(1) by (simp add: level_rep_def level_ok_def a1_def)
  show "ord a1 = (ord a)(i := (ord a i)\<lparr>o_quantity := o_quantity (ord a i) - q\<rparr>)"
    using i by (auto simp: a1_def ord_def to_order_def fun_eq_iff)
qed

lemma arena_ok_payload:
  assumes "arena_ok a fl used" "i \<in> used" "\<And>n. n_next (f n) = n_next n"
  shows "arena_ok (upd_node a i f) fl used"
proof -
  have "inb a i" using arena_ok_inb(2) [OF assms(1,2)] .
  then have "next_path (heap (upd_node a i f)) fl ARENA_NULL = next_path (heap a) fl ARENA_NULL"
    by (intro next_path_cong) (simp add: assms(3))
  then show ?thesis using assms(1) by (simp add: arena_ok_def)
qed

lemma reduce_partial_rep:
  assumes rep: "book_rep b g fl" and gs: "g s p = i # xs"
    and q: "q < o_quantity (ord (b_arena b) i)"
  defines "r \<equiv> o_quantity (ord (b_arena b) i) - q"
  shows "\<exists>b'. reduce_front_quantity b s p q = Some (b', Inr r) \<and> book_rep b' g fl \<and>
           ord (b_arena b') =
             (ord (b_arena b))(i := (ord (b_arena b) i)\<lparr>o_quantity := r\<rparr>)"
proof -
  obtain l where l: "bt_get (levels b s) p = Some l" "level_rep (b_arena b) l (i # xs)" "l_head l = i"
    "l_head l \<noteq> ARENA_NULL" "inb (b_arena b) i"
    using book_rep_level [OF rep gs] by blast
  have i: "i \<in> slots g" "i \<in> set (g s p)" using gs by (auto intro: slotsI [of i g s p])
  define a1 where "a1 = upd_node (b_arena b) i (\<lambda>n. n\<lparr>n_quantity := n_quantity (heap (b_arena b) i) - q\<rparr>)"
  note a1 = level_rep_reduce [OF l(2), of q, folded a1_def]
  define b' where "b' = (set_levels b s (bt_insert p (l\<lparr>l_qty := l_qty l - q\<rparr>) (levels b s)))\<lparr>b_arena := a1\<rparr>"
  have r: "r \<noteq> 0" using q by (auto simp: r_def)
  have ok1: "arena_ok a1 fl (slots g)"
    unfolding a1_def using book_repD(1) [OF rep] i(1) by (rule arena_ok_payload) simp
  have "reduce_front_quantity b s p q = Some (b', Inr r)"
    using l q r by (auto simp: reduce_front_quantity_def b'_def a1_def r_def ord_def Let_def)
  moreover have "book_rep b' (g(s := (g s)(p := i # xs))) fl"
  proof (rule book_rep_update [OF rep refl, where lv = "Some (l\<lparr>l_qty := l_qty l - q\<rparr>)"])
    show "arena_ok (b_arena b') fl (slots (g(s := (g s)(p := i # xs))))"
      using ok1 gs by (simp add: b'_def fun_upd_idem)
    show "heap (b_arena b') j = heap (b_arena b) j" if "j \<in> slots g - set (g s p)" for j
      using that i l(5) by (auto simp: b'_def a1_def)
    show "o_side (ord (b_arena b') j) = s \<and> o_price (ord (b_arena b') j) = p \<and>
        o_quantity (ord (b_arena b') j) \<noteq> 0" if "j \<in> set (i # xs)" for j
      using that book_repD(6-8) [OF rep, of j s p] r gs by (auto simp: b'_def a1(2) r_def)
    show "hm_get (b_order_index b') k = Some j \<longleftrightarrow>
        j \<in> slots (g(s := (g s)(p := i # xs))) \<and> o_id (ord (b_arena b') j) = k" for k j
      using book_repD(10) [OF rep] gs by (simp add: b'_def a1(2) fun_upd_idem)
    show "cached b' s' = best_of s' (levels b' s')" for s'
      using book_repD(2,11) [OF rep] l(1) best_of_insert_old by (auto simp: b'_def)
  qed (use book_repD(2,9) [OF rep] a1(1) in \<open>simp_all add: b'_def bt.ok_put bt.get_put\<close>)
  ultimately show ?thesis
    using gs by (auto simp: b'_def a1(2) r_def fun_upd_idem)
qed

lemma reduce_full_rep:
  assumes rep: "book_rep b g fl" and gs: "g s p = i # xs"
  defines "q \<equiv> o_quantity (ord (b_arena b) i)"
  shows "\<exists>b'. reduce_front_quantity b s p q = Some (b', Inr 0) \<and>
           book_rep b' (g(s := (g s)(p := xs))) (i # fl) \<and>
           (\<forall>j. j \<noteq> i \<longrightarrow> ord (b_arena b') j = ord (b_arena b) j)"
proof -
  obtain l where l: "bt_get (levels b s) p = Some l" "level_rep (b_arena b) l (i # xs)" "l_head l = i"
    "l_head l \<noteq> ARENA_NULL" "inb (b_arena b) i"
    using book_rep_level [OF rep gs] by blast
  have i: "i \<in> slots g" "i \<notin> set xs"
    using gs il.rep_distinct [OF l(2)] by (auto intro: slotsI [of i g s p])
  have sub: "set xs \<subseteq> slots g" using gs by (auto intro: slotsI [of _ g s p])
  define a1 where "a1 = upd_node (b_arena b) i (\<lambda>n. n\<lparr>n_quantity := n_quantity (heap (b_arena b) i) - q\<rparr>)"
  define l0 where "l0 = l\<lparr>l_qty := l_qty l - q\<rparr>"
  note a1 = level_rep_reduce [OF l(2), of q, folded a1_def l0_def]
  have ok1: "arena_ok a1 fl (slots g)"
    unfolding a1_def using book_repD(1) [OF rep] i(1) by (rule arena_ok_payload) simp
  obtain a2 l1 where a2: "pop_front a1 l0 = Some (a2, l1, Some i)" "level_rep a2 l1 xs"
    "relinked (set xs) a1 a2"
    using il.pop_rep [OF a1(1)] by blast
  obtain a3 where a3: "dealloc a2 i = Some a3" "arena_ok a3 (i # fl) (slots g - {i})"
    "heap a3 = (heap a2)(i := (heap a2 i)\<lparr>n_next := a_free_head a2\<rparr>)" "inb a3 = inb a2"
    using dealloc_ok [OF relinked_arena_ok [OF a2(3) ok1 sub] i(1)] by blast
  let ?b1 = "(set_levels b s (bt_insert p l1 (levels b s)))\<lparr>b_arena := a3,
               b_order_index := hm_remove (o_id (ord (b_arena b) i)) (b_order_index b)\<rparr>"
  let ?b = "if l_count l1 = 0 then drop_level ?b1 s p else ?b1"
  have inb1: "inb a1 i" using l(5) by (simp add: a1_def)
  have "n_id (heap a1 i) = o_id (ord (b_arena b) i)"
    using l(5) by (simp add: a1_def ord_def)
  then have "reduce_front_quantity b s p q = Some (?b, Inr 0)"
    using l a2(1) a3(1) inb1
    by (simp add: reduce_front_quantity_def q_def ord_def a1_def l0_def Let_def)
  moreover have "book_rep ?b (g(s := (g s)(p := [] @ xs))) (i # fl)"
  proof (rule book_rep_remove [OF rep _ a3(2)])
    show "g s p = [] @ i # xs" by (simp add: gs)
    show "heap a3 j = heap (b_arena b) j" if "j \<in> slots g - set (g s p)" for j
      using that relinked_frame [OF a2(3), of j] l(5) gs by (auto simp: a3 a1_def)
    show "ord a3 j = ord (b_arena b) j" if "j \<noteq> i" for j
      using that ord_relinked [OF a2(3)] a1(2) by (simp add: ord_def a3 fun_eq_iff)
    show "level_rep a3 l1 ([] @ xs)"
      using a2(2) i(2) by (simp add: level_rep_def a3)
  qed simp
  moreover have "ord (b_arena ?b) j = ord (b_arena b) j" if "j \<noteq> i" for j
    using that ord_relinked [OF a2(3)] a1(2) by (simp add: ord_def a3 fun_eq_iff)
  ultimately show ?thesis by auto
qed

section \<open>The queues of the book\<close>

text \<open>
  \<open>depth b s p\<close>: the orders resting on side \<open>s\<close> at price \<open>p\<close>, oldest first, as the walk of
  \<open>all_resting_orders\<close> reads them.
\<close>

definition depth :: "OrderBook \<Rightarrow> Side \<Rightarrow> i64 \<Rightarrow> Order list" where
  "depth b s p =
     (case bt_get (levels b s) p of
        None \<Rightarrow> []
      | Some l \<Rightarrow> (case collect_level (b_arena b) (l_head l) [] of None \<Rightarrow> [] | Some os \<Rightarrow> os))"

definition depth_upd ::
  "(Side \<Rightarrow> i64 \<Rightarrow> Order list) \<Rightarrow> Side \<Rightarrow> i64 \<Rightarrow> (Order list \<Rightarrow> Order list) \<Rightarrow> Side \<Rightarrow> i64 \<Rightarrow> Order list"
  where "depth_upd D s p f = D(s := (D s)(p := f (D s p)))"

definition resting_ids :: "OrderBook \<Rightarrow> u64 set" where
  "resting_ids b = {o_id x | x s p. x \<in> set (depth b s p)}"

definition book_capacity :: "OrderBook \<Rightarrow> nat" where
  "book_capacity b = unat (a_capacity (b_arena b))"

lemma collect_level_path:
  "\<lbrakk>next_path (heap a) xs ARENA_NULL; \<forall>x\<in>set xs. inb a x; ARENA_NULL \<notin> set xs\<rbrakk> \<Longrightarrow>
   collect_level a (first_or ARENA_NULL xs) acc = Some (acc @ map (ord a) xs)"
proof (induction xs arbitrary: acc)
  case (Cons x xs)
  then show ?case
    by (auto simp: collect_level.simps [of a x] ord_def)
qed (simp add: collect_level.simps)

lemma collect_level_rep:
  "level_rep a l xs \<Longrightarrow> collect_level a (l_head l) acc = Some (acc @ map (ord a) xs)"
  by (simp add: level_rep_def level_ok_def collect_level_path)

lemma depth_rep: "book_rep b g fl \<Longrightarrow> depth b s p = map (ord (b_arena b)) (g s p)"
  using book_repD(3,5) [of b g fl s p]
  by (auto simp: depth_def collect_level_rep split: option.split)

lemma resting_ids_rep: "book_rep b g fl \<Longrightarrow> resting_ids b = (\<lambda>i. o_id (ord (b_arena b) i)) ` slots g"
  by (auto simp: resting_ids_def depth_rep slots_def)

lemma not_resting:
  assumes "book_rep b g fl" "k \<notin> resting_ids b" "i \<in> slots g"
  shows "o_id (ord (b_arena b) i) \<noteq> k"
  using assms(2,3) unfolding resting_ids_rep [OF assms(1)] by blast

lemma order_count_rep:
  assumes "book_rep b g fl"
  shows "order_count b = card (slots g)"
proof -
  have "dom (hm_get (b_order_index b)) = (\<lambda>i. o_id (ord (b_arena b) i)) ` slots g"
    using book_repD(10) [OF assms] by (auto simp: dom_def)
  moreover have "inj_on (\<lambda>i. o_id (ord (b_arena b) i)) (slots g)"
    using book_rep_ids_inj [OF assms] by (auto intro: inj_onI)
  ultimately show ?thesis
    using hm.len_card [OF book_repD(9) [OF assms]] by (simp add: order_count_def card_image)
qed

lemma book_capacity_rep:
  assumes "book_rep b g fl"
  shows "length fl + card (slots g) = book_capacity b"
  using arena_ok_card(2) [OF book_repD(1) [OF assms]] by (simp add: book_capacity_def)

lemma depth_rep_upd:
  assumes "book_rep b g fl" "book_rep b' (g(s := (g s)(p := ys))) fl'"
    and "\<And>i. i \<in> slots g - set (g s p) \<Longrightarrow> ord (b_arena b') i = ord (b_arena b) i"
    and "map (ord (b_arena b')) ys = f (map (ord (b_arena b)) (g s p))"
  shows "depth b' = depth_upd (depth b) s p f"
proof (intro ext)
  fix s' p'
  have "ord (b_arena b') i = ord (b_arena b) i" if "i \<in> set (g s' p')" "(s', p') \<noteq> (s, p)" for i
    using that book_rep_disjoint [OF assms(1)] by (intro assms(3)) auto
  then show "depth b' s' p' = depth_upd (depth b) s p f s' p'"
    using assms(4) by (auto simp: depth_rep [OF assms(1)] depth_rep [OF assms(2)] depth_upd_def)
qed

lemma book_ok_with_capacity:
  "book_ok (OrderBook_with_capacity c)" "depth (OrderBook_with_capacity c) s p = []"
  "order_count (OrderBook_with_capacity c) = 0"
  "book_capacity (OrderBook_with_capacity c) = unat c"
proof -
  note rep = book_rep_with_capacity [of c]
  show "book_ok (OrderBook_with_capacity c)" using rep by (auto simp: book_ok_def)
  show "depth (OrderBook_with_capacity c) s p = []" by (simp add: depth_rep [OF rep])
  show "order_count (OrderBook_with_capacity c) = 0"
    "book_capacity (OrderBook_with_capacity c) = unat c"
    by (simp_all add: order_count_def book_capacity_def OrderBook_with_capacity_def Arena_new_def)
qed

lemma depth_tags:
  assumes "book_ok b" "x \<in> set (depth b s p)"
  shows "o_side x = s" "o_price x = p" "o_quantity x \<noteq> 0"
  using assms book_repD(6-8) by (auto simp: book_ok_def depth_rep)

lemma depth_ids_unique:
  assumes "book_ok b" "x \<in> set (depth b s p)" "y \<in> set (depth b s' p')" "o_id x = o_id y"
  shows "x = y"
proof -
  obtain g fl where rep: "book_rep b g fl" using assms(1) by (auto simp: book_ok_def)
  then show ?thesis
    using assms(2-) book_rep_ids_inj [OF rep] by (force simp: depth_rep [OF rep] slots_def)
qed

lemma depth_distinct:
  assumes "book_ok b"
  shows "distinct (map o_id (depth b s p))"
proof -
  obtain g fl where rep: "book_rep b g fl" using assms(1) by (auto simp: book_ok_def)
  have "distinct (g s p)"
    using book_repD(3,5) [OF rep, of s p] il.rep_distinct
    by (cases "bt_get (levels b s) p") auto
  moreover have "inj_on (o_id \<circ> ord (b_arena b)) (set (g s p))"
    using book_rep_ids_inj [OF rep slotsI slotsI] by (force intro: inj_onI)
  ultimately show ?thesis
    by (simp add: depth_rep [OF rep] distinct_map)
qed

section \<open>What each operation does\<close>

lemma insert_order_errors:
  assumes "book_ok b"
  shows "o_id order \<in> resting_ids b \<Longrightarrow>
      insert_order b order = Some (b, Inl (DuplicateOrderId (o_id order)))"
    and "o_id order \<notin> resting_ids b \<Longrightarrow> order_count b = book_capacity b \<Longrightarrow>
      insert_order b order = Some (b, Inl ArenaFull)"
proof -
  obtain g fl where rep: "book_rep b g fl" using assms(1) by (auto simp: book_ok_def)
  show "o_id order \<in> resting_ids b \<Longrightarrow>
      insert_order b order = Some (b, Inl (DuplicateOrderId (o_id order)))"
    using insert_order_duplicate [OF rep] by (auto simp: resting_ids_rep [OF rep])
  assume "o_id order \<notin> resting_ids b" "order_count b = book_capacity b"
  moreover from this have "fl = []"
    using book_capacity_rep [OF rep] order_count_rep [OF rep] by simp
  ultimately show "insert_order b order = Some (b, Inl ArenaFull)"
    using rep not_resting [OF rep] by (intro insert_order_full [of b g]) auto
qed

lemma insert_order_depth:
  assumes "book_ok b" "o_quantity order \<noteq> 0" "o_id order \<notin> resting_ids b"
    and "order_count b < book_capacity b"
  shows "\<exists>b'. insert_order b order = Some (b', Inr ()) \<and> book_ok b' \<and>
           depth b' = depth_upd (depth b) (o_side order) (o_price order) (\<lambda>q. q @ [order]) \<and>
           book_capacity b' = book_capacity b \<and> order_count b' = Suc (order_count b)"
proof -
  obtain g fl0 where rep0: "book_rep b g fl0" using assms(1) by (auto simp: book_ok_def)
  then obtain i fl where fl0: "fl0 = i # fl"
    using assms(4) book_capacity_rep [OF rep0] order_count_rep [OF rep0] by (cases fl0) auto
  note rep = rep0 [unfolded fl0]
  let ?s = "o_side order" and ?p = "o_price order"
  obtain b' where b': "insert_order b order = Some (b', Inr ())"
    "book_rep b' (g(?s := (g ?s)(?p := g ?s ?p @ [i]))) fl"
    "ord (b_arena b') = (ord (b_arena b))(i := order)"
    using insert_order_rep [OF rep assms(2)] not_resting [OF rep assms(3)] by blast
  have i: "i \<notin> slots g" using book_repD(1) [OF rep] by (auto simp: arena_ok_def)
  then have "i \<notin> set (g ?s ?p)" by auto
  then have "depth b' = depth_upd (depth b) ?s ?p (\<lambda>q. q @ [order])"
    using i by (intro depth_rep_upd [OF rep b'(2)]) (auto simp: b'(3))
  moreover have "slots (g(?s := (g ?s)(?p := g ?s ?p @ [i]))) = insert i (slots g)"
    unfolding slots_upd [OF rep] by (auto simp: slots_def)
  then have "card (slots (g(?s := (g ?s)(?p := g ?s ?p @ [i])))) = Suc (card (slots g))"
    using i arena_ok_card(1) [OF book_repD(1) [OF rep]] by simp
  ultimately show ?thesis
    using b' book_capacity_rep [OF rep] book_capacity_rep [OF b'(2)]
      order_count_rep [OF rep] order_count_rep [OF b'(2)] by (auto simp: book_ok_def)
qed

lemma cancel_order_not_found:
  assumes "book_ok b" "k \<notin> resting_ids b"
  shows "book_cancel_order b k = Some (b, Inl (OrderNotFound k))"
proof -
  obtain g fl where rep: "book_rep b g fl" using assms(1) by (auto simp: book_ok_def)
  show ?thesis
    using book_rep_index_None [OF rep not_resting [OF rep assms(2)]]
    by (simp add: book_cancel_order_def)
qed

lemma cancel_order_depth:
  assumes "book_ok b" "x \<in> set (depth b s p)"
  shows "\<exists>b'. book_cancel_order b (o_id x) = Some (b', Inr x) \<and> book_ok b' \<and>
           depth b' = depth_upd (depth b) s p (filter (\<lambda>y. o_id y \<noteq> o_id x)) \<and>
           book_capacity b' = book_capacity b \<and> Suc (order_count b') = order_count b"
proof -
  obtain g fl where rep: "book_rep b g fl" using assms(1) by (auto simp: book_ok_def)
  obtain i where i: "i \<in> set (g s p)" "x = ord (b_arena b) i"
    using assms(2) by (auto simp: depth_rep [OF rep])
  have sp: "o_side x = s" "o_price x = p" by (rule depth_tags [OF assms])+
  obtain b' xs ys where b': "g s p = xs @ i # ys"
    "book_cancel_order b (o_id x) = Some (b', Inr x)"
    "book_rep b' (g(s := (g s)(p := xs @ ys))) (i # fl)" "ord (b_arena b') = ord (b_arena b)"
    using cancel_order_rep [OF rep slotsI [of i g s p]] i sp by auto
  have "distinct (map o_id (depth b s p))" by (rule depth_distinct [OF assms(1)])
  then have "filter (\<lambda>y. o_id y \<noteq> o_id x) (depth b s p) = map (ord (b_arena b)) (xs @ ys)"
    using filter_distinct_mid [of o_id "map (ord (b_arena b)) xs" x "map (ord (b_arena b)) ys"] i
    by (simp add: depth_rep [OF rep] b'(1))
  then have "depth b' = depth_upd (depth b) s p (filter (\<lambda>y. o_id y \<noteq> o_id x))"
    by (intro depth_rep_upd [OF rep b'(3)]) (simp_all add: b'(4) depth_rep [OF rep])
  moreover have "i \<in> slots g" using i(1) by auto
  then have "Suc (card (slots (g(s := (g s)(p := xs @ ys))))) = card (slots g)"
    unfolding slots_remove [OF rep b'(1)] using arena_ok_card(1) [OF book_repD(1) [OF rep]]
    by (metis card.remove)
  ultimately show ?thesis
    using b' book_capacity_rep [OF rep] book_capacity_rep [OF b'(3)]
      order_count_rep [OF rep] order_count_rep [OF b'(3)] by (auto simp: book_ok_def)
qed

text \<open>A fill takes quantity from the front order of a queue and removes it when nothing is left.\<close>

fun reduce_head :: "u64 \<Rightarrow> Order list \<Rightarrow> Order list" where
  "reduce_head q [] = []"
| "reduce_head q (x # xs) =
     (if o_quantity x = q then xs else x\<lparr>o_quantity := o_quantity x - q\<rparr> # xs)"

lemma peek_front_depth:
  assumes "book_ok b"
  shows "\<exists>r. peek_front b s p = Some r \<and>
    map_option to_order r = (case depth b s p of [] \<Rightarrow> None | x # xs \<Rightarrow> Some x)"
proof -
  obtain g fl where rep: "book_rep b g fl" using assms(1) by (auto simp: book_ok_def)
  show ?thesis
    using peek_front_rep [OF rep, of s p] peek_front_None [OF rep, of s p]
    by (cases "g s p") (auto simp: depth_rep [OF rep] ord_def)
qed

lemma reduce_front_errors:
  assumes "book_ok b"
  shows "depth b s p = [] \<Longrightarrow>
      reduce_front_quantity b s p q = Some (b, Inl (PriceLevelNotFound p))"
    and "depth b s p = x # xs \<Longrightarrow> o_quantity x < q \<Longrightarrow>
      reduce_front_quantity b s p q = Some (b, Inl (FillExceedsQuantity (o_quantity x) q))"
proof -
  obtain g fl where rep: "book_rep b g fl" using assms(1) by (auto simp: book_ok_def)
  show "depth b s p = [] \<Longrightarrow>
      reduce_front_quantity b s p q = Some (b, Inl (PriceLevelNotFound p))"
    using reduce_not_found [OF rep] by (simp add: depth_rep [OF rep])
  show "depth b s p = x # xs \<Longrightarrow> o_quantity x < q \<Longrightarrow>
      reduce_front_quantity b s p q = Some (b, Inl (FillExceedsQuantity (o_quantity x) q))"
    using reduce_exceeds [OF rep] by (auto simp: depth_rep [OF rep])
qed

lemma reduce_front_depth:
  assumes "book_ok b" "depth b s p = x # xs" "q \<le> o_quantity x"
  shows "\<exists>b'. reduce_front_quantity b s p q = Some (b', Inr (o_quantity x - q)) \<and> book_ok b' \<and>
           depth b' = depth_upd (depth b) s p (reduce_head q) \<and> book_capacity b' = book_capacity b"
proof -
  obtain g fl where rep: "book_rep b g fl" using assms(1) by (auto simp: book_ok_def)
  obtain i js where g: "g s p = i # js" "x = ord (b_arena b) i" "xs = map (ord (b_arena b)) js"
    using assms(2) by (auto simp: depth_rep [OF rep])
  have "distinct (map o_id (depth b s p))" by (rule depth_distinct [OF assms(1)])
  then have i: "i \<notin> set js" by (auto simp: depth_rep [OF rep] g(1))
  have "\<exists>b' ys fl'. reduce_front_quantity b s p q = Some (b', Inr (o_quantity x - q)) \<and>
      book_rep b' (g(s := (g s)(p := ys))) fl' \<and>
      (\<forall>j. j \<noteq> i \<longrightarrow> ord (b_arena b') j = ord (b_arena b) j) \<and>
      map (ord (b_arena b')) ys = reduce_head q (map (ord (b_arena b)) (g s p)) \<and>
      book_capacity b' = book_capacity b"
  proof (cases "q = o_quantity x")
    case True
    obtain b' where b': "reduce_front_quantity b s p q = Some (b', Inr 0)"
      "book_rep b' (g(s := (g s)(p := js))) (i # fl)"
      "\<forall>j. j \<noteq> i \<longrightarrow> ord (b_arena b') j = ord (b_arena b) j"
      using reduce_full_rep [OF rep g(1)] True g(2) by blast
    have "i \<in> slots g" using g(1) by (auto intro: slotsI [of i g s p])
    then have "Suc (card (slots (g(s := (g s)(p := js))))) = card (slots g)"
      using slots_remove [OF rep, of s p "[]" i js] g(1)
        card.remove [OF arena_ok_card(1) [OF book_repD(1) [OF rep]]] by simp
    then have "book_capacity b' = book_capacity b"
      using book_capacity_rep [OF rep] book_capacity_rep [OF b'(2)] by simp
    moreover have "map (ord (b_arena b')) js = map (ord (b_arena b)) js"
      using b'(3) i by auto
    ultimately show ?thesis using b' True g by auto
  next
    case False
    then have "q < o_quantity (ord (b_arena b) i)" using assms(3) g(2) by simp
    from reduce_partial_rep [OF rep g(1) this] obtain b' where
      b': "reduce_front_quantity b s p q = Some (b', Inr (o_quantity x - q))" "book_rep b' g fl"
        "ord (b_arena b') = (ord (b_arena b))(i := x\<lparr>o_quantity := o_quantity x - q\<rparr>)"
      unfolding g(2) by blast
    have "book_capacity b' = book_capacity b"
      using book_capacity_rep [OF rep] book_capacity_rep [OF b'(2)] by simp
    moreover have "map (ord (b_arena b')) (g s p) = reduce_head q (map (ord (b_arena b)) (g s p))"
      using i False g by (simp add: b'(3))
    moreover have "book_rep b' (g(s := (g s)(p := g s p))) fl" using b'(2) by simp
    moreover have "\<forall>j. j \<noteq> i \<longrightarrow> ord (b_arena b') j = ord (b_arena b) j" by (simp add: b'(3))
    ultimately show ?thesis using b'(1) by blast
  qed
  then obtain b' ys fl' where b':
    "reduce_front_quantity b s p q = Some (b', Inr (o_quantity x - q))"
    "book_rep b' (g(s := (g s)(p := ys))) fl'"
    "\<And>j. j \<noteq> i \<Longrightarrow> ord (b_arena b') j = ord (b_arena b) j"
    "map (ord (b_arena b')) ys = reduce_head q (map (ord (b_arena b)) (g s p))"
    "book_capacity b' = book_capacity b" by blast
  moreover have "depth b' = depth_upd (depth b) s p (reduce_head q)"
    using b'(3,4) g(1) by (intro depth_rep_upd [OF rep b'(2)]) auto
  ultimately show ?thesis by (auto simp: book_ok_def)
qed

text \<open>
  The number of entries of the index, the number of slots in use, and the number of resting ids
  are one number: the \<open>debug_assert_eq\<close> at the end of every mutating operation.
\<close>

lemma order_count_ids:
  assumes "book_ok b"
  shows "order_count b = card (resting_ids b)" "finite (resting_ids b)"
    "unat (a_count (b_arena b)) = order_count b" "order_count b \<le> book_capacity b"
proof -
  obtain g fl where rep: "book_rep b g fl" using assms(1) by (auto simp: book_ok_def)
  note ok = book_repD(1) [OF rep]
  have "inj_on (\<lambda>i. o_id (ord (b_arena b) i)) (slots g)"
    using book_rep_ids_inj [OF rep] by (auto intro: inj_onI)
  then show "order_count b = card (resting_ids b)" "finite (resting_ids b)"
    using order_count_rep [OF rep] resting_ids_rep [OF rep] arena_ok_card(1) [OF ok]
    by (simp_all add: card_image)
  show "unat (a_count (b_arena b)) = order_count b" "order_count b \<le> book_capacity b"
    using order_count_rep [OF rep] book_capacity_rep [OF rep] arena_ok_count [OF ok] by auto
qed

end
