(* ===== verification/Priority.thy ===== *)
theory Priority
  imports Book
begin

text \<open>
  The price-time priority view of the book: each side is one list of resting orders, best price
  first and oldest first within a price, the order in which \<open>all_resting_orders\<close> walks the book
  and in which the matching engine consumes it. The book operations are restated on these lists
  and packed as the contract \<open>order_book\<close>, which is all the matching engine relies on.
\<close>

section \<open>Lists sorted by priority\<close>

definition prio_key :: "Side \<Rightarrow> i64 \<Rightarrow> int" where
  "prio_key s p = (case s of Ask \<Rightarrow> sint (i64_bits p) | Bid \<Rightarrow> - sint (i64_bits p))"

definition prio_sorted :: "Side \<Rightarrow> Order list \<Rightarrow> bool" where
  "prio_sorted s xs = sorted (map (\<lambda>x. prio_key s (o_price x)) xs)"

text \<open>Where a new order goes: behind all orders at its price or a better one.\<close>

fun enqueue :: "Order \<Rightarrow> Order list \<Rightarrow> Order list" where
  "enqueue x [] = [x]"
| "enqueue x (y # ys) =
     (if prio_key (o_side x) (o_price y) \<le> prio_key (o_side x) (o_price x)
      then y # enqueue x ys else x # y # ys)"

lemma prio_key_inj [simp]: "prio_key s p = prio_key s p' \<longleftrightarrow> p = p'"
  by (cases s; cases p; cases p') (auto simp: prio_key_def intro: signed_word_eqI)

lemma prio_key_le [simp]:
  "prio_key Ask p \<le> prio_key Ask p' \<longleftrightarrow> p \<le> p'" "prio_key Bid p \<le> prio_key Bid p' \<longleftrightarrow> p' \<le> p"
  by (cases p; cases p'; simp add: prio_key_def)+

lemma sorted_key_unique:
  assumes "sorted (map f xs)" "sorted (map f ys)"
    and "\<And>k. filter (\<lambda>x. f x = k) xs = filter (\<lambda>x. f x = k) ys"
  shows "xs = ys"
proof -
  have "count (mset xs) x = count (mset ys) x" for x
  proof -
    have "count (mset zs) x = count (mset (filter (\<lambda>y. f y = f x) zs)) x" for zs
      by (induction zs) auto
    then show ?thesis using assms(3) [of "f x"] by metis
  qed
  then have "mset xs = mset ys" by (simp add: multiset_eq_iff)
  moreover have "filter (\<lambda>x. f k = f x) xs = filter (\<lambda>x. f k = f x) ys" for k
    using assms(3) [of "f k"] by (simp add: eq_commute)
  ultimately have "sort_key f ys = xs" "sort_key f ys = ys"
    using assms(1,2) by (auto intro!: properties_for_sort_key)
  then show ?thesis by simp
qed

lemma prio_sorted_unique:
  assumes "prio_sorted s xs" "prio_sorted s ys"
    and "\<And>p. filter (\<lambda>x. o_price x = p) xs = filter (\<lambda>x. o_price x = p) ys"
  shows "xs = ys"
proof (rule sorted_key_unique [where f = "\<lambda>x. prio_key s (o_price x)"])
  show "filter (\<lambda>x. prio_key s (o_price x) = k) xs = filter (\<lambda>x. prio_key s (o_price x) = k) ys" for k
  proof (cases "\<exists>p. prio_key s p = k")
    case True
    then obtain p where "k = prio_key s p" by blast
    then show ?thesis using assms(3) [of p] by simp
  next
    case False
    then have "filter (\<lambda>x. prio_key s (o_price x) = k) zs = []" for zs :: "Order list"
      by (induction zs) auto
    then show ?thesis by metis
  qed
qed (use assms(1,2) in \<open>simp_all add: prio_sorted_def\<close>)

lemma prio_sorted_Cons:
  "prio_sorted s (x # xs) \<longleftrightarrow>
     (\<forall>y\<in>set xs. prio_key s (o_price x) \<le> prio_key s (o_price y)) \<and> prio_sorted s xs"
  by (simp add: prio_sorted_def)

lemma prio_sorted_filter: "prio_sorted s xs \<Longrightarrow> prio_sorted s (filter P xs)"
  by (simp add: prio_sorted_def sorted_filter)

lemma set_enqueue [simp]: "set (enqueue x xs) = insert x (set xs)"
  by (induction xs) auto

lemma length_enqueue [simp]: "length (enqueue x xs) = Suc (length xs)"
  by (induction xs) auto

lemma prio_sorted_enqueue: "prio_sorted (o_side x) xs \<Longrightarrow> prio_sorted (o_side x) (enqueue x xs)"
  by (induction xs) (auto simp: prio_sorted_Cons)

lemma filter_enqueue_at:
  "prio_sorted (o_side x) xs \<Longrightarrow>
   filter (\<lambda>y. o_price y = o_price x) (enqueue x xs) = filter (\<lambda>y. o_price y = o_price x) xs @ [x]"
proof (induction xs)
  case (Cons y ys)
  have "filter (\<lambda>z. o_price z = o_price x) (y # ys) = []"
    if "\<not> prio_key (o_side x) (o_price y) \<le> prio_key (o_side x) (o_price x)"
    using that Cons.prems by (force simp: prio_sorted_Cons filter_empty_conv)
  then show ?case using Cons by (auto simp: prio_sorted_Cons)
qed simp

lemma filter_enqueue_other:
  "p \<noteq> o_price x \<Longrightarrow> filter (\<lambda>y. o_price y = p) (enqueue x xs) = filter (\<lambda>y. o_price y = p) xs"
  by (induction xs) auto

section \<open>The two sides of the book as lists\<close>

definition best_first :: "OrderBook \<Rightarrow> Side \<Rightarrow> i64 list" where
  "best_first b s = (case s of Ask \<Rightarrow> map fst (b_asks b) | Bid \<Rightarrow> rev (map fst (b_bids b)))"

definition side_orders :: "OrderBook \<Rightarrow> Side \<Rightarrow> Order list" where
  "side_orders b s = concat (map (depth b s) (best_first b s))"

text \<open>The two facts about the levels that the lists below need.\<close>

lemma book_ok_levels:
  assumes "book_ok b"
  shows "bt_ok (levels b s)" "p \<in> fst ` set (levels b s) \<longleftrightarrow> depth b s p \<noteq> []"
    "cached b s = best_of s (levels b s)"
proof -
  obtain g fl where rep: "book_rep b g fl" using assms by (auto simp: book_ok_def)
  show "bt_ok (levels b s)" "cached b s = best_of s (levels b s)"
    using book_repD(2,11) [OF rep] by auto
  show "p \<in> fst ` set (levels b s) \<longleftrightarrow> depth b s p \<noteq> []"
    using book_repD(3,4) [OF rep, of s p]
    by (cases "bt_get (levels b s) p") (auto simp: depth_rep [OF rep] simp flip: dom_bt_get)
qed

lemma best_first_levels:
  "best_first b s = (case s of Ask \<Rightarrow> map fst (levels b s) | Bid \<Rightarrow> rev (map fst (levels b s)))"
  by (cases s) (simp_all add: best_first_def)

lemma set_best_first:
  "book_ok b \<Longrightarrow> p \<in> set (best_first b s) \<longleftrightarrow> depth b s p \<noteq> []"
  using book_ok_levels(2) [of b p s] by (cases s) (simp_all add: best_first_levels)

lemma distinct_best_first: "book_ok b \<Longrightarrow> distinct (best_first b s)"
  using bt_ok_distinct [OF book_ok_levels(1) [of b s]] by (cases s) (simp_all add: best_first_levels)

lemma best_first_sorted:
  assumes "book_ok b"
  shows "sorted_wrt (\<lambda>p p'. prio_key s p < prio_key s p') (best_first b s)"
proof -
  have "sorted_wrt (<) (map fst (levels b s))"
    using book_ok_levels(1) [OF assms, of s] by (simp add: bt_ok_def)
  moreover have "prio_key Ask p < prio_key Ask p' \<longleftrightarrow> p < p'"
    "prio_key Bid p < prio_key Bid p' \<longleftrightarrow> p' < p" for p p'
    by (simp_all add: not_le [symmetric])
  ultimately show ?thesis
    by (cases s) (simp_all add: best_first_levels sorted_wrt_rev)
qed

lemma filter_concat_depth:
  assumes "book_ok b" "distinct ps"
  shows "filter (\<lambda>x. o_price x = p) (concat (map (depth b s) ps)) =
    (if p \<in> set ps then depth b s p else [])"
  using assms(2)
proof (induction ps)
  case (Cons q ps)
  have "filter (\<lambda>x. o_price x = p) (depth b s q) = (if q = p then depth b s q else [])"
    using depth_tags(2) [OF assms(1), of _ s q] by (auto intro!: filter_True filter_False)
  then show ?case using Cons by auto
qed simp

text \<open>The orders at a price are the level's queue, and a list with these queues is unique.\<close>

lemma filter_side_orders:
  "book_ok b \<Longrightarrow> filter (\<lambda>x. o_price x = p) (side_orders b s) = depth b s p"
  using set_best_first [of b p s]
  by (auto simp: side_orders_def filter_concat_depth distinct_best_first)

lemma prio_sorted_side_orders:
  assumes "book_ok b"
  shows "prio_sorted s (side_orders b s)"
proof -
  have "prio_sorted s (concat (map (depth b s) ps))"
    if "sorted_wrt (\<lambda>p p'. prio_key s p < prio_key s p') ps" for ps
    using that
  proof (induction ps)
    case (Cons p ps)
    have same: "map (\<lambda>x. prio_key s (o_price x)) (depth b s p) =
        replicate (length (depth b s p)) (prio_key s p)"
      using depth_tags(2) [OF assms, of _ s p] by (auto intro!: nth_equalityI)
    show ?case
      using Cons depth_tags(2) [OF assms]
      by (force simp: prio_sorted_def sorted_append same intro: less_imp_le)
  qed (simp add: prio_sorted_def)
  then show ?thesis
    using best_first_sorted [OF assms] by (simp add: side_orders_def)
qed

lemma side_orders_eqI:
  assumes "book_ok b" "prio_sorted s xs" "\<And>p. filter (\<lambda>x. o_price x = p) xs = depth b s p"
  shows "side_orders b s = xs"
  using prio_sorted_unique [OF prio_sorted_side_orders [OF assms(1)] assms(2)]
  by (simp add: filter_side_orders [OF assms(1)] assms(3))

lemma set_side_orders:
  assumes "book_ok b"
  shows "x \<in> set (side_orders b s) \<longleftrightarrow> x \<in> set (depth b s (o_price x))"
  by (simp flip: filter_side_orders [OF assms])

lemma side_orders_tags:
  assumes "book_ok b" "x \<in> set (side_orders b s)"
  shows "o_side x = s" "o_quantity x \<noteq> 0"
  using assms depth_tags [of b x s "o_price x"] by (simp_all add: set_side_orders)

lemma resting_ids_side_orders:
  assumes "book_ok b"
  shows "resting_ids b = o_id ` (set (side_orders b Ask) \<union> set (side_orders b Bid))"
proof -
  have "x \<in> set (depth b s p) \<longleftrightarrow> x \<in> set (side_orders b s) \<and> o_price x = p" for x s p
    by (simp flip: filter_side_orders [OF assms])
  then have "resting_ids b = {o_id x | x s. x \<in> set (side_orders b s)}"
    by (auto simp: resting_ids_def)
  moreover have "(\<exists>s. P s) \<longleftrightarrow> P Ask \<or> P Bid" for P
    by (metis Side.exhaust)
  ultimately show ?thesis by auto
qed

lemma distinct_concat_keys:
  assumes "\<And>k. distinct (filter (\<lambda>x. f x = k) xs)"
  shows "distinct xs"
  using assms
proof (induction xs)
  case (Cons x xs)
  then have "distinct (filter (\<lambda>y. f y = k) xs)" for k
    by (metis distinct.simps(2) filter.simps(2))
  then show ?case using Cons.IH Cons.prems [of "f x"] by simp
qed simp

lemma distinct_side_orders:
  assumes "book_ok b"
  shows "distinct (map o_id (side_orders b Ask @ side_orders b Bid))"
proof -
  have "distinct (filter (\<lambda>x. o_price x = p) (side_orders b s))" for s p
    using depth_distinct [OF assms] by (simp add: filter_side_orders [OF assms] distinct_map)
  then have d: "distinct (side_orders b s)" for s
    by (rule distinct_concat_keys)
  have u: "x = y" if "x \<in> set (side_orders b s)" "y \<in> set (side_orders b s')" "o_id x = o_id y"
    for x y s s'
    using that depth_ids_unique [OF assms] by (auto simp: set_side_orders [OF assms])
  have "set (side_orders b Ask) \<inter> set (side_orders b Bid) = {}"
    by (auto dest!: side_orders_tags(1) [OF assms])
  moreover have "o_id ` set (side_orders b Ask) \<inter> o_id ` set (side_orders b Bid) = {}"
    using u calculation by blast
  ultimately show ?thesis
    using d u by (auto simp: distinct_map inj_on_def)
qed

lemma order_count_side_orders:
  assumes "book_ok b"
  shows "order_count b = length (side_orders b Ask) + length (side_orders b Bid)"
  using distinct_card [OF distinct_side_orders [OF assms]]
  by (simp add: order_count_ids(1) [OF assms] resting_ids_side_orders [OF assms] image_Un)

lemma side_orders_cong: "book_ok b \<Longrightarrow> book_ok b' \<Longrightarrow> depth b' s = depth b s \<Longrightarrow>
    side_orders b' s = side_orders b s"
  by (rule side_orders_eqI) (simp_all add: prio_sorted_side_orders filter_side_orders)

lemma cached_side_orders:
  assumes "book_ok b"
  shows "cached b s = (case side_orders b s of [] \<Rightarrow> None | x # xs \<Rightarrow> Some (o_price x))"
proof -
  have c: "cached b s = (case best_first b s of [] \<Rightarrow> None | p # ps \<Rightarrow> Some p)"
  proof (cases s)
    case Ask
    then show ?thesis
      by (cases "levels b s")
        (simp_all add: book_ok_levels(3) [OF assms] best_of_def best_first_levels bt_first_def)
  next
    case Bid
    then show ?thesis
      by (cases "levels b s" rule: rev_cases)
        (simp_all add: book_ok_levels(3) [OF assms] best_of_def best_first_levels bt_last_def)
  qed
  show ?thesis
  proof (cases "best_first b s")
    case (Cons p ps)
    then have "depth b s p \<noteq> []" using set_best_first [OF assms, of p s] by simp
    then obtain x xs where "depth b s p = x # xs" by (cases "depth b s p") auto
    then show ?thesis
      using Cons c depth_tags(2) [OF assms, of x s p] by (simp add: side_orders_def)
  qed (simp add: c side_orders_def)
qed

lemma depth_of_front:
  assumes "book_ok b" "side_orders b s = x # xs"
  shows "depth b s (o_price x) = x # filter (\<lambda>y. o_price y = o_price x) xs"
  using filter_side_orders [OF assms(1), of "o_price x" s] assms(2) by simp

section \<open>The operations on the lists\<close>

lemma side_orders_insert:
  assumes "book_ok b" "book_ok b'"
    and "depth b' = depth_upd (depth b) (o_side x) (o_price x) (\<lambda>q. q @ [x])"
  shows "side_orders b' = (side_orders b)(o_side x := enqueue x (side_orders b (o_side x)))"
proof (intro ext)
  fix s
  show "side_orders b' s = ((side_orders b)(o_side x := enqueue x (side_orders b (o_side x)))) s"
  proof (cases "s = o_side x")
    case True
    have "filter (\<lambda>y. o_price y = p) (enqueue x (side_orders b s)) = depth b' s p" for p
      using filter_enqueue_at [of x "side_orders b s"] prio_sorted_side_orders [OF assms(1)]
      by (cases "p = o_price x")
        (simp_all add: True filter_enqueue_other filter_side_orders [OF assms(1)] assms(3) depth_upd_def)
    then show ?thesis
      using prio_sorted_enqueue prio_sorted_side_orders [OF assms(1)] True
      by (simp add: side_orders_eqI [OF assms(2)])
  qed (auto intro!: side_orders_cong assms simp: assms(3) depth_upd_def)
qed

lemma side_orders_cancel:
  assumes "book_ok b" "book_ok b'" "x \<in> set (side_orders b s)"
    and "depth b' = depth_upd (depth b) s (o_price x) (filter (\<lambda>y. o_id y \<noteq> o_id x))"
  shows "side_orders b' = (side_orders b)(s := filter (\<lambda>y. o_id y \<noteq> o_id x) (side_orders b s))"
proof (intro ext)
  fix s'
  show "side_orders b' s' = ((side_orders b)(s := filter (\<lambda>y. o_id y \<noteq> o_id x) (side_orders b s))) s'"
  proof (cases "s' = s")
    case True
    have "filter (\<lambda>y. o_price y = p) (filter (\<lambda>y. o_id y \<noteq> o_id x) (side_orders b s)) =
        filter (\<lambda>y. o_id y \<noteq> o_id x) (depth b s p)" for p
      by (simp flip: filter_side_orders [OF assms(1)] add: conj_commute)
    moreover have "filter (\<lambda>y. o_id y \<noteq> o_id x) (depth b s p) = depth b s p" if "p \<noteq> o_price x" for p
      using that assms(3) depth_ids_unique [OF assms(1)] depth_tags(2) [OF assms(1)]
      by (intro filter_True) (metis set_side_orders [OF assms(1)])
    ultimately have "filter (\<lambda>y. o_price y = p) (filter (\<lambda>y. o_id y \<noteq> o_id x) (side_orders b s)) =
        depth b' s p" for p
      by (auto simp: assms(4) depth_upd_def)
    then show ?thesis
      using prio_sorted_side_orders [OF assms(1)] True
      by (simp add: side_orders_eqI [OF assms(2)] prio_sorted_filter del: filter_filter)
  qed (auto intro!: side_orders_cong assms simp: assms(4) depth_upd_def)
qed

lemma side_orders_reduce:
  assumes "book_ok b" "book_ok b'" "side_orders b s = x # xs"
    and "depth b' = depth_upd (depth b) s (o_price x) (reduce_head q)"
  shows "side_orders b' = (side_orders b)(s := reduce_head q (side_orders b s))"
proof (intro ext)
  fix s'
  show "side_orders b' s' = ((side_orders b)(s := reduce_head q (side_orders b s))) s'"
  proof (cases "s' = s")
    case True
    have "filter (\<lambda>y. o_price y = p) (reduce_head q (x # xs)) = depth b' s p" for p
      using filter_side_orders [OF assms(1), of p s] assms(3)
      by (auto simp: assms(4) depth_upd_def depth_of_front [OF assms(1,3)])
    moreover have "prio_sorted s (reduce_head q (x # xs))"
      using prio_sorted_side_orders [OF assms(1), of s] assms(3) by (auto simp: prio_sorted_Cons)
    ultimately show ?thesis
      using True by (simp add: side_orders_eqI [OF assms(2)] assms(3) del: reduce_head.simps)
  qed (auto intro!: side_orders_cong assms simp: assms(4) depth_upd_def)
qed

lemma all_resting_orders_eq:
  assumes "book_ok b"
  shows "all_resting_orders b = Some (side_orders b Ask @ side_orders b Bid)"
proof -
  obtain g fl where rep: "book_rep b g fl" using assms by (auto simp: book_ok_def)
  have "collect_levels (b_arena b) (map snd es) acc =
      Some (acc @ concat (map (depth b s) (map fst es)))" if "set es \<subseteq> set (levels b s)" for es s acc
    using that
  proof (induction es arbitrary: acc)
    case (Cons e es)
    have "distinct (map fst (levels b s))"
      using bt_ok_distinct [OF book_ok_levels(1) [OF assms]] .
    then have "bt_get (levels b s) (fst e) = Some (snd e)"
      using Cons.prems by (auto simp: bt_get_def intro: map_of_is_SomeI)
    then have "collect_level (b_arena b) (l_head (snd e)) acc = Some (acc @ depth b s (fst e))" for acc
      using book_repD(5) [OF rep] by (simp add: collect_level_rep depth_rep [OF rep])
    then show ?case using Cons by simp
  qed simp
  from this [of "b_asks b" Ask] this [of "rev (b_bids b)" Bid] show ?thesis
    by (simp add: all_resting_orders_def side_orders_def best_first_def rev_map)
qed

section \<open>The contract of an order book\<close>

text \<open>
  What the matching engine may rely on. \<open>queue b s\<close> is side \<open>s\<close> in priority order; \<open>best\<close>, \<open>peek\<close>,
  \<open>reduce\<close>, \<open>add\<close> and \<open>cancel\<close> are the calls it makes.
\<close>

locale order_book =
  fixes ok :: "'b \<Rightarrow> bool"
    and queue :: "'b \<Rightarrow> Side \<Rightarrow> Order list"
    and capacity :: "'b \<Rightarrow> nat"
    and best :: "'b \<Rightarrow> Side \<Rightarrow> i64 option"
    and peek :: "'b \<Rightarrow> Side \<Rightarrow> i64 \<Rightarrow> OrderNode option option"
    and reduce :: "'b \<Rightarrow> Side \<Rightarrow> i64 \<Rightarrow> u64 \<Rightarrow> ('b \<times> (BookError + u64)) option"
    and add :: "'b \<Rightarrow> Order \<Rightarrow> ('b \<times> (BookError + unit)) option"
    and cancel :: "'b \<Rightarrow> u64 \<Rightarrow> ('b \<times> (BookError + Order)) option"
  assumes queue_sorted: "ok b \<Longrightarrow> prio_sorted s (queue b s)"
    and queue_tags: "ok b \<Longrightarrow> x \<in> set (queue b s) \<Longrightarrow> o_side x = s \<and> o_quantity x \<noteq> 0"
    and queue_ids: "ok b \<Longrightarrow> distinct (map o_id (queue b Ask @ queue b Bid))"
    and queue_bound: "ok b \<Longrightarrow> length (queue b Ask) + length (queue b Bid) \<le> capacity b"
    and best_front: "ok b \<Longrightarrow>
        best b s = (case queue b s of [] \<Rightarrow> None | x # xs \<Rightarrow> Some (o_price x))"
    and peek_front: "ok b \<Longrightarrow> queue b s = x # xs \<Longrightarrow>
        \<exists>n. peek b s (o_price x) = Some (Some n) \<and> to_order n = x"
    and reduce_front: "ok b \<Longrightarrow> queue b s = x # xs \<Longrightarrow> q \<le> o_quantity x \<Longrightarrow>
        \<exists>b'. reduce b s (o_price x) q = Some (b', Inr (o_quantity x - q)) \<and> ok b' \<and>
          queue b' = (queue b)(s := reduce_head q (queue b s)) \<and> capacity b' = capacity b"
    and add_duplicate: "ok b \<Longrightarrow> o_id x \<in> o_id ` (set (queue b Ask) \<union> set (queue b Bid)) \<Longrightarrow>
        add b x = Some (b, Inl (DuplicateOrderId (o_id x)))"
    and add_full: "ok b \<Longrightarrow> o_id x \<notin> o_id ` (set (queue b Ask) \<union> set (queue b Bid)) \<Longrightarrow>
        length (queue b Ask) + length (queue b Bid) = capacity b \<Longrightarrow> add b x = Some (b, Inl ArenaFull)"
    and add_queue: "ok b \<Longrightarrow> o_id x \<notin> o_id ` (set (queue b Ask) \<union> set (queue b Bid)) \<Longrightarrow>
        length (queue b Ask) + length (queue b Bid) < capacity b \<Longrightarrow> o_quantity x \<noteq> 0 \<Longrightarrow>
        \<exists>b'. add b x = Some (b', Inr ()) \<and> ok b' \<and> capacity b' = capacity b \<and>
          queue b' = (queue b)(o_side x := enqueue x (queue b (o_side x)))"
    and cancel_absent: "ok b \<Longrightarrow> k \<notin> o_id ` (set (queue b Ask) \<union> set (queue b Bid)) \<Longrightarrow>
        cancel b k = Some (b, Inl (OrderNotFound k))"
    and cancel_present: "ok b \<Longrightarrow> x \<in> set (queue b s) \<Longrightarrow>
        \<exists>b'. cancel b (o_id x) = Some (b', Inr x) \<and> ok b' \<and> capacity b' = capacity b \<and>
          queue b' = (queue b)(s := filter (\<lambda>y. o_id y \<noteq> o_id x) (queue b s))"
begin

text \<open>The orders of both sides, and the ids in use.\<close>

definition orders :: "'b \<Rightarrow> Order set" where
  "orders b = set (queue b Ask) \<union> set (queue b Bid)"

lemma queue_orders: "set (queue b s) \<subseteq> orders b"
  by (cases s) (auto simp: orders_def)

text \<open>One round of the matching loop against a non-empty side cannot fail.\<close>

lemma fill_front:
  fixes q :: u64
  assumes "ok b" "queue b s = x # xs"
  defines "f \<equiv> min q (o_quantity x)"
  shows "\<exists>n b'. best b s = Some (o_price x) \<and> peek b s (o_price x) = Some (Some n) \<and> to_order n = x \<and>
    reduce b s (o_price x) f = Some (b', Inr (o_quantity x - f)) \<and> ok b' \<and>
    queue b' = (queue b)(s := reduce_head f (x # xs)) \<and> capacity b' = capacity b"
proof -
  have "f \<le> o_quantity x" by (simp add: f_def)
  then show ?thesis
    using best_front [OF assms(1), of s] peek_front [OF assms(1,2)] reduce_front [OF assms(1,2)]
      assms(2) by fastforce
qed

lemma best_empty: "ok b \<Longrightarrow> best b s = None \<longleftrightarrow> queue b s = []"
  by (simp add: best_front split: list.split)

text \<open>Inserting a valid order always returns, and fails only by a duplicate id or a full arena.\<close>

lemma add_total:
  assumes "ok b" "o_quantity x \<noteq> 0"
  obtains (dup) "o_id x \<in> o_id ` orders b" "add b x = Some (b, Inl (DuplicateOrderId (o_id x)))"
  | (full) "o_id x \<notin> o_id ` orders b" "length (queue b Ask) + length (queue b Bid) = capacity b"
      "add b x = Some (b, Inl ArenaFull)"
  | (added) b' where "o_id x \<notin> o_id ` orders b"
      "length (queue b Ask) + length (queue b Bid) < capacity b"
      "add b x = Some (b', Inr ())" "ok b'" "capacity b' = capacity b"
      "queue b' = (queue b)(o_side x := enqueue x (queue b (o_side x)))"
  using add_duplicate [OF assms(1), of x] add_full [OF assms(1), of x]
    add_queue [OF assms(1) _ _ assms(2)] queue_bound [OF assms(1)]
  unfolding orders_def by (metis le_neq_implies_less)

lemma cancel_total:
  assumes "ok b"
  obtains (absent) "k \<notin> o_id ` orders b" "cancel b k = Some (b, Inl (OrderNotFound k))"
  | (present) x b' where "x \<in> set (queue b (o_side x))" "o_id x = k" "cancel b k = Some (b', Inr x)"
      "ok b'" "capacity b' = capacity b"
      "queue b' = (queue b)(o_side x := filter (\<lambda>y. o_id y \<noteq> k) (queue b (o_side x)))"
proof (cases "k \<in> o_id ` orders b")
  case True
  then obtain x s where "x \<in> set (queue b s)" "o_id x = k" by (auto simp: orders_def)
  then show ?thesis
    using present cancel_present [OF assms] queue_tags [OF assms] by metis
next
  case False
  then show ?thesis using absent cancel_absent [OF assms] by (simp add: orders_def)
qed

lemma cancel_enqueued: "o_id x \<notin> o_id ` set xs \<Longrightarrow> filter (\<lambda>y. o_id y \<noteq> o_id x) (enqueue x xs) = xs"
proof (induction xs)
  case (Cons y ys)
  then have "filter (\<lambda>z. o_id z \<noteq> o_id x) ys = ys"
    by (intro filter_True) (auto simp: image_iff)
  then show ?case using Cons by auto
qed simp

text \<open>Cancelling an order that was just accepted returns it and restores the book.\<close>

lemma add_cancel:
  assumes "ok b" "o_quantity x \<noteq> 0" "add b x = Some (b1, Inr ())"
  shows "\<exists>b2. cancel b1 (o_id x) = Some (b2, Inr x) \<and> ok b2 \<and> queue b2 = queue b \<and>
    capacity b2 = capacity b"
  using assms(1,2)
proof (cases rule: add_total)
  case (added b')
  then have b1: "b' = b1" using assms(3) by simp
  have "x \<in> set (queue b1 (o_side x))" using added b1 by simp
  from cancel_present [OF _ this] added b1 obtain b2 where
    "cancel b1 (o_id x) = Some (b2, Inr x)" "ok b2" "capacity b2 = capacity b"
    "queue b2 = (queue b1)(o_side x := filter (\<lambda>y. o_id y \<noteq> o_id x) (queue b1 (o_side x)))"
    by metis
  moreover have "o_id x \<notin> o_id ` set (queue b (o_side x))"
    using added(1) queue_orders [of b "o_side x"] by blast
  ultimately show ?thesis
    using added(6) b1 by (auto simp: cancel_enqueued)
qed (use assms(3) in simp_all)

end

interpretation ob: order_book book_ok side_orders book_capacity cached peek_front
  reduce_front_quantity insert_order book_cancel_order
proof unfold_locales
  fix b :: OrderBook and s x xs q k
  assume ok: "book_ok b"
  note ids = resting_ids_side_orders [OF ok, symmetric] and cnt = order_count_side_orders [OF ok, symmetric]
  show "prio_sorted s (side_orders b s)" by (rule prio_sorted_side_orders [OF ok])
  show "x \<in> set (side_orders b s) \<Longrightarrow> o_side x = s \<and> o_quantity x \<noteq> 0"
    using side_orders_tags [OF ok] by blast
  show "distinct (map o_id (side_orders b Ask @ side_orders b Bid))"
    by (rule distinct_side_orders [OF ok])
  show "length (side_orders b Ask) + length (side_orders b Bid) \<le> book_capacity b"
    unfolding cnt by (rule order_count_ids(4) [OF ok])
  show "cached b s = (case side_orders b s of [] \<Rightarrow> None | x # xs \<Rightarrow> Some (o_price x))"
    by (rule cached_side_orders [OF ok])
  show "side_orders b s = x # xs \<Longrightarrow> \<exists>n. Book.peek_front b s (o_price x) = Some (Some n) \<and> to_order n = x"
    using peek_front_depth [OF ok, of s "o_price x"] depth_of_front [OF ok] by fastforce
  show "side_orders b s = x # xs \<Longrightarrow> q \<le> o_quantity x \<Longrightarrow>
      \<exists>b'. reduce_front_quantity b s (o_price x) q = Some (b', Inr (o_quantity x - q)) \<and> book_ok b' \<and>
        side_orders b' = (side_orders b)(s := reduce_head q (side_orders b s)) \<and>
        book_capacity b' = book_capacity b"
    using reduce_front_depth [OF ok depth_of_front [OF ok]] side_orders_reduce [OF ok] by metis
  show "o_id x \<in> o_id ` (set (side_orders b Ask) \<union> set (side_orders b Bid)) \<Longrightarrow>
      insert_order b x = Some (b, Inl (DuplicateOrderId (o_id x)))"
    unfolding ids by (rule insert_order_errors(1) [OF ok])
  show "o_id x \<notin> o_id ` (set (side_orders b Ask) \<union> set (side_orders b Bid)) \<Longrightarrow>
      length (side_orders b Ask) + length (side_orders b Bid) = book_capacity b \<Longrightarrow>
      insert_order b x = Some (b, Inl ArenaFull)"
    unfolding ids cnt by (rule insert_order_errors(2) [OF ok])
  show "o_id x \<notin> o_id ` (set (side_orders b Ask) \<union> set (side_orders b Bid)) \<Longrightarrow>
      length (side_orders b Ask) + length (side_orders b Bid) < book_capacity b \<Longrightarrow>
      o_quantity x \<noteq> 0 \<Longrightarrow>
      \<exists>b'. insert_order b x = Some (b', Inr ()) \<and> book_ok b' \<and> book_capacity b' = book_capacity b \<and>
        side_orders b' = (side_orders b)(o_side x := enqueue x (side_orders b (o_side x)))"
    unfolding ids cnt using insert_order_depth [OF ok] side_orders_insert [OF ok] by metis
  show "k \<notin> o_id ` (set (side_orders b Ask) \<union> set (side_orders b Bid)) \<Longrightarrow>
      book_cancel_order b k = Some (b, Inl (OrderNotFound k))"
    unfolding ids by (rule cancel_order_not_found [OF ok])
  show "x \<in> set (side_orders b s) \<Longrightarrow>
      \<exists>b'. book_cancel_order b (o_id x) = Some (b', Inr x) \<and> book_ok b' \<and>
        book_capacity b' = book_capacity b \<and>
        side_orders b' = (side_orders b)(s := filter (\<lambda>y. o_id y \<noteq> o_id x) (side_orders b s))"
    using cancel_order_depth [OF ok] side_orders_cancel [OF ok] by (metis set_side_orders [OF ok])
qed

section \<open>Properties of the book\<close>

definition ex_book_order :: "u64 \<Rightarrow> Side \<Rightarrow> u64 \<Rightarrow> u64 \<Rightarrow> Order" where
  "ex_book_order i s p q =
     \<lparr>o_id = i, o_trader_id = 0, o_side = s, o_price = I64 p, o_quantity = q, o_timestamp = 0\<rparr>"

text \<open>
  \<open>insert_order\<close> on a well-formed book. It returns; a resting id is refused, then a full arena;
  otherwise the order takes its place behind every order at its price or a better one, and nothing
  else moves.
\<close>

theorem insert_order_correct:
  assumes "book_ok b" "o_quantity order \<noteq> 0"
  shows "if o_id order \<in> resting_ids b
    then insert_order b order = Some (b, Inl (DuplicateOrderId (o_id order)))
    else if order_count b = book_capacity b then insert_order b order = Some (b, Inl ArenaFull)
    else \<exists>b'. insert_order b order = Some (b', Inr ()) \<and> book_ok b' \<and>
      side_orders b' = (side_orders b)(o_side order := enqueue order (side_orders b (o_side order)))"
  using assms
  by (cases rule: ob.add_total)
    (auto simp: ob.orders_def resting_ids_side_orders [OF assms(1)]
      order_count_side_orders [OF assms(1)])

theorem insert_order_correct_witness:
  "\<exists>b'. insert_order (OrderBook_with_capacity 2) (ex_book_order 1 Bid 100 5) = Some (b', Inr ()) \<and>
     book_ok b' \<and> side_orders b' Bid = [ex_book_order 1 Bid 100 5]"
proof -
  let ?b = "OrderBook_with_capacity 2" and ?x = "ex_book_order 1 Bid 100 5"
  have "resting_ids ?b = {}" "side_orders ?b Bid = []"
    by (simp_all add: resting_ids_def book_ok_with_capacity side_orders_def)
  moreover have "order_count ?b \<noteq> book_capacity ?b" by (simp add: book_ok_with_capacity)
  moreover have "o_quantity ?x \<noteq> 0" "o_side ?x = Bid" by (simp_all add: ex_book_order_def)
  ultimately show ?thesis
    using insert_order_correct [OF book_ok_with_capacity(1), of ?x 2] by auto
qed

text \<open>
  Cancelling an order that \<open>insert_order\<close> just accepted returns exactly that order and restores
  both sides of the book.
\<close>

theorem insert_cancel_roundtrip:
  assumes "book_ok b" "o_quantity order \<noteq> 0" "insert_order b order = Some (b1, Inr ())"
  shows "\<exists>b2. book_cancel_order b1 (o_id order) = Some (b2, Inr order) \<and> book_ok b2 \<and>
    side_orders b2 = side_orders b"
  using ob.add_cancel [OF assms] by blast

theorem insert_cancel_roundtrip_witness:
  "\<exists>b1 b2. insert_order (OrderBook_with_capacity 2) (ex_book_order 1 Bid 100 5) = Some (b1, Inr ()) \<and>
     book_cancel_order b1 1 = Some (b2, Inr (ex_book_order 1 Bid 100 5)) \<and>
     side_orders b2 = side_orders (OrderBook_with_capacity 2)"
proof -
  let ?b = "OrderBook_with_capacity 2" and ?x = "ex_book_order 1 Bid 100 5"
  have "case insert_order ?b ?x of Some (b1, Inr _) \<Rightarrow> True | _ \<Rightarrow> False" by code_simp
  then obtain b1 where b1: "insert_order ?b ?x = Some (b1, Inr ())"
    by (auto split: option.splits prod.splits sum.splits)
  have "o_quantity ?x \<noteq> 0" "o_id ?x = 1" by (simp_all add: ex_book_order_def)
  then show ?thesis
    using insert_cancel_roundtrip [OF book_ok_with_capacity(1) _ b1] b1 by auto
qed

text \<open>
  \<open>reduce_front_quantity\<close> on a well-formed book returns on every branch: no orders at the price,
  more than the front order has, exactly what it has (the order leaves its level, the index and the
  arena, and an emptied level leaves the book), or less (only its quantity changes).
\<close>

theorem reduce_front_correct:
  assumes "book_ok b"
  shows "case depth b s p of
      [] \<Rightarrow> reduce_front_quantity b s p q = Some (b, Inl (PriceLevelNotFound p))
    | x # xs \<Rightarrow>
        if o_quantity x < q
        then reduce_front_quantity b s p q = Some (b, Inl (FillExceedsQuantity (o_quantity x) q))
        else \<exists>b'. reduce_front_quantity b s p q = Some (b', Inr (o_quantity x - q)) \<and> book_ok b' \<and>
          depth b' s p = (if q = o_quantity x then xs else x\<lparr>o_quantity := o_quantity x - q\<rparr> # xs) \<and>
          (\<forall>s' p'. (s', p') \<noteq> (s, p) \<longrightarrow> depth b' s' p' = depth b s' p')"
proof (cases "depth b s p")
  case Nil
  then show ?thesis using reduce_front_errors(1) [OF assms] by simp
next
  case (Cons x xs)
  show ?thesis
  proof (cases "o_quantity x < q")
    case True
    then show ?thesis using reduce_front_errors(2) [OF assms Cons] Cons by simp
  next
    case False
    then show ?thesis
      using reduce_front_depth [OF assms Cons, of q] Cons by (fastforce simp: depth_upd_def not_less)
  qed
qed

theorem reduce_front_correct_witness:
  "\<exists>b. book_ok b \<and> depth b Bid (I64 100) = [ex_book_order 1 Bid 100 5] \<and>
     reduce_front_quantity b Bid (I64 100) 6 = Some (b, Inl (FillExceedsQuantity 5 6))"
proof -
  let ?b = "OrderBook_with_capacity 2" and ?x = "ex_book_order 1 Bid 100 5"
  have x: "o_quantity ?x = 5" "o_id ?x = 1" "o_side ?x = Bid" "o_price ?x = I64 100"
    by (simp_all add: ex_book_order_def)
  have "?x \<noteq> ?x \<or> 1 \<notin> resting_ids ?b" "order_count ?b < book_capacity ?b"
    by (simp_all add: resting_ids_def book_ok_with_capacity)
  then obtain b where b: "book_ok b" "depth b Bid (I64 100) = [?x]"
    using insert_order_depth [OF book_ok_with_capacity(1), of ?x 2]
    by (auto simp: x depth_upd_def book_ok_with_capacity)
  from reduce_front_correct [OF b(1), of Bid "I64 100" 6] b show ?thesis by (auto simp: x)
qed

text \<open>
  C15: Well-formedness of the book (free list, linked levels, index, cached prices and tags in agreement) is kept by
  every operation on every branch, and on a well-formed book no operation panics.
\<close>

theorem book_operations_well_formed:
  assumes "book_ok b"
  shows "(o_quantity order \<noteq> 0 \<longrightarrow> (\<exists>b' r. insert_order b order = Some (b', r) \<and> book_ok b')) \<and>
    (\<exists>b' r. book_cancel_order b k = Some (b', r) \<and> book_ok b') \<and>
    (\<exists>b' r. reduce_front_quantity b s p q = Some (b', r) \<and> book_ok b') \<and>
    (\<exists>r. peek_front b s p = Some r) \<and> (\<exists>xs. all_resting_orders b = Some xs)"
proof (intro conjI impI)
  show "\<exists>b' r. insert_order b order = Some (b', r) \<and> book_ok b'" if "o_quantity order \<noteq> 0"
    using assms by (cases rule: ob.add_total [OF assms that]) auto
  show "\<exists>b' r. book_cancel_order b k = Some (b', r) \<and> book_ok b'"
    using assms by (cases rule: ob.cancel_total [OF assms, of k]) auto
  show "\<exists>b' r. reduce_front_quantity b s p q = Some (b', r) \<and> book_ok b'"
  proof (cases "depth b s p")
    case (Cons x xs)
    then show ?thesis
      using assms reduce_front_errors(2) [OF assms Cons] reduce_front_depth [OF assms Cons, of q]
      by (cases "o_quantity x < q") (auto simp: not_less)
  qed (use assms reduce_front_errors(1) [OF assms] in blast)
  show "\<exists>r. peek_front b s p = Some r" using peek_front_depth [OF assms] by blast
  show "\<exists>xs. all_resting_orders b = Some xs" using all_resting_orders_eq [OF assms] by blast
qed

theorem book_operations_well_formed_witness:
  "\<exists>b' r. insert_order (OrderBook_with_capacity 2) (ex_book_order 1 Bid 100 5) = Some (b', r) \<and> book_ok b'"
  using book_operations_well_formed [OF book_ok_with_capacity(1), of "ex_book_order 1 Bid 100 5" 2]
  by (simp add: ex_book_order_def)

end
