(* ===== verification/Matching.thy ===== *)
theory Matching
  imports Priority
begin

text \<open>
  \<open>src/matching.rs\<close>: the matching engine. \<open>add_order\<close> matches an incoming order against the other
  side of the book, best price first and oldest first, and rests what is left.

  \<open>match_list\<close> is the specification, a structural recursion over the priority list of the other
  side; the loop over the arena book is shown to compute it, to return, and to keep the book well
  formed. The economic properties (conservation of quantity, price limits, priority, no self
  trades, no crossed book) are proved of the specification and carried over.
\<close>

section \<open>The code\<close>

record Fill =
  f_taker_order_id :: u64
  f_maker_order_id :: u64
  f_price :: i64
  f_quantity :: u64
  f_maker_fully_filled :: bool

datatype OrderStatus = FullyFilled | PartiallyFilled | Resting | CancelledSelfTrade

record AddOrderResult =
  r_order_id :: u64
  r_status :: OrderStatus
  r_fills :: "Fill list"

datatype MatchingError = Book BookError | ZeroQuantity

record MatchingEngine =
  e_book :: OrderBook
  e_fills_buf :: "Fill list"

definition MatchingEngine_with_capacity :: "u32 \<Rightarrow> MatchingEngine" where
  "MatchingEngine_with_capacity arena_capacity =
     \<lparr>e_book = OrderBook_with_capacity arena_capacity, e_fills_buf = []\<rparr>"

definition MatchingEngine_new :: MatchingEngine where
  "MatchingEngine_new = \<lparr>e_book = OrderBook_new, e_fills_buf = []\<rparr>"

text \<open>
  The two \<open>while\<close> loops of \<open>add_order\<close> differ in the side they match against and in this test: the
  best price of the other side, when the order's limit reaches it.
\<close>

definition crossing_price :: "OrderBook \<Rightarrow> Order \<Rightarrow> i64 option" where
  "crossing_price b order =
     (case o_side order of
        Bid \<Rightarrow> (case best_ask b of Some p \<Rightarrow> if p \<le> o_price order then Some p else None | None \<Rightarrow> None)
      | Ask \<Rightarrow> (case best_bid b of Some p \<Rightarrow> if p \<ge> o_price order then Some p else None | None \<Rightarrow> None))"

text \<open>
  The loop: the book and the fills so far, with either the error of \<open>reduce_front_quantity\<close> (the
  \<open>?\<close> in the body) or the remaining order and the \<open>self_trade\<close> flag.
\<close>

partial_function (option) match_loop ::
  "OrderBook \<Rightarrow> Fill list \<Rightarrow> Order \<Rightarrow> (OrderBook \<times> Fill list \<times> (BookError + Order \<times> bool)) option"
  where
  "match_loop b fills order =
     (if o_quantity order > 0 then
        case crossing_price b order of
          None \<Rightarrow> Some (b, fills, Inr (order, False))
        | Some best \<Rightarrow> do {
            front \<leftarrow> peek_front b (opposite (o_side order)) best;
            case front of
              None \<Rightarrow> Some (b, fills, Inr (order, False))
            | Some maker \<Rightarrow>
                if n_trader_id maker = o_trader_id order
                then Some (b, fills, Inr (order, True))
                else do {
                  let fill_qty = min (o_quantity order) (n_quantity maker);
                  (b, r) \<leftarrow> reduce_front_quantity b (opposite (o_side order)) best fill_qty;
                  case r of
                    Inl e \<Rightarrow> Some (b, fills, Inl e)
                  | Inr maker_remaining \<Rightarrow>
                      match_loop b
                        (fills @ [\<lparr>f_taker_order_id = o_id order, f_maker_order_id = n_id maker,
                                   f_price = n_price maker, f_quantity = fill_qty,
                                   f_maker_fully_filled = (maker_remaining = 0)\<rparr>])
                        (order\<lparr>o_quantity := o_quantity order - fill_qty\<rparr>)
                }
          }
      else Some (b, fills, Inr (order, False)))"

declare match_loop.simps [code]

definition add_order ::
  "MatchingEngine \<Rightarrow> Order \<Rightarrow> (MatchingEngine \<times> (MatchingError + AddOrderResult)) option" where
  "add_order e order =
     (if o_quantity order = 0 then Some (e, Inl ZeroQuantity)
      else do {
        (b, fills, r) \<leftarrow> match_loop (e_book e) [] order;
        case r of
          Inl err \<Rightarrow> Some (\<lparr>e_book = b, e_fills_buf = fills\<rparr>, Inl (Book err))
        | Inr (order', self_trade) \<Rightarrow> do {
            (b, s) \<leftarrow>
              (if self_trade then Some (b, Inr CancelledSelfTrade)
               else if o_quantity order' = 0 then Some (b, Inr FullyFilled)
               else do {
                 (b, s) \<leftarrow> insert_order b order';
                 case s of
                   Inl err \<Rightarrow> Some (b, Inl err)
                 | Inr _ \<Rightarrow> Some (b, Inr (if fills = [] then Resting else PartiallyFilled))
               });
            let e = \<lparr>e_book = b, e_fills_buf = fills\<rparr>;
            case s of
              Inl err \<Rightarrow> Some (e, Inl (Book err))
            | Inr status \<Rightarrow>
                Some (e, Inr \<lparr>r_order_id = o_id order, r_status = status, r_fills = fills\<rparr>)
          }
      })"

definition engine_cancel_order ::
  "MatchingEngine \<Rightarrow> u64 \<Rightarrow> (MatchingEngine \<times> (MatchingError + Order)) option" where
  "engine_cancel_order e order_id = do {
     (b, r) \<leftarrow> book_cancel_order (e_book e) order_id;
     Some (e\<lparr>e_book := b\<rparr>, case r of Inl err \<Rightarrow> Inl (Book err) | Inr order \<Rightarrow> Inr order)
   }"

fun restore_orders :: "MatchingEngine \<Rightarrow> Order list \<Rightarrow> (MatchingError + MatchingEngine) option" where
  "restore_orders e [] = Some (Inr e)"
| "restore_orders e (order # orders) = do {
     (b, r) \<leftarrow> insert_order (e_book e) order;
     case r of
       Inl err \<Rightarrow> Some (Inl (Book err))
     | Inr _ \<Rightarrow> restore_orders (e\<lparr>e_book := b\<rparr>) orders
   }"

definition restore_from_orders :: "Order list \<Rightarrow> u32 \<Rightarrow> (MatchingError + MatchingEngine) option" where
  "restore_from_orders orders arena_capacity =
     restore_orders (MatchingEngine_with_capacity arena_capacity) orders"

section \<open>The specification of matching\<close>

text \<open>\<open>crosses t p\<close>: the limit of \<open>t\<close> reaches the resting price \<open>p\<close> of the other side.\<close>

definition crosses :: "Order \<Rightarrow> i64 \<Rightarrow> bool" where
  "crosses t p = (case o_side t of Bid \<Rightarrow> p \<le> o_price t | Ask \<Rightarrow> o_price t \<le> p)"

lemma crosses_quantity [simp]: "crosses (t\<lparr>o_quantity := q\<rparr>) p = crosses t p"
  by (cases "o_side t") (simp_all add: crosses_def)

definition fill_of :: "Order \<Rightarrow> Order \<Rightarrow> Fill" where
  "fill_of t m = \<lparr>f_taker_order_id = o_id t, f_maker_order_id = o_id m, f_price = o_price m,
     f_quantity = min (o_quantity t) (o_quantity m),
     f_maker_fully_filled = (o_quantity m \<le> o_quantity t)\<rparr>"

text \<open>
  \<open>match_list t ms\<close>: what is left of the queue \<open>ms\<close>, the fills in order, what is left of the taker,
  and whether it met an order of its own trader.
\<close>

fun match_list :: "Order \<Rightarrow> Order list \<Rightarrow> Order list \<times> Fill list \<times> Order \<times> bool" where
  "match_list t [] = ([], [], t, False)"
| "match_list t (m # ms) =
     (if o_quantity t = 0 \<or> \<not> crosses t (o_price m) then (m # ms, [], t, False)
      else if o_trader_id m = o_trader_id t then (m # ms, [], t, True)
      else if o_quantity m \<le> o_quantity t then
        let (rest, fills, t', st) = match_list (t\<lparr>o_quantity := o_quantity t - o_quantity m\<rparr>) ms
        in (rest, fill_of t m # fills, t', st)
      else (m\<lparr>o_quantity := o_quantity m - o_quantity t\<rparr> # ms, [fill_of t m],
            t\<lparr>o_quantity := 0\<rparr>, False))"

section \<open>The loop computes the specification\<close>

lemma best_cached: "best_bid b = cached b Bid" "best_ask b = cached b Ask"
  by (simp_all add: best_bid_def best_ask_def cached_def)

lemma crossing_price_queue:
  assumes "book_ok b"
  shows "crossing_price b t =
    (case side_orders b (opposite (o_side t)) of
       [] \<Rightarrow> None | m # ms \<Rightarrow> if crosses t (o_price m) then Some (o_price m) else None)"
  by (cases "o_side t")
    (auto simp: crossing_price_def best_cached ob.best_front [OF assms] crosses_def split: list.split)

lemma match_loop_zero: "o_quantity t = 0 \<Longrightarrow> match_loop b fills t = Some (b, fills, Inr (t, False))"
  by (simp add: match_loop.simps)

lemma match_loop_stop:
  assumes "book_ok b" "side_orders b (opposite (o_side t)) = m # ms" "\<not> crosses t (o_price m)"
  shows "match_loop b fills t = Some (b, fills, Inr (t, False))"
  using assms by (simp add: match_loop.simps [of b] crossing_price_queue)

lemma match_loop_self_trade:
  assumes "book_ok b" "side_orders b (opposite (o_side t)) = m # ms" "crosses t (o_price m)"
    and "o_quantity t \<noteq> 0" "o_trader_id m = o_trader_id t"
  shows "match_loop b fills t = Some (b, fills, Inr (t, True))"
proof -
  obtain n where "peek_front b (opposite (o_side t)) (o_price m) = Some (Some n)" "to_order n = m"
    using ob.peek_front [OF assms(1,2)] by blast
  then show ?thesis
    using assms by (auto simp: match_loop.simps [of b] crossing_price_queue word_neq_0_conv to_order_def)
qed

lemma match_loop_fill:
  assumes "book_ok b" "side_orders b (opposite (o_side t)) = m # ms" "crosses t (o_price m)"
    and "o_quantity t \<noteq> 0" "o_trader_id m \<noteq> o_trader_id t"
  defines "q \<equiv> min (o_quantity t) (o_quantity m)"
  shows "\<exists>b'. match_loop b fills t =
      match_loop b' (fills @ [fill_of t m]) (t\<lparr>o_quantity := o_quantity t - q\<rparr>) \<and> book_ok b' \<and>
    side_orders b' = (side_orders b)(opposite (o_side t) := reduce_head q (m # ms)) \<and>
    book_capacity b' = book_capacity b"
proof -
  let ?s = "opposite (o_side t)"
  obtain n b' where b': "peek_front b ?s (o_price m) = Some (Some n)" "to_order n = m"
    "reduce_front_quantity b ?s (o_price m) q = Some (b', Inr (o_quantity m - q))" "book_ok b'"
    "side_orders b' = (side_orders b)(?s := reduce_head q (m # ms))"
    "book_capacity b' = book_capacity b"
    using ob.fill_front [OF assms(1,2), of "o_quantity t"] unfolding q_def by blast
  have n: "n_trader_id n = o_trader_id m" "n_quantity n = o_quantity m" "n_id n = o_id m"
    "n_price n = o_price m"
    by (simp_all add: b'(2) [symmetric] to_order_def)
  have "o_quantity m - q = 0 \<longleftrightarrow> o_quantity m \<le> o_quantity t"
    by (auto simp: q_def min_def)
  then have "match_loop b fills t =
      match_loop b' (fills @ [fill_of t m]) (t\<lparr>o_quantity := o_quantity t - q\<rparr>)"
    using assms(1-5) b'(1,3)
    by (simp add: match_loop.simps [of b] crossing_price_queue word_neq_0_conv n fill_of_def Let_def
        flip: q_def)
  then show ?thesis using b' by blast
qed

lemma match_loop_list:
  assumes "book_ok b" "match_list t (side_orders b (opposite (o_side t))) = (rest, fs, t', st)"
  shows "\<exists>b'. match_loop b fills t = Some (b', fills @ fs, Inr (t', st)) \<and> book_ok b' \<and>
    side_orders b' = (side_orders b)(opposite (o_side t) := rest) \<and>
    book_capacity b' = book_capacity b"
  using assms
proof (induction "side_orders b (opposite (o_side t))" arbitrary: b t fills rest fs t' st)
  case Nil
  then have "match_loop b fills t = Some (b, fills, Inr (t, False))"
    by (simp add: match_loop.simps [of b] crossing_price_queue)
  then show ?case using Nil by (auto simp: fun_upd_idem)
next
  case (Cons m ms)
  let ?s = "opposite (o_side t)" and ?q = "min (o_quantity t) (o_quantity m)"
  note q = Cons.hyps(2) [symmetric]
  consider (stop) "o_quantity t = 0 \<or> \<not> crosses t (o_price m)"
    | (self) "o_quantity t \<noteq> 0" "crosses t (o_price m)" "o_trader_id m = o_trader_id t"
    | (fill) "o_quantity t \<noteq> 0" "crosses t (o_price m)" "o_trader_id m \<noteq> o_trader_id t" by blast
  then show ?case
  proof cases
    case stop
    then have "match_loop b fills t = Some (b, fills, Inr (t, False))"
      using match_loop_zero match_loop_stop [OF Cons.prems(1) q] by blast
    then show ?thesis using stop Cons.prems q by (auto simp: fun_upd_idem)
  next
    case self
    then have "match_loop b fills t = Some (b, fills, Inr (t, True))"
      using match_loop_self_trade [OF Cons.prems(1) q] by blast
    then show ?thesis using self Cons.prems q by (auto simp: fun_upd_idem)
  next
    case fill
    let ?t = "t\<lparr>o_quantity := o_quantity t - ?q\<rparr>"
    obtain b1 where b1: "match_loop b fills t = match_loop b1 (fills @ [fill_of t m]) ?t" "book_ok b1"
      "side_orders b1 = (side_orders b)(?s := reduce_head ?q (m # ms))"
      "book_capacity b1 = book_capacity b"
      using match_loop_fill [OF Cons.prems(1) q fill(2,1,3)] by blast
    show ?thesis
    proof (cases "o_quantity m \<le> o_quantity t")
      case True
      then have q: "?q = o_quantity m" by (simp add: min_def)
      obtain fs1 where ml: "match_list ?t ms = (rest, fs1, t', st)" "fs = fill_of t m # fs1"
        using Cons.prems(2) fill True unfolding Cons.hyps(2) [symmetric] q
        by (auto split: prod.splits)
      have ms: "ms = side_orders b1 (opposite (o_side ?t))"
        by (simp add: b1(3) q)
      obtain b' where "match_loop b1 (fills @ [fill_of t m]) ?t =
          Some (b', (fills @ [fill_of t m]) @ fs1, Inr (t', st))" "book_ok b'"
        "side_orders b' = (side_orders b1)(?s := rest)" "book_capacity b' = book_capacity b1"
        using Cons.hyps(1) [OF ms b1(2) ml(1) [unfolded ms], of "fills @ [fill_of t m]"] by auto
      then show ?thesis
        by (intro exI [of _ b']) (simp add: b1(1,3,4) ml(2))
    next
      case False
      then have q: "?q = o_quantity t" by (auto simp: min_def)
      show ?thesis
        using Cons.prems(2) fill False b1 unfolding Cons.hyps(2) [symmetric] q
        by (auto simp: match_loop_zero)
    qed
  qed
qed

section \<open>What matching does to the lists\<close>

definition crossed :: "Order \<Rightarrow> Order \<Rightarrow> bool" where
  "crossed x y = (o_side x = opposite (o_side y) \<and> crosses x (o_price y))"

abbreviation fill_total :: "Fill list \<Rightarrow> nat" where
  "fill_total fs \<equiv> (\<Sum>f\<leftarrow>fs. unat (f_quantity f))"

lemma unat_add_sub: "b \<le> a \<Longrightarrow> unat b + unat (a - b) = unat a" for a b :: u64
  by (simp add: unat_sub word_le_nat_alt)

text \<open>The four ways a round of matching can go.\<close>

lemma match_list_ConsE:
  assumes "match_list t (m # ms) = (rest, fs, t', st)"
  obtains (stop) "o_quantity t = 0 \<or> \<not> crosses t (o_price m)" "rest = m # ms" "fs = []" "t' = t" "\<not> st"
  | (self) "o_quantity t \<noteq> 0" "crosses t (o_price m)" "o_trader_id m = o_trader_id t"
      "rest = m # ms" "fs = []" "t' = t" "st"
  | (full) fs1 where "o_quantity t \<noteq> 0" "crosses t (o_price m)" "o_trader_id m \<noteq> o_trader_id t"
      "o_quantity m \<le> o_quantity t" "fs = fill_of t m # fs1"
      "match_list (t\<lparr>o_quantity := o_quantity t - o_quantity m\<rparr>) ms = (rest, fs1, t', st)"
  | (part) "o_quantity t \<noteq> 0" "crosses t (o_price m)" "o_trader_id m \<noteq> o_trader_id t"
      "o_quantity t < o_quantity m" "rest = m\<lparr>o_quantity := o_quantity m - o_quantity t\<rparr> # ms"
      "fs = [fill_of t m]" "t' = t\<lparr>o_quantity := 0\<rparr>" "\<not> st"
proof -
  obtain rest1 fs1 t1 st1 where rec:
    "match_list (t\<lparr>o_quantity := o_quantity t - o_quantity m\<rparr>) ms = (rest1, fs1, t1, st1)"
    by (metis prod_cases4)
  consider "o_quantity t = 0 \<or> \<not> crosses t (o_price m)"
    | "o_quantity t \<noteq> 0" "crosses t (o_price m)" "o_trader_id m = o_trader_id t"
    | "o_quantity t \<noteq> 0" "crosses t (o_price m)" "o_trader_id m \<noteq> o_trader_id t"
      "o_quantity m \<le> o_quantity t"
    | "o_quantity t \<noteq> 0" "crosses t (o_price m)" "o_trader_id m \<noteq> o_trader_id t"
      "o_quantity t < o_quantity m"
    using not_le by blast
  then show ?thesis
  proof cases
    case 1 then show ?thesis using assms by (intro stop) auto
  next
    case 2 then show ?thesis using assms by (intro self) auto
  next
    case 3 then show ?thesis using assms rec by (intro full) auto
  next
    case 4 then show ?thesis using assms by (intro part) (auto simp: not_le [symmetric])
  qed
qed

lemma order_quantity_idem: "t\<lparr>o_quantity := o_quantity t\<rparr> = (t :: Order)"
  by simp

text \<open>No quantity is created or lost, on either side of the trade.\<close>

lemma match_list_taker:
  "match_list t ms = (rest, fs, t', st) \<Longrightarrow> fill_total fs + unat (o_quantity t') = unat (o_quantity t)"
proof (induction ms arbitrary: t rest fs t' st)
  case (Cons m ms)
  from Cons.prems show ?case
  proof (cases rule: match_list_ConsE)
    case (full fs1)
    then show ?thesis
      using Cons.IH [OF full(6)] unat_add_sub [OF full(4)] by (simp add: fill_of_def min_def)
  qed (auto simp: fill_of_def min_def)
qed simp

lemma match_list_taker_fields:
  "match_list t ms = (rest, fs, t', st) \<Longrightarrow> \<exists>q. t' = t\<lparr>o_quantity := q\<rparr>"
proof (induction ms arbitrary: t rest fs t' st)
  case (Cons m ms)
  from Cons.prems show ?case
  proof (cases rule: match_list_ConsE)
    case (full fs1)
    then show ?thesis using Cons.IH [OF full(6)] by auto
  qed (metis order_quantity_idem)+
next
  case Nil
  then show ?case by (metis match_list.simps(1) order_quantity_idem prod.inject)
qed

lemma match_list_makers:
  "match_list t ms = (rest, fs, t', st) \<Longrightarrow>
   fill_total fs + (\<Sum>m\<leftarrow>rest. unat (o_quantity m)) = (\<Sum>m\<leftarrow>ms. unat (o_quantity m))"
proof (induction ms arbitrary: t rest fs t' st)
  case (Cons m ms)
  from Cons.prems show ?case
  proof (cases rule: match_list_ConsE)
    case (full fs1)
    then show ?thesis using Cons.IH [OF full(6)] by (simp add: fill_of_def min_def)
  next
    case part
    then show ?thesis
      using unat_add_sub [of "o_quantity t" "o_quantity m"]
      by (simp add: fill_of_def min_absorb1 less_imp_le)
  qed simp_all
qed simp

text \<open>
  Priority: the fills take the makers from the front of the queue in order, each entirely except
  perhaps the last, and the rest of the queue stays as it was.
\<close>

definition full_fill :: "Fill \<Rightarrow> Order \<Rightarrow> bool" where
  "full_fill f m \<longleftrightarrow> f_maker_order_id f = o_id m \<and> f_price f = o_price m \<and>
     f_quantity f = o_quantity m \<and> f_maker_fully_filled f"

definition partial_fill :: "Fill \<Rightarrow> Order \<Rightarrow> bool" where
  "partial_fill f m \<longleftrightarrow> f_maker_order_id f = o_id m \<and> f_price f = o_price m \<and>
     f_quantity f < o_quantity m \<and> \<not> f_maker_fully_filled f"

definition consumed :: "Order list \<Rightarrow> Order list \<Rightarrow> Fill list \<Rightarrow> bool" where
  "consumed ms rest fs \<longleftrightarrow>
     (\<exists>gone. ms = gone @ rest \<and> list_all2 full_fill fs gone) \<or>
     (\<exists>gone m tail fs' f. ms = gone @ m # tail \<and> fs = fs' @ [f] \<and> list_all2 full_fill fs' gone \<and>
        partial_fill f m \<and> rest = m\<lparr>o_quantity := o_quantity m - f_quantity f\<rparr> # tail)"

lemma consumed_Nil: "consumed ms ms []"
  by (simp add: consumed_def)

lemma consumed_Cons:
  assumes "consumed ms rest fs" "full_fill f m"
  shows "consumed (m # ms) rest (f # fs)"
  using assms(1) unfolding consumed_def
proof (elim disjE exE conjE)
  fix gone
  assume "ms = gone @ rest" "list_all2 full_fill fs gone"
  then have "m # ms = (m # gone) @ rest \<and> list_all2 full_fill (f # fs) (m # gone)"
    using assms(2) by simp
  then show "(\<exists>gone. m # ms = gone @ rest \<and> list_all2 full_fill (f # fs) gone) \<or>
      (\<exists>gone m' tail fs' f'. m # ms = gone @ m' # tail \<and> f # fs = fs' @ [f'] \<and>
         list_all2 full_fill fs' gone \<and> partial_fill f' m' \<and>
         rest = m'\<lparr>o_quantity := o_quantity m' - f_quantity f'\<rparr> # tail)"
    by blast
next
  fix gone m' tail fs' f'
  assume "ms = gone @ m' # tail" "fs = fs' @ [f']" "list_all2 full_fill fs' gone"
    "partial_fill f' m'" "rest = m'\<lparr>o_quantity := o_quantity m' - f_quantity f'\<rparr> # tail"
  then have "m # ms = (m # gone) @ m' # tail \<and> f # fs = (f # fs') @ [f'] \<and>
      list_all2 full_fill (f # fs') (m # gone) \<and> partial_fill f' m' \<and>
      rest = m'\<lparr>o_quantity := o_quantity m' - f_quantity f'\<rparr> # tail"
    using assms(2) by simp
  then show "(\<exists>gone. m # ms = gone @ rest \<and> list_all2 full_fill (f # fs) gone) \<or>
      (\<exists>gone m' tail fs' f'. m # ms = gone @ m' # tail \<and> f # fs = fs' @ [f'] \<and>
         list_all2 full_fill fs' gone \<and> partial_fill f' m' \<and>
         rest = m'\<lparr>o_quantity := o_quantity m' - f_quantity f'\<rparr> # tail)"
    by blast
qed

lemma match_list_priority: "match_list t ms = (rest, fs, t', st) \<Longrightarrow> consumed ms rest fs"
proof (induction ms arbitrary: t rest fs t' st)
  case (Cons m ms)
  from Cons.prems show ?case
  proof (cases rule: match_list_ConsE)
    case (full fs1)
    then have "full_fill (fill_of t m) m" by (simp add: full_fill_def fill_of_def min_def)
    then show ?thesis using Cons.IH [OF full(6)] full(5) consumed_Cons by blast
  next
    case part
    then have "partial_fill (fill_of t m) m" "f_quantity (fill_of t m) = o_quantity t"
      by (auto simp: partial_fill_def fill_of_def min_def)
    then show ?thesis using part(5,6) by (fastforce simp: consumed_def)
  qed (simp_all add: consumed_Nil)
qed (simp add: consumed_Nil)

text \<open>Each fill is within the taker's limit, of positive quantity, and against another trader.\<close>

definition fill_ok :: "Order \<Rightarrow> Order list \<Rightarrow> Fill \<Rightarrow> bool" where
  "fill_ok t ms f \<longleftrightarrow> f_taker_order_id f = o_id t \<and> f_quantity f \<noteq> 0 \<and> crosses t (f_price f) \<and>
     (\<exists>m\<in>set ms. o_id m = f_maker_order_id f \<and> o_price m = f_price f \<and> o_trader_id m \<noteq> o_trader_id t)"

lemma fill_ok_Cons: "fill_ok (t\<lparr>o_quantity := q\<rparr>) ms f \<Longrightarrow> fill_ok t (m # ms) f"
  by (auto simp: fill_ok_def)

lemma match_list_fills:
  "match_list t ms = (rest, fs, t', st) \<Longrightarrow> \<forall>m\<in>set ms. o_quantity m \<noteq> 0 \<Longrightarrow> f \<in> set fs \<Longrightarrow>
   fill_ok t ms f"
proof (induction ms arbitrary: t rest fs t' st)
  case (Cons m ms)
  have first: "fill_ok t (m # ms) (fill_of t m)"
    if "o_quantity t \<noteq> 0" "crosses t (o_price m)" "o_trader_id m \<noteq> o_trader_id t"
    using that Cons.prems(2) by (auto simp: fill_ok_def fill_of_def min_def)
  from Cons.prems(1) show ?case
  proof (cases rule: match_list_ConsE)
    case (full fs1)
    then show ?thesis
      using Cons.IH [OF full(6)] Cons.prems(2,3) first by (auto intro: fill_ok_Cons)
  next
    case part
    then show ?thesis using first Cons.prems(3) by simp
  qed (use Cons.prems(3) in simp_all)
qed simp

text \<open>Why the loop stopped.\<close>

lemma match_list_stop:
  "match_list t ms = (rest, fs, t', st) \<Longrightarrow>
   (if st then o_quantity t' \<noteq> 0 \<and>
      (\<exists>m tail. rest = m # tail \<and> crosses t (o_price m) \<and> o_trader_id m = o_trader_id t)
    else o_quantity t' = 0 \<or> (case rest of [] \<Rightarrow> True | m # _ \<Rightarrow> \<not> crosses t (o_price m)))"
proof (induction ms arbitrary: t rest fs t' st)
  case (Cons m ms)
  from Cons.prems show ?case
  proof (cases rule: match_list_ConsE)
    case (full fs1)
    then show ?thesis
      using Cons.IH [OF full(6)] by (auto split: if_splits list.splits)
  qed auto
qed simp

lemma match_list_progress:
  "match_list t ms = (rest, fs, t', st) \<Longrightarrow> o_quantity t' \<noteq> 0 \<Longrightarrow> fs \<noteq> [] \<Longrightarrow> length rest < length ms"
proof -
  assume ml: "match_list t ms = (rest, fs, t', st)" and nz: "o_quantity t' \<noteq> 0" "fs \<noteq> []"
  have "length rest \<le> length ms" if "match_list t ms = (rest, fs, t', st)" for t ms rest fs t' st
    using match_list_priority [OF that] by (auto simp: consumed_def)
  note le = this
  show ?thesis
  proof (cases ms)
    case (Cons m ms')
    from ml [unfolded Cons] show ?thesis
    proof (cases rule: match_list_ConsE)
      case (full fs1)
      then show ?thesis using le [OF full(6)] Cons by simp
    qed (use nz in auto)
  qed (use ml nz in simp)
qed

lemma match_list_rest:
  assumes "match_list t ms = (rest, fs, t', st)" "x \<in> set rest"
  shows "\<exists>m\<in>set ms. o_price m = o_price x \<and> o_id m = o_id x"
  using match_list_priority [OF assms(1)] assms(2) by (auto simp: consumed_def)

section \<open>The specification of the engine\<close>

text \<open>\<open>engine_view e\<close>: the two priority lists. A book is uncrossed when no bid reaches an ask.\<close>

type_synonym sides = "Side \<Rightarrow> Order list"

definition engine_view :: "MatchingEngine \<Rightarrow> sides" where
  "engine_view e = side_orders (e_book e)"

definition uncrossed :: "sides \<Rightarrow> bool" where
  "uncrossed Q \<longleftrightarrow> (\<forall>a\<in>set (Q Ask). \<forall>b\<in>set (Q Bid). o_price b < o_price a)"

definition engine_ok :: "MatchingEngine \<Rightarrow> bool" where
  "engine_ok e \<longleftrightarrow> book_ok (e_book e) \<and> uncrossed (engine_view e)"

definition view_ids :: "sides \<Rightarrow> u64 set" where
  "view_ids Q = o_id ` (set (Q Ask) \<union> set (Q Bid))"

definition view_size :: "sides \<Rightarrow> nat" where
  "view_size Q = length (Q Ask) + length (Q Bid)"

definition add_spec :: "nat \<Rightarrow> sides \<Rightarrow> Order \<Rightarrow> sides \<times> (MatchingError + AddOrderResult)" where
  "add_spec cap Q t =
     (if o_quantity t = 0 then (Q, Inl ZeroQuantity)
      else
        let (rest, fs, t', st) = match_list t (Q (opposite (o_side t)));
            Q' = Q(opposite (o_side t) := rest);
            res = (\<lambda>status. Inr \<lparr>r_order_id = o_id t, r_status = status, r_fills = fs\<rparr>)
        in if st then (Q', res CancelledSelfTrade)
           else if o_quantity t' = 0 then (Q', res FullyFilled)
           else if o_id t \<in> view_ids Q' then (Q', Inl (Book (DuplicateOrderId (o_id t))))
           else if view_size Q' = cap then (Q', Inl (Book ArenaFull))
           else (Q'(o_side t := enqueue t' (Q' (o_side t))),
                 res (if fs = [] then Resting else PartiallyFilled)))"

definition cancel_spec :: "sides \<Rightarrow> u64 \<Rightarrow> sides \<times> (MatchingError + Order)" where
  "cancel_spec Q k =
     (case find (\<lambda>x. o_id x = k) (Q Ask @ Q Bid) of
        None \<Rightarrow> (Q, Inl (Book (OrderNotFound k)))
      | Some x \<Rightarrow> (Q(o_side x := filter (\<lambda>y. o_id y \<noteq> k) (Q (o_side x))), Inr x))"

abbreviation engine_capacity :: "MatchingEngine \<Rightarrow> nat" where
  "engine_capacity e \<equiv> book_capacity (e_book e)"

lemma view_ids_orders: "view_ids (side_orders b) = o_id ` ob.orders b"
  by (simp add: view_ids_def ob.orders_def)

lemma add_order_refines:
  assumes "book_ok (e_book e)" "add_spec (engine_capacity e) (engine_view e) t = (Q', r)"
  shows "\<exists>e'. add_order e t = Some (e', r) \<and> book_ok (e_book e') \<and> engine_view e' = Q' \<and>
    engine_capacity e' = engine_capacity e"
proof (cases "o_quantity t = 0")
  case True
  then show ?thesis using assms by (auto simp: add_order_def add_spec_def)
next
  case nz: False
  obtain rest fs t' st where ml: "match_list t (engine_view e (opposite (o_side t))) = (rest, fs, t', st)"
    by (metis prod_cases4)
  then obtain b1 where b1: "match_loop (e_book e) [] t = Some (b1, fs, Inr (t', st))" "book_ok b1"
    "side_orders b1 = (engine_view e)(opposite (o_side t) := rest)"
    "book_capacity b1 = engine_capacity e"
    using match_loop_list [OF assms(1) ml [unfolded engine_view_def], of "[]"]
    unfolding engine_view_def by auto
  have t': "o_id t' = o_id t" "o_side t' = o_side t"
    using match_list_taker_fields [OF ml] by auto
  note spec = assms(2) [unfolded add_spec_def Let_def, simplified nz ml, simplified,
      folded b1(3) b1(4)]
  show ?thesis
  proof (cases "st \<or> o_quantity t' = 0")
    case True
    then show ?thesis using spec b1(1,2,4) nz by (auto simp: add_order_def engine_view_def)
  next
    case False
    then have "o_quantity t' \<noteq> 0" by simp
    with b1(2) show ?thesis
    proof (cases rule: ob.add_total)
      case dup
      then show ?thesis
        using False spec b1(1,2,4) nz t' by (auto simp: add_order_def engine_view_def view_ids_orders Let_def)
    next
      case full
      then show ?thesis
        using False spec b1(1,2,4) nz t'
        by (auto simp: add_order_def engine_view_def view_ids_orders view_size_def Let_def)
    next
      case (added b')
      then show ?thesis
        using False spec b1(1,2,4) nz t'
        by (auto simp: add_order_def engine_view_def view_ids_orders view_size_def Let_def)
    qed
  qed
qed

lemma find_unique:
  assumes "distinct (map o_id xs)" "x \<in> set xs" "o_id x = k"
  shows "find (\<lambda>y. o_id y = k) xs = Some x"
  using assms by (induction xs) (auto simp: image_iff)

lemma cancel_order_refines:
  assumes "book_ok (e_book e)" "cancel_spec (engine_view e) k = (Q', r)"
  shows "\<exists>e'. engine_cancel_order e k = Some (e', r) \<and> book_ok (e_book e') \<and> engine_view e' = Q' \<and>
    engine_capacity e' = engine_capacity e"
  using assms(1)
proof (cases rule: ob.cancel_total [where k = k])
  case absent
  then have "find (\<lambda>x. o_id x = k) (engine_view e Ask @ engine_view e Bid) = None"
    by (auto simp: find_None_iff ob.orders_def engine_view_def)
  then show ?thesis
    using absent assms by (auto simp: cancel_spec_def engine_cancel_order_def)
next
  case (present x b')
  then have "x \<in> set (engine_view e Ask @ engine_view e Bid)"
    using ob.queue_orders by (fastforce simp: ob.orders_def engine_view_def)
  then have "find (\<lambda>x. o_id x = k) (engine_view e Ask @ engine_view e Bid) = Some x"
    using ob.queue_ids [OF assms(1)] present(2) by (simp add: find_unique engine_view_def)
  then show ?thesis
    using present assms by (auto simp: cancel_spec_def engine_cancel_order_def engine_view_def)
qed

section \<open>The book is never crossed\<close>

lemma crosses_key:
  "crosses t p \<longleftrightarrow> prio_key (opposite (o_side t)) p \<le> prio_key (opposite (o_side t)) (o_price t)"
  by (cases "o_side t") (simp_all add: crosses_def)

lemma uncrossed_mono: "uncrossed Q \<Longrightarrow> (\<And>s. set (Q' s) \<subseteq> set (Q s)) \<Longrightarrow> uncrossed Q'"
  unfolding uncrossed_def by blast

lemma consumed_sorted:
  assumes "consumed ms rest fs" "prio_sorted s ms"
  shows "prio_sorted s rest"
  using assms by (auto simp: consumed_def prio_sorted_def sorted_append)

lemma match_list_uncrossed:
  assumes "match_list t ms = (rest, fs, t', st)" "prio_sorted (opposite (o_side t)) ms"
    and "\<not> st" "o_quantity t' \<noteq> 0" "y \<in> set rest"
  shows "\<not> crosses t (o_price y)"
proof -
  have "prio_sorted (opposite (o_side t)) rest"
    using consumed_sorted match_list_priority assms(1,2) by blast
  moreover obtain m tail where "rest = m # tail" using assms(5) by (cases rest) auto
  moreover from this have "\<not> crosses t (o_price m)"
    using match_list_stop [OF assms(1)] assms(3,4) by simp
  ultimately show ?thesis
    using assms(5) by (fastforce simp: crosses_key prio_sorted_Cons)
qed

lemma add_spec_uncrossed:
  assumes Q: "\<And>s. prio_sorted s (Q s)" "\<And>s x. x \<in> set (Q s) \<Longrightarrow> o_side x = s" "uncrossed Q"
    and add: "add_spec cap Q t = (Q', r)"
  shows "uncrossed Q'"
proof -
  let ?s = "o_side t" and ?o = "opposite (o_side t)"
  obtain rest fs t' st where ml: "match_list t (Q ?o) = (rest, fs, t', st)"
    by (metis prod_cases4)
  obtain q where t': "t' = t\<lparr>o_quantity := q\<rparr>"
    using match_list_taker_fields [OF ml] by blast
  have rest: "\<exists>m\<in>set (Q ?o). o_price m = o_price y" if "y \<in> set rest" for y
    using match_list_rest [OF ml that] by blast
  have Q': "Q' = Q \<or> Q' = Q(?o := rest) \<or>
      \<not> st \<and> o_quantity t' \<noteq> 0 \<and> Q' = Q(?o := rest, ?s := enqueue t' (Q ?s))"
    using add by (auto simp: add_spec_def ml Let_def split: if_splits)
  have "uncrossed (Q(?o := rest))"
    using Q(3) rest by (cases ?s) (fastforce simp: uncrossed_def)+
  moreover have "uncrossed (Q(?o := rest, ?s := enqueue t' (Q ?s)))" if "\<not> st" "o_quantity t' \<noteq> 0"
  proof -
    have "\<not> crosses t (o_price y)" if "y \<in> set rest" for y
      using match_list_uncrossed [OF ml Q(1) _ _ that] \<open>\<not> st\<close> \<open>o_quantity t' \<noteq> 0\<close> by blast
    then show ?thesis
      using calculation t' by (cases ?s) (auto simp: uncrossed_def crosses_def not_le)
  qed
  ultimately show ?thesis using Q' Q(3) by blast
qed

lemma engine_add_order:
  assumes "engine_ok e" "add_spec (engine_capacity e) (engine_view e) t = (Q', r)"
  shows "\<exists>e'. add_order e t = Some (e', r) \<and> engine_ok e' \<and> engine_view e' = Q' \<and>
    engine_capacity e' = engine_capacity e"
proof -
  have ok: "book_ok (e_book e)" "uncrossed (engine_view e)"
    using assms(1) by (simp_all add: engine_ok_def)
  have "uncrossed Q'"
    using add_spec_uncrossed [OF _ _ ok(2) assms(2)] ob.queue_sorted [OF ok(1)]
      ob.queue_tags [OF ok(1)] by (metis engine_view_def)
  then show ?thesis
    using add_order_refines [OF ok(1) assms(2)] by (auto simp: engine_ok_def)
qed

lemma engine_cancel_order:
  assumes "engine_ok e" "cancel_spec (engine_view e) k = (Q', r)"
  shows "\<exists>e'. engine_cancel_order e k = Some (e', r) \<and> engine_ok e' \<and> engine_view e' = Q' \<and>
    engine_capacity e' = engine_capacity e"
proof -
  have ok: "book_ok (e_book e)" "uncrossed (engine_view e)"
    using assms(1) by (simp_all add: engine_ok_def)
  have "set (Q' s) \<subseteq> set (engine_view e s)" for s
    using assms(2) by (auto simp: cancel_spec_def split: option.splits if_splits)
  then have "uncrossed Q'" by (rule uncrossed_mono [OF ok(2)])
  then show ?thesis
    using cancel_order_refines [OF ok(1) assms(2)] by (auto simp: engine_ok_def)
qed

lemma engine_with_capacity:
  "engine_ok (MatchingEngine_with_capacity c)" "engine_view (MatchingEngine_with_capacity c) = (\<lambda>_. [])"
  "engine_capacity (MatchingEngine_with_capacity c) = unat c"
proof -
  have "side_orders (OrderBook_with_capacity c) s = []" for s
    using book_ok_with_capacity(1,2) [of c] by (intro side_orders_eqI) (simp_all add: prio_sorted_def)
  then show "engine_view (MatchingEngine_with_capacity c) = (\<lambda>_. [])"
    "engine_ok (MatchingEngine_with_capacity c)"
    by (simp_all add: engine_view_def engine_ok_def MatchingEngine_with_capacity_def uncrossed_def
        book_ok_with_capacity fun_eq_iff)
  show "engine_capacity (MatchingEngine_with_capacity c) = unat c"
    by (simp add: MatchingEngine_with_capacity_def book_ok_with_capacity)
qed

section \<open>Reachable engines\<close>

inductive engine_reachable :: "u32 \<Rightarrow> MatchingEngine \<Rightarrow> bool" for c :: u32 where
  init: "engine_reachable c (MatchingEngine_with_capacity c)"
| add: "engine_reachable c e \<Longrightarrow> add_order e order = Some (e', r) \<Longrightarrow> engine_reachable c e'"
| cancel: "engine_reachable c e \<Longrightarrow> engine_cancel_order e k = Some (e', r) \<Longrightarrow> engine_reachable c e'"

lemma engine_ok_add: "engine_ok e \<Longrightarrow> add_order e t = Some (e', r) \<Longrightarrow> engine_ok e' \<and>
    engine_capacity e' = engine_capacity e \<and>
    (engine_view e', r) = add_spec (engine_capacity e) (engine_view e) t"
  using engine_add_order [of e t "fst (add_spec (engine_capacity e) (engine_view e) t)"
      "snd (add_spec (engine_capacity e) (engine_view e) t)"] by auto

lemma engine_ok_cancel: "engine_ok e \<Longrightarrow> engine_cancel_order e k = Some (e', r) \<Longrightarrow> engine_ok e' \<and>
    engine_capacity e' = engine_capacity e \<and> (engine_view e', r) = cancel_spec (engine_view e) k"
  using engine_cancel_order [of e k "fst (cancel_spec (engine_view e) k)"
      "snd (cancel_spec (engine_view e) k)"] by auto

lemma reachable_ok: "engine_reachable c e \<Longrightarrow> engine_ok e \<and> engine_capacity e = unat c"
proof (induction rule: engine_reachable.induct)
  case init
  then show ?case by (simp add: engine_with_capacity)
next
  case (add e order e' r)
  then show ?case using engine_ok_add by auto
next
  case (cancel e k e' r)
  then show ?case using engine_ok_cancel by auto
qed

section \<open>Restoring an engine\<close>

lemma restore_orders_fold:
  assumes "book_ok (e_book e)" "distinct (map o_id xs)" "\<forall>x\<in>set xs. o_quantity x \<noteq> 0"
    and "view_ids (engine_view e) \<inter> o_id ` set xs = {}"
    and "view_size (engine_view e) + length xs \<le> engine_capacity e"
  shows "\<exists>e'. restore_orders e xs = Some (Inr e') \<and> book_ok (e_book e') \<and>
    engine_view e' = (\<lambda>s. fold enqueue (filter (\<lambda>x. o_side x = s) xs) (engine_view e s)) \<and>
    engine_capacity e' = engine_capacity e"
  using assms
proof (induction xs arbitrary: e)
  case (Cons x xs)
  have "o_quantity x \<noteq> 0" using Cons.prems by simp
  with Cons.prems(1) show ?case
  proof (cases rule: ob.add_total)
    case (added b')
    let ?e = "e\<lparr>e_book := b'\<rparr>"
    have view: "engine_view ?e = (engine_view e)(o_side x := enqueue x (engine_view e (o_side x)))"
      using added by (simp add: engine_view_def)
    have ids: "view_ids (engine_view ?e) = insert (o_id x) (view_ids (engine_view e))"
      unfolding view by (cases "o_side x") (auto simp: view_ids_def)
    have "view_size (engine_view ?e) = Suc (view_size (engine_view e))"
      unfolding view by (cases "o_side x") (auto simp: view_size_def)
    then obtain e' where e': "restore_orders ?e xs = Some (Inr e')" "book_ok (e_book e')"
      "engine_view e' = (\<lambda>s. fold enqueue (filter (\<lambda>x. o_side x = s) xs) (engine_view ?e s))"
      "engine_capacity e' = engine_capacity ?e"
      using Cons.IH [of ?e] Cons.prems added(4,5) ids by auto
    then show ?thesis using added by (auto simp: view fun_eq_iff)
  qed (use Cons.prems in \<open>auto simp: view_ids_orders engine_view_def view_size_def\<close>)
qed simp

lemma fold_enqueue_sorted:
  assumes "prio_sorted s (ys @ xs)" "\<forall>x\<in>set xs. o_side x = s"
  shows "fold enqueue xs ys = ys @ xs"
  using assms
proof (induction xs arbitrary: ys)
  case (Cons x xs)
  have "enqueue x zs = zs @ [x]" if "\<forall>z\<in>set zs. prio_key s (o_price z) \<le> prio_key s (o_price x)" for zs
    using that Cons.prems(2) by (induction zs) auto
  moreover have "\<forall>z\<in>set ys. prio_key s (o_price z) \<le> prio_key s (o_price x)"
    using Cons.prems(1) by (auto simp: prio_sorted_def sorted_append)
  ultimately show ?case using Cons.IH [of "ys @ [x]"] Cons.prems by simp
qed simp

lemma restore_roundtrip:
  assumes "engine_ok e" "all_resting_orders (e_book e) = Some os" "length os \<le> unat cap"
  shows "\<exists>e'. restore_from_orders os cap = Some (Inr e') \<and> engine_ok e' \<and>
    engine_view e' = engine_view e \<and> engine_capacity e' = unat cap"
proof -
  have ok: "book_ok (e_book e)" using assms(1) by (simp add: engine_ok_def)
  have os: "os = engine_view e Ask @ engine_view e Bid"
    using all_resting_orders_eq [OF ok] assms(2) by (simp add: engine_view_def)
  let ?e0 = "MatchingEngine_with_capacity cap"
  note e0 = engine_with_capacity [of cap]
  obtain e' where e': "restore_orders ?e0 os = Some (Inr e')" "book_ok (e_book e')"
    "engine_view e' = (\<lambda>s. fold enqueue (filter (\<lambda>x. o_side x = s) os) [])"
    "engine_capacity e' = unat cap"
    using restore_orders_fold [of ?e0 os] e0 ob.queue_ids [OF ok] ob.queue_tags [OF ok] assms(3)
    by (fastforce simp: engine_ok_def os engine_view_def view_ids_def view_size_def)
  have "filter (\<lambda>x. o_side x = s) os = engine_view e s" for s
  proof -
    have "filter (\<lambda>x. o_side x = s) (engine_view e s') = (if s' = s then engine_view e s' else [])" for s'
      using ob.queue_tags [OF ok] by (auto simp: engine_view_def intro!: filter_True filter_False)
    then show ?thesis by (cases s) (simp_all add: os)
  qed
  moreover have "fold enqueue (engine_view e s) [] = engine_view e s" for s
    using ob.queue_sorted [OF ok, of s] ob.queue_tags [OF ok, of _ s]
      fold_enqueue_sorted [of s "[]" "engine_view e s"] by (simp add: engine_view_def)
  ultimately have "engine_view e' = engine_view e" by (simp add: e'(3))
  then show ?thesis
    using e' assms(1) by (auto simp: restore_from_orders_def engine_ok_def)
qed

end
