(* ===== verification/RefBook.thy ===== *)
theory RefBook
  imports Matching "HOL-Library.Product_Lexorder"
begin

text \<open>
  \<open>tests/book_model.rs\<close>: the naive reference book, a flat vector scanned for the best maker at every
  step, and the differential test that runs it beside the engine. An index the scan returns is one of
  the vector, so indexing never panics. \<open>prop::sample::Index\<close> is a parameter \<open>index\<close>: given the number of
  ids issued, the position to use, which is documented to be below that number.

  Shown: engine and reference agree after every operation, on every input that fits the arena: the
  differential test cannot fail.
\<close>

section \<open>The code\<close>

record RestingEntry =
  rs_order :: Order
  rs_seq :: u64

record ReferenceBook =
  rf_resting :: "RestingEntry list"
  rf_next_seq :: u64

definition ReferenceBook_default :: ReferenceBook where
  "ReferenceBook_default = \<lparr>rf_resting = [], rf_next_seq = 0\<rparr>"

definition better :: "Side \<Rightarrow> RestingEntry \<Rightarrow> RestingEntry \<Rightarrow> bool" where
  "better side r cur =
     (let better_price = (case side of
            Ask \<Rightarrow> o_price (rs_order r) < o_price (rs_order cur)
          | Bid \<Rightarrow> o_price (rs_order cur) < o_price (rs_order r));
          same_price_earlier = (o_price (rs_order r) = o_price (rs_order cur) \<and> rs_seq r < rs_seq cur)
      in better_price \<or> same_price_earlier)"

definition best_turn :: "RestingEntry list \<Rightarrow> Side \<Rightarrow> nat \<times> RestingEntry \<Rightarrow> nat option \<Rightarrow> nat option" where
  "best_turn resting side = (\<lambda>(i, r) best.
     if o_side (rs_order r) \<noteq> side then best
     else Some (case best of None \<Rightarrow> i | Some b \<Rightarrow> if better side r (resting ! b) then i else b))"

definition best_index :: "RestingEntry list \<Rightarrow> Side \<Rightarrow> nat option" where
  "best_index resting side = fold (best_turn resting side) (enumerate 0 resting) None"

text \<open>\<open>Vec::remove\<close>.\<close>

definition vec_remove :: "'a list \<Rightarrow> nat \<Rightarrow> 'a list" where
  "vec_remove xs i = take i xs @ drop (Suc i) xs"

lemma length_vec_remove: "i < length xs \<Longrightarrow> length (vec_remove xs i) = length xs - 1"
  by (auto simp: vec_remove_def)

lemma best_index_range: "best_index v s = Some i \<Longrightarrow> i < length v"
proof -
  have "(case fold (best_turn v s) (enumerate 0 (take n v)) None of None \<Rightarrow> True | Some i \<Rightarrow> i < n)"
    if "n \<le> length v" for n
    using that
  proof (induction n)
    case (Suc n)
    then show ?case
      by (auto simp: take_Suc_conv_app_nth enumerate_append_eq best_turn_def split: option.splits if_splits)
  qed simp
  from this [of "length v"] show "best_index v s = Some i \<Longrightarrow> i < length v"
    by (simp add: best_index_def)
qed

lemma unat_minus_min:
  fixes a b :: u64
  assumes "a \<noteq> 0"
  shows "unat (a - min a b) < unat a \<or> (unat (a - min a b) \<le> unat a \<and> b - min a b = 0)"
proof (cases "a \<le> b")
  case True
  then show ?thesis using assms by (simp add: min_absorb1 unat_gt_0)
next
  case False
  then have "b \<le> a" by simp
  then show ?thesis by (simp add: min_absorb2 unat_sub)
qed

text \<open>The matching loop of \<open>add\<close>: the vector, what is left of the taker, the fills, the self-trade flag.\<close>

function ref_match ::
  "RestingEntry list \<Rightarrow> Order \<Rightarrow> Fill list \<Rightarrow> RestingEntry list \<times> Order \<times> Fill list \<times> bool" where
  "ref_match resting taker fills =
     (if o_quantity taker = 0 then (resting, taker, fills, False)
      else case best_index resting (opposite (o_side taker)) of
        None \<Rightarrow> (resting, taker, fills, False)
      | Some i \<Rightarrow>
          (let maker = rs_order (resting ! i);
               does_cross = (case o_side taker of
                   Bid \<Rightarrow> o_price maker \<le> o_price taker | Ask \<Rightarrow> o_price taker \<le> o_price maker)
           in if \<not> does_cross then (resting, taker, fills, False)
              else if o_trader_id maker = o_trader_id taker then (resting, taker, fills, True)
              else let qty = min (o_quantity taker) (o_quantity maker);
                       fill = \<lparr>f_taker_order_id = o_id taker, f_maker_order_id = o_id maker,
                               f_price = o_price maker, f_quantity = qty,
                               f_maker_fully_filled = (o_quantity maker = qty)\<rparr>;
                       maker = maker\<lparr>o_quantity := o_quantity maker - qty\<rparr>;
                       resting = resting[i := (resting ! i)\<lparr>rs_order := maker\<rparr>]
                   in ref_match (if o_quantity maker = 0 then vec_remove resting i else resting)
                        (taker\<lparr>o_quantity := o_quantity taker - qty\<rparr>) (fills @ [fill])))"
  by auto

termination
proof (relation "measure (\<lambda>(resting, taker, fills). unat (o_quantity taker) + length resting)", goal_cases)
  case (2 resting taker fills i maker does_cross qty)
  then show ?case
    using best_index_range [OF 2(2)] unat_minus_min [OF 2(1), of "o_quantity maker"]
    by (auto simp: length_vec_remove)
qed simp

declare ref_match.simps [simp del]

definition ref_add :: "ReferenceBook \<Rightarrow> Order \<Rightarrow> ReferenceBook \<times> OrderStatus \<times> Fill list" where
  "ref_add b taker =
     (let (resting, taker, fills, self_trade) = ref_match (rf_resting b) taker [];
          b = b\<lparr>rf_resting := resting\<rparr>
      in if self_trade then (b, CancelledSelfTrade, fills)
         else if o_quantity taker = 0 then (b, FullyFilled, fills)
         else (b\<lparr>rf_resting := resting @ [\<lparr>rs_order = taker, rs_seq = rf_next_seq b\<rparr>],
                  rf_next_seq := rf_next_seq b + 1\<rparr>,
               if fills \<noteq> [] then PartiallyFilled else Resting, fills))"

fun position :: "('a \<Rightarrow> bool) \<Rightarrow> 'a list \<Rightarrow> nat option" where
  "position P [] = None"
| "position P (x # xs) = (if P x then Some 0 else map_option Suc (position P xs))"

definition ref_cancel :: "ReferenceBook \<Rightarrow> u64 \<Rightarrow> ReferenceBook \<times> Order option" where
  "ref_cancel b order_id =
     (case position (\<lambda>r. o_id (rs_order r) = order_id) (rf_resting b) of
        None \<Rightarrow> (b, None)
      | Some i \<Rightarrow> (b\<lparr>rf_resting := vec_remove (rf_resting b) i\<rparr>, Some (rs_order (rf_resting b ! i))))"

definition side_prices :: "ReferenceBook \<Rightarrow> Side \<Rightarrow> i64 list" where
  "side_prices b side = map o_price (filter (\<lambda>x. o_side x = side) (map rs_order (rf_resting b)))"

definition ref_best_bid :: "ReferenceBook \<Rightarrow> i64 option" where
  "ref_best_bid b = (case side_prices b Bid of [] \<Rightarrow> None | p # ps \<Rightarrow> Some (fold max ps p))"

definition ref_best_ask :: "ReferenceBook \<Rightarrow> i64 option" where
  "ref_best_ask b = (case side_prices b Ask of [] \<Rightarrow> None | p # ps \<Rightarrow> Some (fold min ps p))"

text \<open>\<open>Reverse\<close> of a price is its negation, as \<open>prio_key\<close> has it.\<close>

definition canonical :: "ReferenceBook \<Rightarrow> Order list" where
  "canonical b =
     (let asks = filter (\<lambda>r. o_side (rs_order r) = Ask) (rf_resting b);
          bids = filter (\<lambda>r. o_side (rs_order r) = Bid) (rf_resting b);
          asks = sort_key (\<lambda>r. (o_price (rs_order r), rs_seq r)) asks;
          bids = sort_key (\<lambda>r. (prio_key Bid (o_price (rs_order r)), rs_seq r)) bids
      in map rs_order (asks @ bids))"

subsection \<open>The differential test\<close>

datatype Op = Add Side i64 u64 u64 | Cancel nat

definition agree :: "MatchingEngine \<Rightarrow> ReferenceBook \<Rightarrow> bool" where
  "agree engine b =
     (best_bid (e_book engine) = ref_best_bid b \<and> best_ask (e_book engine) = ref_best_ask b \<and>
      order_count (e_book engine) = length (rf_resting b) \<and>
      all_resting_orders (e_book engine) = Some (canonical b))"

text \<open>A failed assertion or \<open>unwrap\<close> is \<open>None\<close>; otherwise the transcript.\<close>

fun differential ::
  "(nat \<Rightarrow> nat \<Rightarrow> nat) \<Rightarrow> nat \<Rightarrow> Op list \<Rightarrow> MatchingEngine \<Rightarrow> ReferenceBook \<Rightarrow> u64 list \<Rightarrow>
   (OrderStatus \<times> Fill list) list option" where
  "differential index step [] engine b issued_ids = Some []"
| "differential index step (Add side price qty trader # ops) engine b issued_ids = do {
     let order_id = word_of_nat step + 1;
     order \<leftarrow> Order_new order_id trader side price qty order_id;
     let issued_ids = issued_ids @ [order_id];
     let (b, ref_status, ref_fills) = ref_add b order;
     (engine, r) \<leftarrow> add_order engine order;
     case r of
       Inl _ \<Rightarrow> None
     | Inr res \<Rightarrow>
         if r_status res = ref_status \<and> r_fills res = ref_fills \<and> agree engine b then do {
           transcript \<leftarrow> differential index (step + 1) ops engine b issued_ids;
           Some ((r_status res, r_fills res) # transcript)
         } else None
   }"
| "differential index step (Cancel idx # ops) engine b issued_ids =
     (if issued_ids = [] then differential index (step + 1) ops engine b issued_ids
      else do {
        order_id \<leftarrow> vec_get issued_ids (index idx (length issued_ids));
        let (b, ref_result) = ref_cancel b order_id;
        (engine, r) \<leftarrow> engine_cancel_order engine order_id;
        let eng_result = (case r of Inl _ \<Rightarrow> None | Inr x \<Rightarrow> Some x);
        if eng_result = ref_result \<and> agree engine b then differential index (step + 1) ops engine b issued_ids
        else None
      })"

definition run_differential ::
  "(nat \<Rightarrow> nat \<Rightarrow> nat) \<Rightarrow> u32 \<Rightarrow> Op list \<Rightarrow> (OrderStatus \<times> Fill list) list option" where
  "run_differential index arena_capacity ops =
     differential index 0 ops (MatchingEngine_with_capacity arena_capacity) ReferenceBook_default []"

section \<open>The vector as two queues\<close>

abbreviation order_key :: "Side \<Rightarrow> Order \<Rightarrow> int" where
  "order_key s x \<equiv> prio_key s (o_price x)"

definition ref_view :: "RestingEntry list \<Rightarrow> sides" where
  "ref_view v s = sort_key (order_key s) (filter (\<lambda>x. o_side x = s) (map rs_order v))"

text \<open>Ages grow along the vector, and no two orders share an id.\<close>

definition ref_keys :: "RestingEntry list \<Rightarrow> (u64 \<times> u64) list" where
  "ref_keys v = map (\<lambda>r. (rs_seq r, o_id (rs_order r))) v"

definition keys_ok :: "(u64 \<times> u64) list \<Rightarrow> bool" where
  "keys_ok ks \<longleftrightarrow> sorted_wrt (\<lambda>a b. fst a < fst b) ks \<and> distinct (map snd ks)"

lemma keys_ok_remove: "keys_ok (as @ k # bs) \<Longrightarrow> keys_ok (as @ bs)"
  by (auto simp: keys_ok_def sorted_wrt_append)

lemma sort_key_stable': "filter (\<lambda>y. k = f y) (sort_key f xs) = filter (\<lambda>y. k = f y) xs"
  using sort_key_stable [of f k xs] by (simp add: eq_commute)

lemma sort_key_first:
  assumes "\<forall>a\<in>set as. f x < f a" "\<forall>b\<in>set bs. f x \<le> f b"
  shows "sort_key f (as @ x # bs) = x # sort_key f (as @ bs)"
proof (rule properties_for_sort_key)
  have "filter (\<lambda>y. f x = f y) as = []" using assms(1) by (auto simp: filter_empty_conv)
  then show "filter (\<lambda>y. f k = f y) (x # sort_key f (as @ bs)) = filter (\<lambda>y. f k = f y) (as @ x # bs)"
    if "k \<in> set (x # sort_key f (as @ bs))" for k
    by (auto simp: sort_key_stable')
  show "sorted (map f (x # sort_key f (as @ bs)))" using assms by (auto intro: less_imp_le)
qed simp

lemma enqueue_sort:
  assumes "o_side x = s"
  shows "enqueue x (sort_key (order_key s) xs) = sort_key (order_key s) (xs @ [x])"
proof (rule prio_sorted_unique [where s = s])
  have s: "prio_sorted (o_side x) (sort_key (order_key s) ys)" for ys using assms by (simp add: prio_sorted_def)
  then show "prio_sorted s (enqueue x (sort_key (order_key s) xs))" "prio_sorted s (sort_key (order_key s) (xs @ [x]))"
    using prio_sorted_enqueue assms by auto
  have stable: "filter (\<lambda>y. o_price y = p) (sort_key (order_key s) ys) = filter (\<lambda>y. o_price y = p) ys" for ys p
    using sort_key_stable [of "order_key s" "prio_key s p" ys] by (simp add: eq_commute)
  show "filter (\<lambda>y. o_price y = p) (enqueue x (sort_key (order_key s) xs)) =
      filter (\<lambda>y. o_price y = p) (sort_key (order_key s) (xs @ [x]))" for p
    using filter_enqueue_at [OF s, of xs] filter_enqueue_other [of p x]
    by (cases "p = o_price x") (auto simp: stable)
qed

section \<open>The best maker\<close>

lemma better_key:
  "\<not> rs_seq r < rs_seq cur \<Longrightarrow>
   better s r cur \<longleftrightarrow> order_key s (rs_order r) < order_key s (rs_order cur)"
  by (cases s) (auto simp: better_def Let_def not_le [symmetric])

lemma keys_ok_seq: "keys_ok (ref_keys v) \<Longrightarrow> i < j \<Longrightarrow> j < length v \<Longrightarrow> rs_seq (v ! i) < rs_seq (v ! j)"
  by (auto simp: keys_ok_def ref_keys_def sorted_wrt_iff_nth_less)

text \<open>The first of the best: better than what comes before, not worse than what comes after.\<close>

definition is_best :: "RestingEntry list \<Rightarrow> Side \<Rightarrow> nat \<Rightarrow> nat \<Rightarrow> bool" where
  "is_best v s n i \<longleftrightarrow> i < n \<and> o_side (rs_order (v ! i)) = s \<and>
     (\<forall>j<n. o_side (rs_order (v ! j)) = s \<longrightarrow>
        (j < i \<longrightarrow> order_key s (rs_order (v ! i)) < order_key s (rs_order (v ! j))) \<and>
        order_key s (rs_order (v ! i)) \<le> order_key s (rs_order (v ! j)))"

lemma best_scan:
  assumes "keys_ok (ref_keys v)"
  shows "n \<le> length v \<Longrightarrow>
    (case fold (best_turn v s) (enumerate 0 (take n v)) None of
       None \<Rightarrow> \<forall>j<n. o_side (rs_order (v ! j)) \<noteq> s | Some i \<Rightarrow> is_best v s n i)"
proof (induction n)
  case (Suc n)
  let ?best = "fold (best_turn v s) (enumerate 0 (take n v)) None"
  have split: "fold (best_turn v s) (enumerate 0 (take (Suc n) v)) None = best_turn v s (n, v ! n) ?best"
    using Suc.prems by (simp add: take_Suc_conv_app_nth enumerate_append_eq)
  show ?case
  proof (cases ?best)
    case None
    then show ?thesis
      using Suc unfolding split by (auto simp: best_turn_def is_best_def less_Suc_eq)
  next
    case (Some i)
    then have i: "is_best v s n i" using Suc by simp
    then have "better s (v ! n) (v ! i) \<longleftrightarrow> order_key s (rs_order (v ! n)) < order_key s (rs_order (v ! i))"
      using keys_ok_seq [OF assms, of i n] Suc.prems by (intro better_key) (auto simp: is_best_def)
    with i show ?thesis
      unfolding split Some by (auto simp: best_turn_def is_best_def less_Suc_eq)
  qed
qed simp

lemma best_index_best: "keys_ok (ref_keys v) \<Longrightarrow> best_index v s = Some i \<Longrightarrow> is_best v s (length v) i"
  using best_scan [of v "length v" s] by (simp add: best_index_def)

lemma best_index_none: "keys_ok (ref_keys v) \<Longrightarrow> best_index v s = None \<Longrightarrow> ref_view v s = []"
proof -
  assume "keys_ok (ref_keys v)" "best_index v s = None"
  then have "\<forall>j<length v. o_side (rs_order (v ! j)) \<noteq> s"
    using best_scan [of v "length v" s] by (simp add: best_index_def)
  then have "filter (\<lambda>x. o_side x = s) (map rs_order v) = []" by (auto simp: filter_empty_conv in_set_conv_nth)
  then show "ref_view v s = []" unfolding ref_view_def by (simp only: sort_key_simps)
qed

text \<open>The best maker is the front of the queue of its side, also after its quantity has changed.\<close>

lemma split_at: "i < length v \<Longrightarrow> v[i := r] = take i v @ r # drop (Suc i) v"
  by (simp add: upd_conv_take_nth_drop)

lemma ref_view_best:
  assumes "is_best v s (length v) i" "o_side (rs_order r) = s" "o_price (rs_order r) = o_price (rs_order (v ! i))"
  shows "ref_view (v[i := r]) s = rs_order r # ref_view (vec_remove v i) s"
    "s' \<noteq> s \<Longrightarrow> ref_view (v[i := r]) s' = ref_view (vec_remove v i) s'"
proof -
  have i: "i < length v" using assms(1) by (simp add: is_best_def)
  have "order_key s (rs_order r) < order_key s (rs_order a)" if "a \<in> set (take i v)" "o_side (rs_order a) = s" for a
    using that assms(1,3) i by (auto simp: is_best_def in_set_conv_nth)
  moreover have "order_key s (rs_order r) \<le> order_key s (rs_order b)" if "b \<in> set (drop (Suc i) v)" "o_side (rs_order b) = s" for b
    using that assms(1,3) i by (auto simp: is_best_def in_set_conv_nth)
  ultimately show "ref_view (v[i := r]) s = rs_order r # ref_view (vec_remove v i) s"
    using assms(2) by (auto simp: ref_view_def split_at [OF i] vec_remove_def intro!: sort_key_first)
  show "ref_view (v[i := r]) s' = ref_view (vec_remove v i) s'" if "s' \<noteq> s"
    using that assms(2) by (auto simp: ref_view_def split_at [OF i] vec_remove_def)
qed

lemma ref_keys_upd: "i < length v \<Longrightarrow> rs_seq r = rs_seq (v ! i) \<Longrightarrow> o_id (rs_order r) = o_id (rs_order (v ! i)) \<Longrightarrow>
    ref_keys (v[i := r]) = ref_keys v"
  unfolding ref_keys_def by (simp add: map_update list_update_same_conv)

lemma ref_keys_split:
  assumes "i < length v"
  shows "ref_keys v = ref_keys (take i v) @ (rs_seq (v ! i), o_id (rs_order (v ! i))) # ref_keys (drop (Suc i) v)"
  using arg_cong [OF id_take_nth_drop [OF assms], of ref_keys] by (simp add: ref_keys_def)

lemma ref_keys_remove:
  assumes "i < length v"
  shows "keys_ok (ref_keys v) \<Longrightarrow> keys_ok (ref_keys (vec_remove v i))"
    "set (ref_keys (vec_remove v i)) \<subseteq> set (ref_keys v)"
  using keys_ok_remove ref_keys_split [OF assms] by (auto simp: vec_remove_def ref_keys_def)

section \<open>The matching loops agree\<close>

lemma vec_remove_upd [simp]: "vec_remove (v[i := r]) i = vec_remove v i"
  by (simp add: vec_remove_def)

lemma ref_view_front:
  assumes "keys_ok (ref_keys v)" "ref_view v s = m # ms"
  obtains i where "best_index v s = Some i" "is_best v s (length v) i" "m = rs_order (v ! i)"
    "ms = ref_view (vec_remove v i) s" "\<And>s'. s' \<noteq> s \<Longrightarrow> ref_view (vec_remove v i) s' = ref_view v s'"
proof -
  obtain i where i: "best_index v s = Some i" using best_index_none [OF assms(1)] assms(2) by fastforce
  note best = best_index_best [OF assms(1) i]
  then have "o_side (rs_order (v ! i)) = s" by (simp add: is_best_def)
  from ref_view_best [OF best this] show thesis using assms(2) i best by (intro that [of i]) simp_all
qed

lemma ref_match_none:
  assumes "keys_ok (ref_keys v)" "ref_view v (opposite (o_side t)) = []"
  shows "ref_match v t fills = (v, t, fills, False)"
proof (cases "best_index v (opposite (o_side t))")
  case None
  then show ?thesis by (simp add: ref_match.simps [of v])
next
  case (Some i)
  then have "is_best v (opposite (o_side t)) (length v) i" by (rule best_index_best [OF assms(1)])
  then show ?thesis using ref_view_best(1) [of v _ i "v ! i"] assms(2) by (simp add: is_best_def)
qed

lemma ref_match_turn:
  assumes "best_index v (opposite (o_side t)) = Some i" "m = rs_order (v ! i)"
  shows "o_quantity t = 0 \<or> \<not> crosses t (o_price m) \<Longrightarrow> ref_match v t fills = (v, t, fills, False)"
    "o_quantity t \<noteq> 0 \<Longrightarrow> crosses t (o_price m) \<Longrightarrow> o_trader_id m = o_trader_id t \<Longrightarrow>
      ref_match v t fills = (v, t, fills, True)"
    "o_quantity t \<noteq> 0 \<Longrightarrow> crosses t (o_price m) \<Longrightarrow> o_trader_id m \<noteq> o_trader_id t \<Longrightarrow> o_quantity m \<le> o_quantity t \<Longrightarrow>
      ref_match v t fills =
        ref_match (vec_remove v i) (t\<lparr>o_quantity := o_quantity t - o_quantity m\<rparr>) (fills @ [fill_of t m])"
    "o_quantity t \<noteq> 0 \<Longrightarrow> crosses t (o_price m) \<Longrightarrow> o_trader_id m \<noteq> o_trader_id t \<Longrightarrow> o_quantity t < o_quantity m \<Longrightarrow>
      ref_match v t fills = (v[i := (v ! i)\<lparr>rs_order := m\<lparr>o_quantity := o_quantity m - o_quantity t\<rparr>\<rparr>],
        t\<lparr>o_quantity := 0\<rparr>, fills @ [fill_of t m], False)"
proof -
  have cr: "(case o_side t of Bid \<Rightarrow> o_price (rs_order (v ! i)) \<le> o_price t | Ask \<Rightarrow> o_price t \<le> o_price (rs_order (v ! i))) =
      crosses t (o_price m)" by (simp add: crosses_def assms(2))
  note loop = ref_match.simps [of v t fills]
  show "o_quantity t = 0 \<or> \<not> crosses t (o_price m) \<Longrightarrow> ref_match v t fills = (v, t, fills, False)"
    "o_quantity t \<noteq> 0 \<Longrightarrow> crosses t (o_price m) \<Longrightarrow> o_trader_id m = o_trader_id t \<Longrightarrow>
      ref_match v t fills = (v, t, fills, True)"
    unfolding loop using assms cr by (auto simp: Let_def)
  show "ref_match v t fills =
      ref_match (vec_remove v i) (t\<lparr>o_quantity := o_quantity t - o_quantity m\<rparr>) (fills @ [fill_of t m])"
    if "o_quantity t \<noteq> 0" "crosses t (o_price m)" "o_trader_id m \<noteq> o_trader_id t" "o_quantity m \<le> o_quantity t"
    unfolding loop using that assms cr by (simp add: Let_def min_absorb2 fill_of_def)
  show "ref_match v t fills = (v[i := (v ! i)\<lparr>rs_order := m\<lparr>o_quantity := o_quantity m - o_quantity t\<rparr>\<rparr>],
      t\<lparr>o_quantity := 0\<rparr>, fills @ [fill_of t m], False)"
    if "o_quantity t \<noteq> 0" "crosses t (o_price m)" "o_trader_id m \<noteq> o_trader_id t" "o_quantity t < o_quantity m"
  proof -
    have "o_quantity m - o_quantity t \<noteq> 0" "\<not> o_quantity m \<le> o_quantity t" using that(4) by auto
    then show ?thesis
      unfolding loop using that assms cr by (auto simp: Let_def min_absorb1 fill_of_def ref_match.simps [of "v[i := r]" for r])
  qed
qed

lemma ref_match_list:
  assumes "keys_ok (ref_keys v)" "match_list t (ref_view v (opposite (o_side t))) = (rest, fs, t', st)"
  shows "\<exists>v'. ref_match v t fills = (v', t', fills @ fs, st) \<and> ref_view v' = (ref_view v)(opposite (o_side t) := rest) \<and>
    keys_ok (ref_keys v') \<and> set (ref_keys v') \<subseteq> set (ref_keys v)"
  using assms
proof (induction "ref_view v (opposite (o_side t))" arbitrary: v t fills rest fs t' st)
  case Nil
  then show ?case using ref_match_none by (auto simp: fun_upd_idem)
next
  case (Cons m ms)
  let ?s = "opposite (o_side t)"
  note q = Cons.hyps(2) [symmetric]
  obtain i where i: "best_index v ?s = Some i" "is_best v ?s (length v) i" "m = rs_order (v ! i)"
    "ms = ref_view (vec_remove v i) ?s" "\<And>s'. s' \<noteq> ?s \<Longrightarrow> ref_view (vec_remove v i) s' = ref_view v s'"
    using ref_view_front [OF Cons.prems(1) q] by blast
  have len: "i < length v" "o_side m = ?s" using i(2,3) by (auto simp: is_best_def)
  note turn = ref_match_turn [OF i(1,3), of fills]
  from Cons.prems(2) [unfolded q] show ?case
  proof (cases rule: match_list_ConsE)
    case stop
    then show ?thesis using turn(1) Cons.prems(1) q by (auto simp: fun_upd_idem)
  next
    case self
    then show ?thesis using turn(2) Cons.prems(1) q by (auto simp: fun_upd_idem)
  next
    case (full fs1)
    let ?t = "t\<lparr>o_quantity := o_quantity t - o_quantity m\<rparr>"
    have "\<exists>v'. ref_match (vec_remove v i) ?t (fills @ [fill_of t m]) = (v', t', (fills @ [fill_of t m]) @ fs1, st) \<and>
        ref_view v' = (ref_view (vec_remove v i))(opposite (o_side ?t) := rest) \<and> keys_ok (ref_keys v') \<and>
        set (ref_keys v') \<subseteq> set (ref_keys (vec_remove v i))"
      by (rule Cons.hyps(1)) (use i(4) full(6) ref_keys_remove(1) [OF len(1) Cons.prems(1)] in simp_all)
    moreover have "(ref_view (vec_remove v i))(?s := rest) = (ref_view v)(?s := rest)" using i(5) by (auto simp: fun_eq_iff)
    ultimately show ?thesis using turn(3) [OF full(1-4)] full(5) ref_keys_remove(2) [OF len(1)] by auto
  next
    case part
    let ?r = "(v ! i)\<lparr>rs_order := m\<lparr>o_quantity := o_quantity m - o_quantity t\<rparr>\<rparr>"
    have "ref_view (v[i := ?r]) = (ref_view v)(?s := rest)"
      using ref_view_best [OF i(2), of ?r] len i(3-5) part(5) by (auto simp: fun_eq_iff)
    moreover have "ref_keys (v[i := ?r]) = ref_keys v" using len i(3) by (intro ref_keys_upd) simp_all
    ultimately show ?thesis using turn(4) [OF part(1-4)] part(6-8) Cons.prems(1) by simp
  qed
qed

section \<open>Cancelling, best prices and the canonical order\<close>

lemma position_split:
  "position P v = Some i \<Longrightarrow> i < length v \<and> P (v ! i)" "position P v = None \<longleftrightarrow> (\<forall>x\<in>set v. \<not> P x)"
  by (induction v arbitrary: i) (auto split: if_splits)

lemma ref_view_remove:
  assumes "keys_ok (ref_keys v)" "i < length v" "k = o_id (rs_order (v ! i))"
  shows "ref_view (vec_remove v i) s = filter (\<lambda>x. o_id x \<noteq> k) (ref_view v s)"
proof -
  have "distinct (map (\<lambda>r. o_id (rs_order r)) v)" using assms(1) by (simp add: keys_ok_def ref_keys_def comp_def)
  then have "distinct (map (\<lambda>r. o_id (rs_order r)) (take i v @ v ! i # drop (Suc i) v))"
    using id_take_nth_drop [OF assms(2)] by simp
  from filter_distinct_mid [OF this] have "filter (\<lambda>r. o_id (rs_order r) \<noteq> k) v = vec_remove v i"
    using id_take_nth_drop [OF assms(2)] assms(3) by (simp add: vec_remove_def)
  then show ?thesis
    by (auto simp: ref_view_def filter_sort filter_map comp_def conj_commute simp flip: \<open>_ = vec_remove v i\<close>)
qed

lemma sort_key_age:
  assumes "sorted_wrt (\<lambda>a b. rs_seq a < rs_seq b) xs"
  shows "sort_key (\<lambda>r. (f r, rs_seq r)) xs = sort_key f xs"
  using assms
proof (induction xs)
  case (Cons x xs)
  have "insort_key (\<lambda>r. (f r, rs_seq r)) x zs = insort_key f x zs" if "\<forall>z\<in>set zs. rs_seq x < rs_seq z" for zs
    using that by (induction zs) (auto simp: less_imp_le)
  then show ?case using Cons by simp
qed simp

lemma map_sort_key: "map g (sort_key (\<lambda>x. f (g x)) xs) = sort_key f (map g xs)"
proof (induction xs)
  case (Cons x xs)
  have "map g (insort_key (\<lambda>x. f (g x)) x zs) = insort_key f (g x) (map g zs)" for zs
    by (induction zs) auto
  then show ?case using Cons by simp
qed simp

lemma sort_key_cong_order: "(\<And>x y. f x \<le> f y \<longleftrightarrow> g x \<le> g y) \<Longrightarrow> sort_key f xs = sort_key g xs"
proof (induction xs)
  case (Cons x xs)
  have "insort_key f x zs = insort_key g x zs" for zs using Cons.prems by (induction zs) auto
  then show ?case using Cons by simp
qed simp

lemma ref_view_aged:
  assumes "keys_ok (ref_keys v)"
  shows "map rs_order (sort_key (\<lambda>r. (prio_key s (o_price (rs_order r)), rs_seq r)) (filter (\<lambda>r. o_side (rs_order r) = s) v)) =
    ref_view v s"
proof -
  have "sorted_wrt (\<lambda>a b. rs_seq a < rs_seq b) v"
    using assms by (simp add: keys_ok_def ref_keys_def sorted_wrt_map)
  then have "sorted_wrt (\<lambda>a b. rs_seq a < rs_seq b) (filter (\<lambda>r. o_side (rs_order r) = s) v)"
    by (rule sorted_wrt_filter)
  then show ?thesis
    by (simp add: sort_key_age map_sort_key [of rs_order "order_key s"] ref_view_def filter_map comp_def)
qed

lemma canonical_view: "keys_ok (ref_keys (rf_resting b)) \<Longrightarrow> canonical b = ref_view (rf_resting b) Ask @ ref_view (rf_resting b) Bid"
proof -
  assume "keys_ok (ref_keys (rf_resting b))"
  note view = ref_view_aged [OF this]
  have "sort_key (\<lambda>r. (o_price (rs_order r), rs_seq r)) xs = sort_key (\<lambda>r. (prio_key Ask (o_price (rs_order r)), rs_seq r)) xs" for xs :: "RestingEntry list"
    by (rule sort_key_cong_order) (auto simp: not_le [symmetric])
  then show ?thesis unfolding canonical_def Let_def map_append by (simp only: view)
qed

lemma ref_view_in: "x \<in> set (ref_view v s) \<longleftrightarrow> x \<in> rs_order ` set v \<and> o_side x = s"
  by (auto simp: ref_view_def)

lemma ref_view_size: "view_size (ref_view v) = length v"
proof -
  have "length (filter (\<lambda>x. o_side x = Ask) xs) + length (filter (\<lambda>x. o_side x = Bid) xs) = length xs" for xs
  proof (induction xs)
    case (Cons x xs)
    then show ?case by (cases "o_side x") auto
  qed simp
  from this [of "map rs_order v"] show ?thesis by (simp add: view_size_def ref_view_def)
qed

lemma ref_view_ids: "view_ids (ref_view v) = snd ` set (ref_keys v)"
proof -
  have side: "s = Ask" if "s \<noteq> Bid" for s using that by (cases s) auto
  have "set (ref_view v Ask) \<union> set (ref_view v Bid) = rs_order ` set v" by (auto simp: ref_view_in dest: side)
  then show ?thesis by (simp add: view_ids_def ref_keys_def image_image)
qed

lemma ref_view_head:
  "ref_view (rf_resting b) s = [] \<Longrightarrow> side_prices b s = []"
  "ref_view (rf_resting b) s = h # hs \<Longrightarrow>
    o_price h \<in> set (side_prices b s) \<and> (\<forall>p\<in>set (side_prices b s). prio_key s (o_price h) \<le> prio_key s p)"
proof -
  let ?xs = "filter (\<lambda>x. o_side x = s) (map rs_order (rf_resting b))"
  have "set (ref_view (rf_resting b) s) = set ?xs" "sorted (map (order_key s) (ref_view (rf_resting b) s))"
    by (simp_all add: ref_view_def)
  moreover have "set (side_prices b s) = o_price ` set ?xs" by (simp only: side_prices_def set_map)
  ultimately have prices: "set (side_prices b s) = o_price ` set (ref_view (rf_resting b) s)"
    "sorted (map (order_key s) (ref_view (rf_resting b) s))" by simp_all
  show "ref_view (rf_resting b) s = [] \<Longrightarrow> side_prices b s = []"
    "ref_view (rf_resting b) s = h # hs \<Longrightarrow>
      o_price h \<in> set (side_prices b s) \<and> (\<forall>p\<in>set (side_prices b s). prio_key s (o_price h) \<le> prio_key s p)"
    using prices by auto
qed

lemma ref_best:
  "ref_best_bid b = (case ref_view (rf_resting b) Bid of [] \<Rightarrow> None | x # _ \<Rightarrow> Some (o_price x))"
  "ref_best_ask b = (case ref_view (rf_resting b) Ask of [] \<Rightarrow> None | x # _ \<Rightarrow> Some (o_price x))"
proof -
  have "fold max ps p = o_price h" if "ref_view (rf_resting b) Bid = h # hs" "side_prices b Bid = p # ps" for h hs p ps
    unfolding Max.set_eq_fold [symmetric] using ref_view_head(2) [OF that(1)] that(2) by (intro Max_eqI) auto
  then show "ref_best_bid b = (case ref_view (rf_resting b) Bid of [] \<Rightarrow> None | x # _ \<Rightarrow> Some (o_price x))"
    using ref_view_head [where b = b and s = Bid] by (fastforce simp: ref_best_bid_def split: list.split)
  have "fold min ps p = o_price h" if "ref_view (rf_resting b) Ask = h # hs" "side_prices b Ask = p # ps" for h hs p ps
    unfolding Min.set_eq_fold [symmetric] using ref_view_head(2) [OF that(1)] that(2) by (intro Min_eqI) auto
  then show "ref_best_ask b = (case ref_view (rf_resting b) Ask of [] \<Rightarrow> None | x # _ \<Rightarrow> Some (o_price x))"
    using ref_view_head [where b = b and s = Ask] by (fastforce simp: ref_best_ask_def split: list.split)
qed

section \<open>Engine and reference, step by step\<close>

text \<open>The engine and the reference after \<open>n\<close> operations.\<close>

definition linked :: "nat \<Rightarrow> nat \<Rightarrow> MatchingEngine \<Rightarrow> ReferenceBook \<Rightarrow> bool" where
  "linked cap n e b \<longleftrightarrow> engine_ok e \<and> engine_capacity e = cap \<and> engine_view e = ref_view (rf_resting b) \<and>
     keys_ok (ref_keys (rf_resting b)) \<and> unat (rf_next_seq b) \<le> n \<and>
     (\<forall>(q, k)\<in>set (ref_keys (rf_resting b)). q < rf_next_seq b \<and> k \<in> word_of_nat ` {1..n})"

lemma linked_agree:
  assumes "linked cap n e b"
  shows "agree e b"
proof -
  have ok: "book_ok (e_book e)" and view: "side_orders (e_book e) = ref_view (rf_resting b)"
    and keys: "keys_ok (ref_keys (rf_resting b))"
    using assms by (auto simp: linked_def engine_ok_def engine_view_def)
  have "order_count (e_book e) = length (rf_resting b)"
    using order_count_side_orders [OF ok] ref_view_size [of "rf_resting b"] by (simp add: view view_size_def)
  then show ?thesis
    by (simp add: agree_def best_cached ob.best_front [OF ok] view ref_best all_resting_orders_eq [OF ok] canonical_view [OF keys])
qed

lemma linked_Suc: "linked cap n e b \<Longrightarrow> linked cap (Suc n) e b"
proof -
  have "word_of_nat ` {1..n} \<subseteq> (word_of_nat ` {1..Suc n} :: u64 set)" by (intro image_mono) auto
  then show "linked cap n e b \<Longrightarrow> linked cap (Suc n) e b" by (fastforce simp: linked_def)
qed

lemma keys_length:
  assumes "keys_ok (ref_keys v)" "snd ` set (ref_keys v) \<subseteq> word_of_nat ` {1..n}"
  shows "length v \<le> n"
proof -
  have "distinct (map snd (ref_keys v))" using assms(1) by (simp add: keys_ok_def)
  from distinct_card [OF this] have "length v = card (set (map snd (ref_keys v)))"
    by (simp only: length_map ref_keys_def)
  also have "\<dots> \<le> card (word_of_nat ` {1..n} :: u64 set)" using assms(2) by (intro card_mono) auto
  also have "\<dots> \<le> n" using card_image_le [of "{1..n}" "word_of_nat :: nat \<Rightarrow> u64"] by simp
  finally show ?thesis .
qed

text \<open>What an addition makes of the reference, on the queues.\<close>

lemma linked_shrink:
  assumes "linked cap n e b" "keys_ok (ref_keys v)" "set (ref_keys v) \<subseteq> set (ref_keys (rf_resting b))"
    and "engine_ok e'" "engine_capacity e' = cap" "engine_view e' = ref_view v"
  shows "linked cap (Suc n) e' (b\<lparr>rf_resting := v\<rparr>)"
proof (rule linked_Suc)
  show "linked cap n e' (b\<lparr>rf_resting := v\<rparr>)"
    using assms unfolding linked_def by auto
qed

lemma linked_rest:
  assumes "linked cap n e b" "keys_ok (ref_keys v)" "set (ref_keys v) \<subseteq> set (ref_keys (rf_resting b))"
    and "engine_ok e'" "engine_capacity e' = cap" "Suc n < 2 ^ 64" "o_id x = word_of_nat (Suc n)"
    and "engine_view e' = (ref_view v)(o_side x := enqueue x (ref_view v (o_side x)))"
  shows "linked cap (Suc n) e' (b\<lparr>rf_resting := v @ [\<lparr>rs_order = x, rs_seq = rf_next_seq b\<rparr>], rf_next_seq := rf_next_seq b + 1\<rparr>)"
proof -
  let ?r = "\<lparr>rs_order = x, rs_seq = rf_next_seq b\<rparr>"
  have keys: "ref_keys (v @ [?r]) = ref_keys v @ [(rf_next_seq b, word_of_nat (Suc n))]"
    using assms(7) by (simp add: ref_keys_def del: of_nat_Suc)
  have old: "q < rf_next_seq b \<and> k \<in> word_of_nat ` {1..n}" if "(q, k) \<in> set (ref_keys v)" for q k
    using that assms(1,3) by (auto simp: linked_def)
  have "unat (rf_next_seq b) \<le> n" using assms(1) by (simp add: linked_def)
  then have seq: "unat (rf_next_seq b + 1) = Suc (unat (rf_next_seq b))" using assms(6) by (simp add: unat_word_ariths)
  have "keys_ok (ref_keys (v @ [?r]))"
    unfolding keys using assms(2) old word_of_nat_fresh [where n = n and 'a = 64] assms(6)
    by (auto simp: keys_ok_def sorted_wrt_append simp del: of_nat_Suc)
  moreover have "q < rf_next_seq b + 1 \<and> k \<in> word_of_nat ` {1..Suc n}" if "(q, k) \<in> set (ref_keys (v @ [?r]))" for q k
  proof (cases "(q, k) \<in> set (ref_keys v)")
    case True
    have "word_of_nat ` {1..n} \<subseteq> (word_of_nat ` {1..Suc n} :: u64 set)" by (intro image_mono) auto
    then show ?thesis using old [OF True] seq by (auto simp: word_less_nat_alt)
  next
    case False
    then have "q = rf_next_seq b" "k = word_of_nat (Suc n)" using that by (simp_all add: keys del: of_nat_Suc)
    then show ?thesis using seq by (auto simp: word_less_nat_alt simp del: of_nat_Suc)
  qed
  moreover have "ref_view (v @ [?r]) = (ref_view v)(o_side x := enqueue x (ref_view v (o_side x)))"
    by (auto simp: ref_view_def enqueue_sort fun_eq_iff simp del: sort_key_simps)
  ultimately show ?thesis
    using assms(1,4,5,8) seq by (auto simp: linked_def)
qed

lemma linked_add:
  assumes "linked cap n e b" "n < cap" "Suc n < 2 ^ 64" "o_id t = word_of_nat (Suc n)" "o_quantity t \<noteq> 0"
  shows "\<exists>e' b' r. add_order e t = Some (e', Inr r) \<and> ref_add b t = (b', r_status r, r_fills r) \<and> linked cap (Suc n) e' b'"
proof -
  let ?o = "opposite (o_side t)" and ?v = "rf_resting b" and ?Q = "engine_view e"
  note l = assms(1) [unfolded linked_def]
  obtain rest fs t' st where ml: "match_list t (ref_view ?v ?o) = (rest, fs, t', st)" by (metis prod_cases4)
  obtain v where v: "ref_match ?v t [] = (v, t', fs, st)" "ref_view v = (ref_view ?v)(?o := rest)"
    "keys_ok (ref_keys v)" "set (ref_keys v) \<subseteq> set (ref_keys ?v)"
    using ref_match_list [OF _ ml, of "[]"] l by auto
  have t': "o_id t' = o_id t" "o_side t' = o_side t" using match_list_taker_fields [OF ml] by auto
  define Q' where "Q' = (if st \<or> o_quantity t' = 0 then ref_view v
    else (ref_view v)(o_side t' := enqueue t' (ref_view v (o_side t'))))"
  define r where "r = \<lparr>r_order_id = o_id t, r_status = (if st then CancelledSelfTrade else if o_quantity t' = 0 then FullyFilled
    else if fs = [] then Resting else PartiallyFilled), r_fills = fs\<rparr>"
  have ids: "snd ` set (ref_keys v) \<subseteq> word_of_nat ` {1..n}" using l v(4) by fastforce
  have fresh: "o_id t \<notin> view_ids (ref_view v)"
  proof -
    have "(word_of_nat (Suc n) :: u64) \<notin> word_of_nat ` {1..n}" using assms(3) by (intro word_of_nat_fresh) simp
    then show ?thesis using ids unfolding ref_view_ids assms(4) by blast
  qed
  have room: "view_size (ref_view v) \<noteq> cap"
    using keys_length [OF v(3) ids] assms(2) by (simp add: ref_view_size)
  have "add_spec cap ?Q t = (Q', Inr r)"
    using l ml v(2) fresh room assms(5) t' by (auto simp: add_spec_def Let_def Q'_def r_def)
  then obtain e' where e': "add_order e t = Some (e', Inr r)" "engine_ok e'" "engine_view e' = Q'" "engine_capacity e' = cap"
    using engine_add_order [of e t Q' "Inr r"] l by auto
  show ?thesis
  proof (cases "st \<or> o_quantity t' = 0")
    case True
    then have "ref_add b t = (b\<lparr>rf_resting := v\<rparr>, r_status r, r_fills r)" by (auto simp: ref_add_def v(1) r_def)
    moreover have "linked cap (Suc n) e' (b\<lparr>rf_resting := v\<rparr>)"
      using linked_shrink [OF assms(1) v(3,4) e'(2,4)] e'(3) True by (auto simp: Q'_def)
    ultimately show ?thesis using e'(1) by blast
  next
    case False
    let ?b = "b\<lparr>rf_resting := v @ [\<lparr>rs_order = t', rs_seq = rf_next_seq b\<rparr>], rf_next_seq := rf_next_seq b + 1\<rparr>"
    have "ref_add b t = (?b, r_status r, r_fills r)" using False by (auto simp: ref_add_def v(1) r_def Let_def)
    moreover have "linked cap (Suc n) e' ?b"
      using linked_rest [OF assms(1) v(3,4) e'(2,4) assms(3), of t'] e'(3) False t'(1) assms(4) by (simp add: Q'_def del: of_nat_Suc)
    ultimately show ?thesis using e'(1) by blast
  qed
qed

lemma linked_cancel:
  assumes "linked cap n e b"
  shows "\<exists>e' b' r. engine_cancel_order e k = Some (e', r) \<and>
    ref_cancel b k = (b', case r of Inl _ \<Rightarrow> None | Inr x \<Rightarrow> Some x) \<and> linked cap (Suc n) e' b'"
proof -
  let ?v = "rf_resting b" and ?Q = "engine_view e"
  note l = assms [unfolded linked_def]
  have Q: "?Q = ref_view ?v" and keys: "keys_ok (ref_keys ?v)" using l by auto
  have ids: "distinct (map o_id (?Q Ask @ ?Q Bid))"
    using l ob.queue_ids [of "e_book e"] by (auto simp: engine_ok_def engine_view_def)
  have in_Q: "x \<in> set (?Q Ask @ ?Q Bid) \<longleftrightarrow> x \<in> rs_order ` set ?v" for x
    unfolding Q by (cases "o_side x") (auto simp: ref_view_in)
  obtain Q' r where spec: "cancel_spec ?Q k = (Q', r)" by fastforce
  then obtain e' where e': "engine_cancel_order e k = Some (e', r)" "engine_ok e'" "engine_view e' = Q'" "engine_capacity e' = cap"
    using engine_cancel_order [of e k Q' r] l by auto
  show ?thesis
  proof (cases "position (\<lambda>r. o_id (rs_order r) = k) ?v")
    case None
    then have "\<forall>x\<in>set (?Q Ask @ ?Q Bid). o_id x \<noteq> k" unfolding Ball_def in_Q by (auto simp: position_split(2))
    then have "find (\<lambda>x. o_id x = k) (?Q Ask @ ?Q Bid) = None" by (auto simp: find_None_iff)
    then have "Q' = ?Q" "r = Inl (Book (OrderNotFound k))" using spec by (auto simp: cancel_spec_def)
    then show ?thesis
      using e' None linked_shrink [OF assms keys order_refl e'(2,4)] Q by (auto simp: ref_cancel_def)
  next
    case (Some i)
    let ?x = "rs_order (?v ! i)"
    have i: "i < length ?v" "o_id ?x = k" using position_split(1) [OF Some] by auto
    then have x: "?x \<in> set (?Q Ask @ ?Q Bid)" by (simp only: in_Q) auto
    have "find (\<lambda>x. o_id x = k) (?Q Ask @ ?Q Bid) = Some ?x" using find_unique [OF ids x i(2)] .
    then have r: "Q' = ?Q(o_side ?x := filter (\<lambda>y. o_id y \<noteq> k) (?Q (o_side ?x)))" "r = Inr ?x"
      using spec by (auto simp: cancel_spec_def)
    have "filter (\<lambda>y. o_id y \<noteq> k) (?Q s) = ?Q s" if "s \<noteq> o_side ?x" for s
    proof (rule filter_True, intro ballI notI)
      fix y assume y: "y \<in> set (?Q s)" "o_id y = k"
      then have "y \<in> set (?Q Ask @ ?Q Bid)" by (cases s) auto
      then have "y = ?x" using x ids y(2) i(2) by (metis distinct_map inj_onD)
      then show False using y(1) that unfolding Q by (simp add: ref_view_in)
    qed
    then have "Q' = ref_view (vec_remove ?v i)"
      using ref_view_remove [OF keys i(1) i(2) [symmetric]] unfolding r(1) Q by (auto simp: fun_eq_iff)
    then have "linked cap (Suc n) e' (b\<lparr>rf_resting := vec_remove ?v i\<rparr>)"
      using linked_shrink [OF assms _ _ e'(2,4)] ref_keys_remove [OF i(1)] keys e'(3) by auto
    then show ?thesis using e'(1) r(2) Some by (auto simp: ref_cancel_def)
  qed
qed

definition op_ok :: "Op \<Rightarrow> bool" where
  "op_ok x = (case x of Add _ _ qty _ \<Rightarrow> qty \<noteq> 0 | Cancel _ \<Rightarrow> True)"

lemma differential_ok:
  assumes "\<And>k n. 0 < n \<Longrightarrow> index k n < n"
  shows "linked cap n e b \<Longrightarrow> n + length ops \<le> cap \<Longrightarrow> n + length ops < 2 ^ 64 \<Longrightarrow> \<forall>x\<in>set ops. op_ok x \<Longrightarrow>
    \<exists>transcript. differential index n ops e b issued_ids = Some transcript"
proof (induction ops arbitrary: n e b issued_ids)
  case (Cons x ops)
  note room = Cons.prems(2,3)
  show ?case
  proof (cases x)
    case (Add side price qty trader)
    let ?k = "word_of_nat n + 1 :: u64"
    let ?t = "\<lparr>o_id = ?k, o_trader_id = trader, o_side = side, o_price = price, o_quantity = qty, o_timestamp = ?k\<rparr>"
    have qty: "qty \<noteq> 0" using Cons.prems(4) Add by (simp add: op_ok_def)
    obtain e' b' r where s: "add_order e ?t = Some (e', Inr r)" "ref_add b ?t = (b', r_status r, r_fills r)" "linked cap (Suc n) e' b'"
      using linked_add [OF Cons.prems(1), of ?t] room qty by auto
    obtain transcript where "differential index (Suc n) ops e' b' (issued_ids @ [?k]) = Some transcript"
      using Cons.IH [OF s(3), of "issued_ids @ [?k]"] room Cons.prems(4) by auto
    then show ?thesis
      using s(1,2) linked_agree [OF s(3)] qty Add by (simp add: Order_new_def Let_def)
  next
    case (Cancel idx)
    show ?thesis
    proof (cases "issued_ids = []")
      case True
      then show ?thesis using Cons.IH [OF linked_Suc [OF Cons.prems(1)]] room Cons.prems(4) Cancel by simp
    next
      case False
      let ?k = "issued_ids ! index idx (length issued_ids)"
      obtain e' b' r where s: "engine_cancel_order e ?k = Some (e', r)"
        "ref_cancel b ?k = (b', case r of Inl _ \<Rightarrow> None | Inr x \<Rightarrow> Some x)" "linked cap (Suc n) e' b'"
        using linked_cancel [OF Cons.prems(1)] by blast
      have "index idx (length issued_ids) < length issued_ids" using assms False by simp
      then show ?thesis
        using Cons.IH [OF s(3)] room Cons.prems(4) linked_agree [OF s(3)] s(1,2) Cancel False by (simp add: Let_def)
    qed
  qed
qed simp

lemma linked_start: "linked (unat c) 0 (MatchingEngine_with_capacity c) ReferenceBook_default"
  by (simp add: linked_def engine_with_capacity ReferenceBook_default_def ref_view_def ref_keys_def keys_ok_def fun_eq_iff)

text \<open>
  C3: The engine is equivalent to the reference model of its test suite. On any sequence of additions and
  cancellations that is not longer than the arena, the engine never refuses an order, and after every
  operation it agrees with the linear-scan book on the status and the fills, the result of a cancellation,
  the best prices, the number of resting orders and the whole book in canonical order: the differential
  test completes with a transcript.
\<close>

theorem engine_matches_reference_model:
  assumes "\<And>k n. 0 < n \<Longrightarrow> index k n < n" "\<forall>x\<in>set ops. op_ok x" "length ops \<le> unat arena_capacity"
  shows "\<exists>transcript. run_differential index arena_capacity ops = Some transcript"
proof -
  have "length ops < 2 ^ 64" using assms(3) u32_bound [of arena_capacity] by simp
  then show ?thesis
    unfolding run_differential_def
    using differential_ok [where index = index, OF assms(1) linked_start] assms(2,3) by simp
qed

theorem engine_matches_reference_model_witness:
  "\<exists>transcript. run_differential (\<lambda>k n. k mod n) 4
     [Add Ask (I64 100) 5 1, Add Bid (I64 100) 3 2, Cancel 0, Add Bid (I64 99) 1 1] = Some transcript"
  by (rule engine_matches_reference_model) (simp_all add: op_ok_def)

end
