(* ===== verification/Bytes.thy ===== *)
theory Bytes
  imports Prelude
begin

text \<open>
  Byte buffers as \<open>u8\<close> lists: the little-endian conversions \<open>to_le_bytes\<close> and \<open>from_le_bytes\<close> of the
  Rust integers, the range accesses \<open>buf.get(a..b)\<close> and \<open>buf[a..b].copy_from_slice\<close>, and the
  contract of a fixed-size field, from which the codecs of the wire protocol and of the
  write-ahead log are built.
\<close>

section \<open>Little-endian numbers\<close>

fun le_split :: "nat \<Rightarrow> nat \<Rightarrow> u8 list" where
  "le_split 0 n = []"
| "le_split (Suc k) n = word_of_nat n # le_split k (n div 256)"

fun le_join :: "u8 list \<Rightarrow> nat" where
  "le_join [] = 0"
| "le_join (b # bs) = unat b + 256 * le_join bs"

lemma length_le_split [simp]: "length (le_split k n) = k"
  by (induction k arbitrary: n) auto

lemma le_join_split: "le_join (le_split k n) = n mod 256 ^ k"
proof (induction k arbitrary: n)
  case (Suc k)
  have "unat (word_of_nat n :: u8) = n mod 256"
    by (simp add: unsigned_of_nat take_bit_eq_mod)
  then show ?case
    using Suc by (simp add: mod_mult2_eq)
qed simp

lemma le_join_bound: "le_join bs < 256 ^ length bs"
proof (induction bs)
  case (Cons b bs)
  have "unat b < 256" using unsigned_less [of b, where 'a = nat] by simp
  then show ?case using Cons by simp
qed simp

lemma le_split_join: "le_split (length bs) (le_join bs) = bs"
proof (induction bs)
  case (Cons b bs)
  have b: "unat b < 256" using unsigned_less [of b, where 'a = nat] by simp
  have z: "(256 :: u8) = 0" by code_simp
  have "(256 :: u8) * x = 0" for x unfolding z by simp
  then have "(word_of_nat (unat b + 256 * le_join bs) :: u8) = b" by simp
  moreover have "(unat b + 256 * le_join bs) div 256 = le_join bs"
    using b by simp
  ultimately show ?case using Cons by simp
qed simp

definition u32_to_le_bytes :: "u32 \<Rightarrow> u8 list" where "u32_to_le_bytes v = le_split 4 (unat v)"
definition u32_from_le_bytes :: "u8 list \<Rightarrow> u32" where "u32_from_le_bytes bs = word_of_nat (le_join bs)"
definition u64_to_le_bytes :: "u64 \<Rightarrow> u8 list" where "u64_to_le_bytes v = le_split 8 (unat v)"
definition u64_from_le_bytes :: "u8 list \<Rightarrow> u64" where "u64_from_le_bytes bs = word_of_nat (le_join bs)"
definition i64_to_le_bytes :: "i64 \<Rightarrow> u8 list" where "i64_to_le_bytes v = u64_to_le_bytes (i64_bits v)"
definition i64_from_le_bytes :: "u8 list \<Rightarrow> i64" where "i64_from_le_bytes bs = I64 (u64_from_le_bytes bs)"

section \<open>Ranges of a buffer\<close>

definition get_range :: "u8 list \<Rightarrow> nat \<Rightarrow> nat \<Rightarrow> u8 list option" where
  "get_range buf a n = (if a + n \<le> length buf then Some (take n (drop a buf)) else None)"

definition put_range :: "u8 list \<Rightarrow> nat \<Rightarrow> u8 list \<Rightarrow> u8 list option" where
  "put_range buf a bs =
     (if a + length bs \<le> length buf then Some (take a buf @ bs @ drop (a + length bs) buf) else None)"

lemma get_range_length: "get_range buf a n = Some bs \<Longrightarrow> length bs = n"
  by (auto simp: get_range_def split: if_splits)

lemma put_range_length: "put_range buf a bs = Some buf' \<Longrightarrow> length buf' = length buf"
  by (auto simp: put_range_def split: if_splits)

lemma put_range_total: "a + length bs \<le> length buf \<Longrightarrow> \<exists>buf'. put_range buf a bs = Some buf'"
  by (simp add: put_range_def)

lemma get_put_same: "put_range buf a bs = Some buf' \<Longrightarrow> get_range buf' a (length bs) = Some bs"
  by (auto simp: put_range_def get_range_def split: if_splits)

lemma get_put_other:
  assumes "put_range buf a bs = Some buf'" "c + n \<le> a \<or> a + length bs \<le> c"
  shows "get_range buf' c n = get_range buf c n"
proof (rule disjE [OF assms(2)])
  assume "c + n \<le> a"
  then show ?thesis
    using assms(1) by (auto simp: put_range_def get_range_def take_drop min_def split: if_splits)
next
  assume c: "a + length bs \<le> c"
  have "drop c (take a buf @ bs @ drop (a + length bs) buf) = drop c buf"
    if "a + length bs \<le> length buf"
    using that c by (simp add: add.commute)
  then show ?thesis
    using assms(1) by (auto simp: put_range_def get_range_def split: if_splits)
qed

lemma get_range_take: "a + n \<le> k \<Longrightarrow> k \<le> length buf \<Longrightarrow> get_range (take k buf) a n = get_range buf a n"
  by (simp add: get_range_def drop_take min_def)

lemma put_range_drop: "put_range buf a bs = Some buf' \<Longrightarrow> a + length bs \<le> k \<Longrightarrow> drop k buf' = drop k buf"
  by (auto simp: put_range_def split: if_splits)

lemma get_range_append: "a + n \<le> length xs \<Longrightarrow> get_range (xs @ ys) a n = get_range xs a n"
  by (simp add: get_range_def)

lemma get_range_append2: "get_range (xs @ ys) (length xs + a) n = get_range ys a n"
  by (simp add: get_range_def)

section \<open>Fields\<close>

text \<open>
  A field of \<open>size\<close> bytes: what is written can be read back, and every bit pattern is the image of
  a value. The lemmas say what a codec made of several fields needs: a written field reads back,
  and writing one field leaves the others.
\<close>

locale field =
  fixes size :: nat and enc :: "'v \<Rightarrow> u8 list" and dec :: "u8 list \<Rightarrow> 'v"
  assumes length_enc [simp]: "length (enc v) = size"
    and dec_enc [simp]: "dec (enc v) = v"
    and enc_dec: "length bs = size \<Longrightarrow> enc (dec bs) = bs"
begin

lemma enc_inj: "enc v = enc w \<longleftrightarrow> v = w"
  by (metis dec_enc)

lemma write_total: "a + size \<le> length buf \<Longrightarrow> \<exists>buf'. put_range buf a (enc v) = Some buf'"
  by (simp add: put_range_total)

lemma read_written:
  "put_range buf a (enc v) = Some buf' \<Longrightarrow> map_option dec (get_range buf' a size) = Some v"
  using get_put_same [of buf a "enc v"] by simp

lemma read_other:
  assumes "put_range buf a (enc v) = Some buf'" "c + n \<le> a \<or> a + size \<le> c"
  shows "get_range buf' c n = get_range buf c n"
  using get_put_other [OF assms(1)] assms(2) by simp

lemma rewrite_same:
  assumes "get_range buf a size = Some bs"
  shows "put_range buf a (enc (dec bs)) = Some buf"
proof -
  have "enc (dec bs) = bs" using get_range_length [OF assms] by (rule enc_dec)
  moreover have "take a buf @ take size (drop a buf) @ drop (a + size) buf = buf"
    by (metis append_assoc append_take_drop_id take_add)
  ultimately show ?thesis
    using assms by (auto simp: get_range_def put_range_def split: if_splits)
qed

end

interpretation f32: field 4 u32_to_le_bytes u32_from_le_bytes
proof unfold_locales
  fix v :: u32 and bs :: "u8 list"
  show "length (u32_to_le_bytes v) = 4" by (simp add: u32_to_le_bytes_def)
  show "u32_from_le_bytes (u32_to_le_bytes v) = v"
    using u32_bound [of v] by (simp add: u32_to_le_bytes_def u32_from_le_bytes_def le_join_split)
  show "length bs = 4 \<Longrightarrow> u32_to_le_bytes (u32_from_le_bytes bs) = bs"
    using le_join_bound [of bs] le_split_join [of bs]
    by (simp add: u32_to_le_bytes_def u32_from_le_bytes_def unat_word_of_nat)
qed

interpretation f64: field 8 u64_to_le_bytes u64_from_le_bytes
proof unfold_locales
  fix v :: u64 and bs :: "u8 list"
  show "length (u64_to_le_bytes v) = 8" by (simp add: u64_to_le_bytes_def)
  show "u64_from_le_bytes (u64_to_le_bytes v) = v"
    using u64_bound [of v] by (simp add: u64_to_le_bytes_def u64_from_le_bytes_def le_join_split)
  show "length bs = 8 \<Longrightarrow> u64_to_le_bytes (u64_from_le_bytes bs) = bs"
    using le_join_bound [of bs] le_split_join [of bs]
    by (simp add: u64_to_le_bytes_def u64_from_le_bytes_def unat_word_of_nat)
qed

interpretation fi64: field 8 i64_to_le_bytes i64_from_le_bytes
  by unfold_locales (simp_all add: i64_to_le_bytes_def i64_from_le_bytes_def f64.enc_dec)

interpretation f8: field 1 "\<lambda>b. [b]" hd
  by unfold_locales (auto simp: length_Suc_conv)

end
