(* ===== verification/Protocol.thy ===== *)
theory Protocol
  imports Bytes Matching
begin

text \<open>
  \<open>src/protocol.rs\<close>: the binary wire format. Offsets and sizes are small constants, so \<open>usize\<close> is
  \<open>nat\<close> here. A function that writes to \<open>buf: &mut [u8]\<close> returns the buffer beside its \<open>Result\<close>.

  The lemmas show that each message reads back as it was written, from a buffer of any length that
  holds it, that bytes beyond the message are neither touched nor read, and which inputs each
  decoder refuses, and why.
\<close>

section \<open>The code\<close>

definition MSG_NEW_ORDER :: u8 where "MSG_NEW_ORDER = 1"
definition MSG_CANCEL_ORDER :: u8 where "MSG_CANCEL_ORDER = 2"
definition MSG_EXECUTION_REPORT :: u8 where "MSG_EXECUTION_REPORT = 3"

definition NEW_ORDER_SIZE :: nat where "NEW_ORDER_SIZE = 40"
definition CANCEL_ORDER_SIZE :: nat where "CANCEL_ORDER_SIZE = 16"
definition EXECUTION_REPORT_SIZE :: nat where "EXECUTION_REPORT_SIZE = 48"

datatype EngineCommand = NewOrder Order | CancelOrder u64

record ExecutionReport =
  x_seq_num :: u32
  x_taker_order_id :: u64
  x_maker_order_id :: u64
  x_price :: i64
  x_quantity :: u64
  x_timestamp :: u64

datatype ProtocolError =
    BufferTooShort
  | UnknownMessageType u8
  | InvalidSide u8
  | PZeroQuantity

definition read_u8 :: "u8 list \<Rightarrow> nat \<Rightarrow> ProtocolError + u8" where
  "read_u8 buf offset = ok_or (map_option hd (get_range buf offset 1)) BufferTooShort"

definition read_u32 :: "u8 list \<Rightarrow> nat \<Rightarrow> ProtocolError + u32" where
  "read_u32 buf offset = ok_or (map_option u32_from_le_bytes (get_range buf offset 4)) BufferTooShort"

definition read_u64 :: "u8 list \<Rightarrow> nat \<Rightarrow> ProtocolError + u64" where
  "read_u64 buf offset = ok_or (map_option u64_from_le_bytes (get_range buf offset 8)) BufferTooShort"

definition read_i64 :: "u8 list \<Rightarrow> nat \<Rightarrow> ProtocolError + i64" where
  "read_i64 buf offset = ok_or (map_option i64_from_le_bytes (get_range buf offset 8)) BufferTooShort"

type_synonym 'a write_result = "u8 list \<times> (ProtocolError + 'a)"

definition write_bytes :: "u8 list \<Rightarrow> nat \<Rightarrow> u8 list \<Rightarrow> unit write_result" where
  "write_bytes buf offset bs =
     (case put_range buf offset bs of
        None \<Rightarrow> (buf, Inl BufferTooShort)
      | Some buf' \<Rightarrow> (buf', Inr ()))"

definition write_u8 :: "u8 list \<Rightarrow> nat \<Rightarrow> u8 \<Rightarrow> unit write_result" where
  "write_u8 buf offset val = write_bytes buf offset [val]"

definition write_u32 :: "u8 list \<Rightarrow> nat \<Rightarrow> u32 \<Rightarrow> unit write_result" where
  "write_u32 buf offset val = write_bytes buf offset (u32_to_le_bytes val)"

definition write_u64 :: "u8 list \<Rightarrow> nat \<Rightarrow> u64 \<Rightarrow> unit write_result" where
  "write_u64 buf offset val = write_bytes buf offset (u64_to_le_bytes val)"

definition write_i64 :: "u8 list \<Rightarrow> nat \<Rightarrow> i64 \<Rightarrow> unit write_result" where
  "write_i64 buf offset val = write_bytes buf offset (i64_to_le_bytes val)"

text \<open>Sequencing of writes: \<open>write(buf, ..)?; rest\<close>.\<close>

definition then_write :: "unit write_result \<Rightarrow> (u8 list \<Rightarrow> 'a write_result) \<Rightarrow> 'a write_result" where
  "then_write w f = (case w of (buf, Inl e) \<Rightarrow> (buf, Inl e) | (buf, Inr _) \<Rightarrow> f buf)"

definition decode_side :: "u8 \<Rightarrow> ProtocolError + Side" where
  "decode_side val = (if val = 0 then Inr Bid else if val = 1 then Inr Ask else Inl (InvalidSide val))"

definition encode_side :: "Side \<Rightarrow> u8" where
  "encode_side side = (case side of Bid \<Rightarrow> 0 | Ask \<Rightarrow> 1)"

definition decode_new_order :: "u8 list \<Rightarrow> ProtocolError + Order" where
  "decode_new_order buf =
     (if length buf < NEW_ORDER_SIZE then Inl BufferTooShort
      else
        and_then (and_then (read_u8 buf 1) decode_side) (\<lambda>side.
        and_then (read_u64 buf 8) (\<lambda>order_id.
        and_then (read_u64 buf 16) (\<lambda>trader_id.
        and_then (read_i64 buf 24) (\<lambda>price.
        and_then (read_u64 buf 32) (\<lambda>quantity.
          if quantity = 0 then Inl PZeroQuantity
          else Inr \<lparr>o_id = order_id, o_trader_id = trader_id, o_side = side, o_price = price,
                    o_quantity = quantity, o_timestamp = 0\<rparr>))))))"

definition encode_new_order :: "u8 list \<Rightarrow> Order \<Rightarrow> nat write_result" where
  "encode_new_order buf order =
     (if length buf < NEW_ORDER_SIZE then (buf, Inl BufferTooShort)
      else
        let buf = replicate NEW_ORDER_SIZE 0 @ drop NEW_ORDER_SIZE buf in
        then_write (write_u8 buf 0 MSG_NEW_ORDER) (\<lambda>buf.
        then_write (write_u8 buf 1 (encode_side (o_side order))) (\<lambda>buf.
        then_write (write_u64 buf 8 (o_id order)) (\<lambda>buf.
        then_write (write_u64 buf 16 (o_trader_id order)) (\<lambda>buf.
        then_write (write_i64 buf 24 (o_price order)) (\<lambda>buf.
        then_write (write_u64 buf 32 (o_quantity order)) (\<lambda>buf.
          (buf, Inr NEW_ORDER_SIZE))))))))"

definition decode_cancel_order :: "u8 list \<Rightarrow> ProtocolError + u64" where
  "decode_cancel_order buf =
     (if length buf < CANCEL_ORDER_SIZE then Inl BufferTooShort else read_u64 buf 8)"

definition encode_cancel_order :: "u8 list \<Rightarrow> u64 \<Rightarrow> nat write_result" where
  "encode_cancel_order buf order_id =
     (if length buf < CANCEL_ORDER_SIZE then (buf, Inl BufferTooShort)
      else
        let buf = replicate CANCEL_ORDER_SIZE 0 @ drop CANCEL_ORDER_SIZE buf in
        then_write (write_u8 buf 0 MSG_CANCEL_ORDER) (\<lambda>buf.
        then_write (write_u64 buf 8 order_id) (\<lambda>buf.
          (buf, Inr CANCEL_ORDER_SIZE))))"

definition decode_message :: "u8 list \<Rightarrow> ProtocolError + EngineCommand" where
  "decode_message buf =
     and_then (read_u8 buf 0) (\<lambda>msg_type.
       if msg_type = MSG_NEW_ORDER then and_then (decode_new_order buf) (\<lambda>x. Inr (NewOrder x))
       else if msg_type = MSG_CANCEL_ORDER
       then and_then (decode_cancel_order buf) (\<lambda>k. Inr (CancelOrder k))
       else Inl (UnknownMessageType msg_type))"

definition message_size :: "u8 \<Rightarrow> ProtocolError + nat" where
  "message_size msg_type =
     (if msg_type = MSG_NEW_ORDER then Inr NEW_ORDER_SIZE
      else if msg_type = MSG_CANCEL_ORDER then Inr CANCEL_ORDER_SIZE
      else Inl (UnknownMessageType msg_type))"

definition encode_execution_report :: "u8 list \<Rightarrow> u32 \<Rightarrow> Fill \<Rightarrow> u64 \<Rightarrow> nat write_result" where
  "encode_execution_report buf seq_num fill timestamp =
     (if length buf < EXECUTION_REPORT_SIZE then (buf, Inl BufferTooShort)
      else
        let buf = replicate EXECUTION_REPORT_SIZE 0 @ drop EXECUTION_REPORT_SIZE buf in
        then_write (write_u8 buf 0 MSG_EXECUTION_REPORT) (\<lambda>buf.
        then_write (write_u32 buf 4 seq_num) (\<lambda>buf.
        then_write (write_u64 buf 8 (f_taker_order_id fill)) (\<lambda>buf.
        then_write (write_u64 buf 16 (f_maker_order_id fill)) (\<lambda>buf.
        then_write (write_i64 buf 24 (f_price fill)) (\<lambda>buf.
        then_write (write_u64 buf 32 (f_quantity fill)) (\<lambda>buf.
        then_write (write_u64 buf 40 timestamp) (\<lambda>buf.
          (buf, Inr EXECUTION_REPORT_SIZE)))))))))"

definition decode_execution_report :: "u8 list \<Rightarrow> ProtocolError + ExecutionReport" where
  "decode_execution_report buf =
     (if length buf < EXECUTION_REPORT_SIZE then Inl BufferTooShort
      else
        and_then (read_u32 buf 4) (\<lambda>seq_num.
        and_then (read_u64 buf 8) (\<lambda>taker_order_id.
        and_then (read_u64 buf 16) (\<lambda>maker_order_id.
        and_then (read_i64 buf 24) (\<lambda>price.
        and_then (read_u64 buf 32) (\<lambda>quantity.
        and_then (read_u64 buf 40) (\<lambda>timestamp.
          Inr \<lparr>x_seq_num = seq_num, x_taker_order_id = taker_order_id,
               x_maker_order_id = maker_order_id, x_price = price, x_quantity = quantity,
               x_timestamp = timestamp\<rparr>)))))))"

section \<open>The bytes of each message\<close>

lemmas size_defs = NEW_ORDER_SIZE_def CANCEL_ORDER_SIZE_def EXECUTION_REPORT_SIZE_def

lemmas tag_defs = MSG_NEW_ORDER_def MSG_CANCEL_ORDER_def MSG_EXECUTION_REPORT_def

lemmas read_defs = read_u8_def read_u32_def read_u64_def read_i64_def

lemmas write_defs = write_u8_def write_u32_def write_u64_def write_i64_def

definition new_order_bytes :: "Order \<Rightarrow> u8 list" where
  "new_order_bytes x = [MSG_NEW_ORDER, encode_side (o_side x)] @ replicate 6 0 @
     u64_to_le_bytes (o_id x) @ u64_to_le_bytes (o_trader_id x) @ i64_to_le_bytes (o_price x) @
     u64_to_le_bytes (o_quantity x)"

definition cancel_order_bytes :: "u64 \<Rightarrow> u8 list" where
  "cancel_order_bytes k = [MSG_CANCEL_ORDER] @ replicate 7 0 @ u64_to_le_bytes k"

definition report_bytes :: "u32 \<Rightarrow> Fill \<Rightarrow> u64 \<Rightarrow> u8 list" where
  "report_bytes n f ts = [MSG_EXECUTION_REPORT] @ replicate 3 0 @ u32_to_le_bytes n @
     u64_to_le_bytes (f_taker_order_id f) @ u64_to_le_bytes (f_maker_order_id f) @
     i64_to_le_bytes (f_price f) @ u64_to_le_bytes (f_quantity f) @ u64_to_le_bytes ts"

lemma length_message_bytes [simp]:
  "length (new_order_bytes x) = 40" "length (cancel_order_bytes k) = 16"
  "length (report_bytes n f ts) = 48"
  by (simp_all add: new_order_bytes_def cancel_order_bytes_def report_bytes_def)

text \<open>
  A message under construction: the fields written so far, zeros up to the message's size, and the
  rest of the buffer. Writing the next field appends it behind its padding.
\<close>

definition msg_buf :: "u8 list \<Rightarrow> nat \<Rightarrow> u8 list \<Rightarrow> u8 list" where
  "msg_buf xs n zs = xs @ replicate n 0 @ zs"

lemma then_write_msg [bytes_simps]:
  assumes "length xs \<le> off" "off - length xs + length bs \<le> n"
  shows "then_write (write_bytes (msg_buf xs n zs) off bs) f =
    f (msg_buf (xs @ replicate (off - length xs) 0 @ bs) (n - (off - length xs + length bs)) zs)"
proof -
  have "off + length bs \<le> length (msg_buf xs n zs)"
    using assms by (simp add: msg_buf_def)
  then show ?thesis
    using assms by (simp add: then_write_def write_bytes_def put_range_def) (simp add: msg_buf_def)
qed

lemma msg_buf_start: "replicate n 0 @ zs = msg_buf [] n zs"
  by (simp add: msg_buf_def)

lemma encode_new_order_bytes:
  "NEW_ORDER_SIZE \<le> length buf \<Longrightarrow>
   encode_new_order buf x = (new_order_bytes x @ drop NEW_ORDER_SIZE buf, Inr NEW_ORDER_SIZE)"
  unfolding encode_new_order_def Let_def msg_buf_start write_defs size_defs
  by (simp add: bytes_simps) (simp add: msg_buf_def new_order_bytes_def)

lemma encode_cancel_order_bytes:
  "CANCEL_ORDER_SIZE \<le> length buf \<Longrightarrow>
   encode_cancel_order buf k = (cancel_order_bytes k @ drop CANCEL_ORDER_SIZE buf, Inr CANCEL_ORDER_SIZE)"
  unfolding encode_cancel_order_def Let_def msg_buf_start write_defs size_defs
  by (simp add: bytes_simps) (simp add: msg_buf_def cancel_order_bytes_def)

lemma encode_report_bytes:
  "EXECUTION_REPORT_SIZE \<le> length buf \<Longrightarrow>
   encode_execution_report buf n f ts =
     (report_bytes n f ts @ drop EXECUTION_REPORT_SIZE buf, Inr EXECUTION_REPORT_SIZE)"
  unfolding encode_execution_report_def Let_def msg_buf_start write_defs size_defs
  by (simp add: bytes_simps) (simp add: msg_buf_def report_bytes_def)

text \<open>Reading the fields of a message that stands at the start of the buffer.\<close>

lemma decode_new_order_bytes:
  "decode_new_order (new_order_bytes x @ rest) =
     (if o_quantity x = 0 then Inl PZeroQuantity else Inr (x\<lparr>o_timestamp := 0\<rparr>))"
  by (cases "o_side x")
    (simp_all add: decode_new_order_def new_order_bytes_def read_defs get_range_def size_defs
       decode_side_def encode_side_def)

lemma decode_cancel_order_bytes: "decode_cancel_order (cancel_order_bytes k @ rest) = Inr k"
  by (simp add: decode_cancel_order_def cancel_order_bytes_def read_defs get_range_def size_defs)

lemma decode_report_bytes:
  "decode_execution_report (report_bytes n f ts @ rest) =
     Inr \<lparr>x_seq_num = n, x_taker_order_id = f_taker_order_id f, x_maker_order_id = f_maker_order_id f,
          x_price = f_price f, x_quantity = f_quantity f, x_timestamp = ts\<rparr>"
  by (simp add: decode_execution_report_def report_bytes_def read_defs get_range_def size_defs)

lemma decode_message_bytes:
  "decode_message (new_order_bytes x @ rest) =
     (if o_quantity x = 0 then Inl PZeroQuantity else Inr (NewOrder (x\<lparr>o_timestamp := 0\<rparr>)))"
  "decode_message (cancel_order_bytes k @ rest) = Inr (CancelOrder k)"
proof -
  have "read_u8 (new_order_bytes x @ rest) 0 = Inr MSG_NEW_ORDER"
    "read_u8 (cancel_order_bytes k @ rest) 0 = Inr MSG_CANCEL_ORDER"
    by (simp_all add: read_defs get_range_def new_order_bytes_def cancel_order_bytes_def)
  moreover have "MSG_CANCEL_ORDER \<noteq> MSG_NEW_ORDER" by (simp add: tag_defs)
  ultimately show
    "decode_message (new_order_bytes x @ rest) =
       (if o_quantity x = 0 then Inl PZeroQuantity else Inr (NewOrder (x\<lparr>o_timestamp := 0\<rparr>)))"
    "decode_message (cancel_order_bytes k @ rest) = Inr (CancelOrder k)"
    by (simp_all add: decode_message_def decode_new_order_bytes decode_cancel_order_bytes)
qed

text \<open>A field read depends on its range only, and a read inside the buffer succeeds.\<close>

lemma read_take:
  assumes "n \<le> length buf"
  shows "a + 1 \<le> n \<Longrightarrow> read_u8 (take n buf) a = read_u8 buf a"
    "a + 8 \<le> n \<Longrightarrow> read_u64 (take n buf) a = read_u64 buf a"
    "a + 8 \<le> n \<Longrightarrow> read_i64 (take n buf) a = read_i64 buf a"
  using assms by (simp_all add: read_defs get_range_take)

lemma read_ok:
  "a + 1 \<le> length buf \<Longrightarrow> read_u8 buf a = Inr (buf ! a)"
  "a + 8 \<le> length buf \<Longrightarrow> read_u64 buf a = Inr (u64_from_le_bytes (take 8 (drop a buf)))"
  "a + 8 \<le> length buf \<Longrightarrow> read_i64 buf a = Inr (i64_from_le_bytes (take 8 (drop a buf)))"
  by (simp_all add: read_defs get_range_def hd_drop_conv_nth)

section \<open>Properties of the wire protocol\<close>

text \<open>
  A new order written into a buffer of at least 40 bytes reads back from those 40 bytes, and
  from the whole buffer, as the same order with timestamp 0 (the format has no timestamp); the
  bytes behind the message are untouched. Without quantity it is refused by the decoder.
\<close>

theorem new_order_roundtrip:
  assumes "NEW_ORDER_SIZE \<le> length buf"
  shows "\<exists>buf'. encode_new_order buf x = (buf', Inr NEW_ORDER_SIZE) \<and> length buf' = length buf \<and>
    drop NEW_ORDER_SIZE buf' = drop NEW_ORDER_SIZE buf \<and>
    (\<forall>b\<in>{buf', take NEW_ORDER_SIZE buf'}. decode_message b =
       (if o_quantity x = 0 then Inl PZeroQuantity else Inr (NewOrder (x\<lparr>o_timestamp := 0\<rparr>))))"
  using assms decode_message_bytes(1) [of x] decode_message_bytes(1) [of x "[]"]
  by (simp add: encode_new_order_bytes) (simp add: size_defs)

theorem new_order_roundtrip_witness:
  "\<exists>buf' x. encode_new_order (replicate 41 7)
       \<lparr>o_id = 1, o_trader_id = 2, o_side = Ask, o_price = I64 (- 5), o_quantity = 9, o_timestamp = 77\<rparr>
     = (buf', Inr NEW_ORDER_SIZE) \<and> decode_message buf' = Inr (NewOrder x) \<and> o_price x = I64 (- 5) \<and>
     drop NEW_ORDER_SIZE buf' = [7]"
  using new_order_roundtrip [of "replicate 41 7" "\<lparr>o_id = 1, o_trader_id = 2, o_side = Ask,
      o_price = I64 (- 5), o_quantity = 9, o_timestamp = 77\<rparr>"]
  by (auto simp: size_defs)

text \<open>A cancel request reads back from the 16 bytes written and from the whole buffer.\<close>

theorem cancel_order_roundtrip:
  assumes "CANCEL_ORDER_SIZE \<le> length buf"
  shows "\<exists>buf'. encode_cancel_order buf k = (buf', Inr CANCEL_ORDER_SIZE) \<and> length buf' = length buf \<and>
    drop CANCEL_ORDER_SIZE buf' = drop CANCEL_ORDER_SIZE buf \<and>
    (\<forall>b\<in>{buf', take CANCEL_ORDER_SIZE buf'}. decode_message b = Inr (CancelOrder k))"
  using assms decode_message_bytes(2) [of k] decode_message_bytes(2) [of k "[]"]
  by (simp add: encode_cancel_order_bytes) (simp add: size_defs)

theorem cancel_order_roundtrip_witness:
  "\<exists>buf'. encode_cancel_order (replicate 16 7) 300 = (buf', Inr CANCEL_ORDER_SIZE) \<and>
     decode_message buf' = Inr (CancelOrder 300)"
  using cancel_order_roundtrip [of "replicate 16 7" 300] by (auto simp: size_defs)

text \<open>
  An execution report carries the sequence number, the fill and the timestamp unchanged, except
  the \<open>maker_fully_filled\<close> flag, which the format does not have.
\<close>

theorem execution_report_roundtrip:
  assumes "EXECUTION_REPORT_SIZE \<le> length buf"
  shows "\<exists>buf'. encode_execution_report buf n f ts = (buf', Inr EXECUTION_REPORT_SIZE) \<and>
    length buf' = length buf \<and>
    decode_execution_report buf' =
      Inr \<lparr>x_seq_num = n, x_taker_order_id = f_taker_order_id f, x_maker_order_id = f_maker_order_id f,
           x_price = f_price f, x_quantity = f_quantity f, x_timestamp = ts\<rparr>"
  using assms by (simp add: encode_report_bytes decode_report_bytes) (simp add: size_defs)

theorem execution_report_roundtrip_witness:
  "\<exists>buf' x. encode_execution_report (replicate 48 0) 7 \<lparr>f_taker_order_id = 1, f_maker_order_id = 2,
       f_price = I64 3, f_quantity = 4, f_maker_fully_filled = True\<rparr> 5 =
     (buf', Inr EXECUTION_REPORT_SIZE) \<and> decode_execution_report buf' = Inr x \<and> x_seq_num x = 7"
  using execution_report_roundtrip [of "replicate 48 0" 7 "\<lparr>f_taker_order_id = 1, f_maker_order_id = 2,
       f_price = I64 3, f_quantity = 4, f_maker_fully_filled = True\<rparr>" 5]
  by (auto simp: size_defs)

text \<open>
  Framing. The type byte alone decides how many bytes a message takes: with fewer bytes than
  \<open>message_size\<close> says the decoder reports \<open>BufferTooShort\<close>, with at least that many it never does,
  and it reads none of the bytes behind them.
\<close>

theorem message_size_frames:
  assumes "buf \<noteq> []" "message_size (hd buf) = Inr n"
  shows "if length buf < n then decode_message buf = Inl BufferTooShort
    else decode_message buf = decode_message (take n buf) \<and> decode_message buf \<noteq> Inl BufferTooShort"
proof -
  have n: "n = (if hd buf = MSG_NEW_ORDER then NEW_ORDER_SIZE else CANCEL_ORDER_SIZE)"
    and tag: "hd buf = MSG_NEW_ORDER \<or> hd buf = MSG_CANCEL_ORDER" "MSG_CANCEL_ORDER \<noteq> MSG_NEW_ORDER"
    using assms(2) by (auto simp: message_size_def tag_defs split: if_splits)
  have t: "read_u8 buf 0 = Inr (hd buf)"
    using assms(1) by (cases buf) (simp_all add: read_defs get_range_def)
  show ?thesis
  proof (cases "length buf < n")
    case True
    then show ?thesis
      using n tag t by (auto simp: decode_message_def decode_new_order_def decode_cancel_order_def)
  next
    case False
    then have le: "n \<le> length buf" by simp
    have "1 \<le> n" using n by (simp add: size_defs)
    then have "read_u8 (take n buf) 0 = Inr (hd buf)" using read_take(1) [OF le, of 0] t by simp
    moreover have "decode_new_order (take n buf) = decode_new_order buf" if "n = NEW_ORDER_SIZE"
      using that le unfolding decode_new_order_def by (simp add: read_take size_defs)
    moreover have "decode_cancel_order (take n buf) = decode_cancel_order buf" if "n = CANCEL_ORDER_SIZE"
      using that le unfolding decode_cancel_order_def by (simp add: read_take size_defs)
    moreover have "decode_new_order buf \<noteq> Inl BufferTooShort" if "n = NEW_ORDER_SIZE"
      using that le by (simp add: decode_new_order_def read_ok size_defs decode_side_def)
    moreover have "decode_cancel_order buf \<noteq> Inl BufferTooShort" if "n = CANCEL_ORDER_SIZE"
      using that le by (simp add: decode_cancel_order_def read_ok size_defs)
    ultimately show ?thesis
      using False n tag t
      by (cases "decode_new_order buf"; cases "decode_cancel_order buf")
        (auto simp: decode_message_def split: if_splits)
  qed
qed

theorem message_size_frames_witness:
  "message_size 2 = Inr 16 \<and> decode_message (2 # replicate 14 0) = Inl BufferTooShort \<and>
   decode_message (2 # replicate 20 0) = decode_message (2 # replicate 15 0)"
proof -
  have m: "message_size (hd (2 # replicate k 0)) = Inr 16" for k
    by (simp add: message_size_def tag_defs size_defs)
  show ?thesis
    using message_size_frames [OF _ m, of 14] message_size_frames [OF _ m, of 20] m [of 0] by simp
qed

text \<open>
  The decoder accepts a new order only when its fields are valid (positive quantity), and
  encoding what it accepted gives back every byte of the input that carries a field.
\<close>

theorem decoded_order_reencodes:
  assumes "decode_message buf = Inr (NewOrder x)"
  shows "o_quantity x \<noteq> 0 \<and> o_timestamp x = 0 \<and> NEW_ORDER_SIZE \<le> length buf \<and>
    (\<exists>buf'. encode_new_order buf x = (buf', Inr NEW_ORDER_SIZE) \<and>
       take 2 buf' = take 2 buf \<and> drop 8 buf' = drop 8 buf)"
proof -
  obtain t where "read_u8 buf 0 = Inr t" and dec: "decode_new_order buf = Inr x" and t: "t = MSG_NEW_ORDER"
    using assms by (auto simp: decode_message_def and_then_Inr split: if_splits)
  then have len: "40 \<le> length buf" by (auto simp: decode_new_order_def size_defs split: if_splits)
  have t0: "buf ! 0 = MSG_NEW_ORDER"
    using \<open>read_u8 buf 0 = Inr t\<close> t len by (simp add: read_ok)
  obtain s where s: "decode_side (buf ! 1) = Inr s"
    and x: "x = \<lparr>o_id = u64_from_le_bytes (take 8 (drop 8 buf)),
      o_trader_id = u64_from_le_bytes (take 8 (drop 16 buf)), o_side = s,
      o_price = i64_from_le_bytes (take 8 (drop 24 buf)),
      o_quantity = u64_from_le_bytes (take 8 (drop 32 buf)), o_timestamp = 0\<rparr>"
    and q: "u64_from_le_bytes (take 8 (drop 32 buf)) \<noteq> 0"
    using dec len by (auto simp: decode_new_order_def read_ok size_defs and_then_Inr split: if_splits)
  have side: "encode_side s = buf ! 1"
    using s by (auto simp: decode_side_def encode_side_def split: if_splits)
  have fields: "u64_to_le_bytes (u64_from_le_bytes (take 8 (drop a buf))) = take 8 (drop a buf)"
    "i64_to_le_bytes (i64_from_le_bytes (take 8 (drop a buf))) = take 8 (drop a buf)"
    if "a + 8 \<le> 40" for a
    using that len by (simp_all add: f64.enc_dec fi64.enc_dec)
  have tk: "take 8 (drop a buf) @ drop (a + 8) buf = drop a buf" for a
    by (metis add.commute append_take_drop_id drop_drop)
  have tail: "take 8 (drop 8 buf) @ take 8 (drop 16 buf) @ take 8 (drop 24 buf) @ take 8 (drop 32 buf) @
      drop 40 buf = drop 8 buf"
    using tk [of 8] tk [of 16] tk [of 24] tk [of 32] by simp
  have "take 2 buf = [buf ! 0, buf ! 1]"
    using len by (cases buf; cases "tl buf") auto
  then show ?thesis
    using len q t0 side fields [of 8] fields [of 16] fields [of 24] fields [of 32] tail
    by (simp add: x encode_new_order_bytes size_defs new_order_bytes_def)
qed

theorem decoded_order_reencodes_witness:
  "\<exists>x buf'. decode_message (new_order_bytes
        \<lparr>o_id = 1, o_trader_id = 2, o_side = Ask, o_price = I64 3, o_quantity = 4, o_timestamp = 0\<rparr>) =
      Inr (NewOrder x) \<and> o_quantity x \<noteq> 0 \<and>
      encode_new_order (new_order_bytes
        \<lparr>o_id = 1, o_trader_id = 2, o_side = Ask, o_price = I64 3, o_quantity = 4, o_timestamp = 0\<rparr>) x
        = (buf', Inr NEW_ORDER_SIZE)"
proof -
  let ?x = "\<lparr>o_id = 1, o_trader_id = 2, o_side = Ask, o_price = I64 3, o_quantity = 4, o_timestamp = 0\<rparr>"
  have d: "decode_message (new_order_bytes ?x) = Inr (NewOrder ?x)"
    using decode_message_bytes(1) [of ?x "[]"] by simp
  from decoded_order_reencodes [OF d] d show ?thesis by blast
qed

end
