(* ===== verification/Wal.thy ===== *)
theory Wal
  imports Protocol
begin

unbundle bit_operations_syntax

text \<open>
  \<open>src/wal.rs\<close>: the write-ahead log. The memory map and the file behind it are one byte list
  (\<open>w_mmap\<close>); file sizes and offsets are \<open>nat\<close>, since a file is far shorter than \<open>2 ^ 63\<close> bytes.

  Parameters stand for code outside the crate: \<open>crc\<close> is \<open>crc32fast::hash\<close>, of which nothing is
  assumed, and \<open>os n\<close> says whether the system can set the file's length to \<open>n\<close> and map it.
  \<open>None\<close> is a panic of a slice access.

  A log is a sequence of records (\<open>log_bytes\<close>); \<open>wal_ok\<close> is the module invariant that every byte at
  or beyond \<open>write_pos\<close> is zero. Opening any file establishes it, appending keeps it and adds one
  record, reading gives the records back, and a crash that damages only bytes behind a record
  leaves all records before it.
\<close>

section \<open>The code\<close>

definition HEADER_SIZE :: nat where "HEADER_SIZE = 8"
definition ALIGNMENT :: usize where "ALIGNMENT = 8"
definition DEFAULT_INITIAL_SIZE :: nat where "DEFAULT_INITIAL_SIZE = 64 * 1024 * 1024"

definition align_up :: "nat \<Rightarrow> nat" where
  "align_up n = unat ((word_of_nat n + ALIGNMENT - 1) AND NOT (ALIGNMENT - 1))"

datatype WalError = Io | WProtocol ProtocolError | Corruption nat | TruncatedRecord nat

record Wal =
  w_mmap :: "u8 list"
  w_write_pos :: nat
  w_mapped_size :: nat
  w_encode_buf :: "u8 list"
  w_record_count :: nat

text \<open>\<open>align_up\<close> in arithmetic, for every size a record can have.\<close>

lemma align_up_eq:
  assumes "n < 2 ^ 63"
  shows "align_up n = (n + 7) div 8 * 8"
proof -
  let ?w = "word_of_nat (n + 7) :: u64"
  have u: "unat ?w = n + 7" using assms by (intro unat_word_of_nat) simp
  have 1: "word_of_nat n + ALIGNMENT - 1 = ?w" "NOT (ALIGNMENT - 1) = NOT (mask 3)"
    by (simp_all add: ALIGNMENT_def mask_eq_exp_minus_1)
  have "?w AND NOT (mask 3) = push_bit 3 (drop_bit 3 ?w)"
    by (simp add: bit_eq_iff bit_simps) (auto simp: bit_simps)
  then have "?w AND NOT (mask 3) = ?w div 8 * 8"
    by (simp add: drop_bit_eq_div push_bit_eq_mult)
  moreover have d: "unat (?w div 8) = (n + 7) div 8"
    using u by (simp only: unat_div_distrib) simp
  have "unat (?w div 8 * 8) = unat (?w div 8) * unat (8 :: u64)"
    using assms by (intro unat_mult_lem [THEN iffD1]) (simp add: d del: of_nat_add)
  ultimately show ?thesis using d by (simp add: align_up_def 1 del: of_nat_add)
qed

lemma align_up_bounds:
  assumes "n < 2 ^ 63"
  shows "n \<le> align_up n" "align_up n < n + 8" "align_up n mod 8 = 0"
  unfolding align_up_eq [OF assms] by presburger+

text \<open>The loop of \<open>scan_records\<close>: the end of the last valid record and the number of records.\<close>

function scan_loop :: "(u8 list \<Rightarrow> u32) \<Rightarrow> u8 list \<Rightarrow> nat \<Rightarrow> nat \<Rightarrow> (nat \<times> nat) option" where
  "scan_loop crc data pos cnt =
     (if pos + HEADER_SIZE > length data then Some (pos, cnt)
      else do {
        len_bytes \<leftarrow> get_range data pos 4;
        let payload_len = unat (u32_from_le_bytes len_bytes);
        if payload_len = 0 then Some (pos, cnt)
        else do {
          let record_size = align_up (HEADER_SIZE + payload_len);
          if pos + record_size > length data then Some (pos, cnt)
          else do {
            crc_bytes \<leftarrow> get_range data (pos + 4) 4;
            payload \<leftarrow> get_range data (pos + HEADER_SIZE) payload_len;
            if u32_from_le_bytes crc_bytes \<noteq> crc payload then Some (pos, cnt)
            else scan_loop crc data (pos + record_size) (cnt + 1)
          }
        }
      })"
  by pat_completeness auto

lemma record_size_pos: "n < align_up (HEADER_SIZE + unat (l :: u32)) \<longleftrightarrow> n < (unat l + 15) div 8 * 8"
  using u32_bound [of l] by (simp add: align_up_eq HEADER_SIZE_def add.commute)

termination scan_loop
  by (relation "measure (\<lambda>(crc, data, pos, cnt). length data - pos)")
    (auto simp: HEADER_SIZE_def record_size_pos [of 0, unfolded HEADER_SIZE_def] div_greater_zero_iff
      intro!: diff_less_mono2)

declare scan_loop.simps [simp del]

definition scan_records :: "(u8 list \<Rightarrow> u32) \<Rightarrow> u8 list \<Rightarrow> (nat \<times> nat) option" where
  "scan_records crc data = scan_loop crc data 0 0"

text \<open>\<open>File::set_len\<close>: cut, or extend with zeros.\<close>

definition set_len :: "u8 list \<Rightarrow> nat \<Rightarrow> u8 list" where
  "set_len file n = take n file @ replicate (n - length file) 0"

definition open_with_size ::
  "(u8 list \<Rightarrow> u32) \<Rightarrow> (nat \<Rightarrow> bool) \<Rightarrow> u8 list \<Rightarrow> nat \<Rightarrow> (WalError + Wal) option" where
  "open_with_size crc os file initial_size =
     (let mapped_size = (if length file < initial_size then initial_size else length file) in
      if \<not> os mapped_size then Some (Inl Io)
      else do {
        let file = (if length file < initial_size then set_len file initial_size else file);
        (scan_end, scan_count) \<leftarrow> scan_records crc file;
        let file = set_len (set_len file scan_end) mapped_size;
        Some (Inr \<lparr>w_mmap = file, w_write_pos = scan_end, w_mapped_size = mapped_size,
                   w_encode_buf = replicate NEW_ORDER_SIZE 0, w_record_count = scan_count\<rparr>)
      })"

definition wal_open :: "(u8 list \<Rightarrow> u32) \<Rightarrow> (nat \<Rightarrow> bool) \<Rightarrow> u8 list \<Rightarrow> (WalError + Wal) option" where
  "wal_open crc os file = open_with_size crc os file DEFAULT_INITIAL_SIZE"

definition ensure_capacity :: "(nat \<Rightarrow> bool) \<Rightarrow> Wal \<Rightarrow> nat \<Rightarrow> Wal \<times> (WalError + unit)" where
  "ensure_capacity os w needed =
     (if w_write_pos w + needed \<le> w_mapped_size w then (w, Inr ())
      else
        let new_size = max (w_mapped_size w * 2) (w_write_pos w + needed) in
        if \<not> os new_size then (w, Inl Io)
        else (w\<lparr>w_mmap := set_len (w_mmap w) new_size, w_mapped_size := new_size\<rparr>, Inr ()))"

definition wal_append ::
  "(u8 list \<Rightarrow> u32) \<Rightarrow> (nat \<Rightarrow> bool) \<Rightarrow> Wal \<Rightarrow> EngineCommand \<Rightarrow> (Wal \<times> (WalError + nat)) option" where
  "wal_append crc os w cmd =
     (let (encode_buf, r) = (case cmd of
            NewOrder order \<Rightarrow> encode_new_order (w_encode_buf w) order
          | CancelOrder order_id \<Rightarrow> encode_cancel_order (w_encode_buf w) order_id);
          w = w\<lparr>w_encode_buf := encode_buf\<rparr>
      in case r of
        Inl e \<Rightarrow> Some (w, Inl (WProtocol e))
      | Inr payload_len \<Rightarrow>
          let record_size = align_up (HEADER_SIZE + payload_len);
              (w, c) = ensure_capacity os w record_size
          in case c of
            Inl e \<Rightarrow> Some (w, Inl e)
          | Inr _ \<Rightarrow> do {
              let pos = w_write_pos w;
              payload \<leftarrow> get_range (w_encode_buf w) 0 payload_len;
              mmap \<leftarrow> put_range (w_mmap w) pos (u32_to_le_bytes (word_of_nat payload_len));
              mmap \<leftarrow> put_range mmap (pos + 4) (u32_to_le_bytes (crc payload));
              mmap \<leftarrow> put_range mmap (pos + HEADER_SIZE) payload;
              let pad_start = pos + HEADER_SIZE + payload_len;
              let pad_end = pos + record_size;
              mmap \<leftarrow> (if pad_end > pad_start
                       then put_range mmap pad_start (replicate (pad_end - pad_start) 0)
                       else Some mmap);
              let w = w\<lparr>w_mmap := mmap, w_write_pos := pos + record_size,
                        w_record_count := w_record_count w + 1\<rparr>;
              Some (w, Inr (w_record_count w))
            })"

record WalIterator =
  i_mmap :: "u8 list"
  i_read_pos :: nat
  i_end_pos :: nat
  i_current_record :: nat
  i_start_record :: nat

definition iter_from :: "Wal \<Rightarrow> nat \<Rightarrow> WalIterator" where
  "iter_from w start_record =
     \<lparr>i_mmap = w_mmap w, i_read_pos = 0, i_end_pos = w_write_pos w, i_current_record = 0,
      i_start_record = start_record\<rparr>"

text \<open>\<open>Iterator::next\<close>: the loop skips the records up to \<open>start_record\<close>.\<close>

function wal_next ::
  "(u8 list \<Rightarrow> u32) \<Rightarrow> WalIterator \<Rightarrow> (WalIterator \<times> (WalError + nat \<times> EngineCommand) option) option" where
  "wal_next crc it =
     (if i_read_pos it + HEADER_SIZE > i_end_pos it then Some (it, None)
      else do {
        len_bytes \<leftarrow> get_range (i_mmap it) (i_read_pos it) 4;
        let payload_len = unat (u32_from_le_bytes len_bytes);
        if payload_len = 0 then Some (it, None)
        else do {
          let record_size = align_up (HEADER_SIZE + payload_len);
          if i_read_pos it + record_size > i_end_pos it
          then Some (it, Some (Inl (TruncatedRecord (i_read_pos it))))
          else do {
            crc_bytes \<leftarrow> get_range (i_mmap it) (i_read_pos it + 4) 4;
            payload \<leftarrow> get_range (i_mmap it) (i_read_pos it + HEADER_SIZE) payload_len;
            if u32_from_le_bytes crc_bytes \<noteq> crc payload
            then Some (it, Some (Inl (Corruption (i_read_pos it))))
            else do {
              let it' = it\<lparr>i_read_pos := i_read_pos it + record_size,
                          i_current_record := i_current_record it + 1\<rparr>;
              if i_current_record it' \<le> i_start_record it' then wal_next crc it'
              else case decode_message payload of
                Inr cmd \<Rightarrow> Some (it', Some (Inr (i_current_record it', cmd)))
              | Inl e \<Rightarrow> Some (it', Some (Inl (WProtocol e)))
            }
          }
        }
      })"
  by pat_completeness auto

termination wal_next
  by (relation "measure (\<lambda>(crc, it). i_end_pos it - i_read_pos it)")
    (auto simp: HEADER_SIZE_def record_size_pos [of 0, unfolded HEADER_SIZE_def] div_greater_zero_iff
      intro!: diff_less_mono2)

declare wal_next.simps [simp del]

definition truncate_to :: "Wal \<Rightarrow> nat \<Rightarrow> nat \<Rightarrow> Wal option" where
  "truncate_to w offset record_count = do {
     mmap \<leftarrow> (if w_write_pos w > offset
              then put_range (w_mmap w) offset (replicate (w_write_pos w - offset) 0)
              else Some (w_mmap w));
     Some (w\<lparr>w_mmap := mmap, w_write_pos := offset, w_record_count := record_count\<rparr>)
   }"

section \<open>Logs\<close>

text \<open>
  A record with payload \<open>p\<close>: length, checksum, payload and padding to the next multiple of eight. The
  scan does not look at the padding, so a log is defined with any padding of the right length.
\<close>

definition record_form :: "(u8 list \<Rightarrow> u32) \<Rightarrow> u8 list \<Rightarrow> u8 list \<Rightarrow> u8 list" where
  "record_form crc p pad = u32_to_le_bytes (word_of_nat (length p)) @ u32_to_le_bytes (crc p) @ p @ pad"

definition record_ok :: "u8 list \<Rightarrow> u8 list \<Rightarrow> bool" where
  "record_ok p pad \<longleftrightarrow> 0 < length p \<and> length p < 2 ^ 32 \<and>
     HEADER_SIZE + length p + length pad = align_up (HEADER_SIZE + length p)"

fun log_bytes :: "(u8 list \<Rightarrow> u32) \<Rightarrow> u8 list \<Rightarrow> u8 list list \<Rightarrow> bool" where
  "log_bytes crc bs [] \<longleftrightarrow> bs = []"
| "log_bytes crc bs (p # ps) \<longleftrightarrow>
     (\<exists>pad rest. record_ok p pad \<and> bs = record_form crc p pad @ rest \<and> log_bytes crc rest ps)"

lemma length_record_form: "record_ok p pad \<Longrightarrow> length (record_form crc p pad) = align_up (HEADER_SIZE + length p)"
  by (simp add: record_form_def record_ok_def HEADER_SIZE_def)

lemma log_bytes_append:
  "log_bytes crc bs ps \<Longrightarrow> log_bytes crc cs qs \<Longrightarrow> log_bytes crc (bs @ cs) (ps @ qs)"
  by (induction ps arbitrary: bs) fastforce+

lemma log_bytes_single: "record_ok p pad \<Longrightarrow> log_bytes crc (record_form crc p pad) [p]"
  by auto

text \<open>Reading a record that stands behind a prefix of the data.\<close>

lemma record_form_ranges:
  assumes "record_ok p pad" "data = pre @ record_form crc p pad @ rest" "k = length pre"
  shows "get_range data k 4 = Some (u32_to_le_bytes (word_of_nat (length p)))"
    "unat (u32_from_le_bytes (u32_to_le_bytes (word_of_nat (length p) :: u32))) = length p"
    "get_range data (k + 4) 4 = Some (u32_to_le_bytes (crc p))"
    "get_range data (k + HEADER_SIZE) (length p) = Some p"
    "k + align_up (HEADER_SIZE + length p) \<le> length data" "k + HEADER_SIZE \<le> length data"
    "align_up (HEADER_SIZE + length p) = length (record_form crc p pad)"
  using assms length_record_form [OF assms(1), of crc]
  by (simp_all add: get_range_def record_form_def record_ok_def HEADER_SIZE_def unat_word_of_nat)

lemma scan_step:
  assumes "record_ok p pad" "data = pre @ record_form crc p pad @ rest" "k = length pre"
  shows "scan_loop crc data k n = scan_loop crc data (k + length (record_form crc p pad)) (n + 1)"
proof -
  note r = record_form_ranges [OF assms]
  have "0 < length p" using assms(1) by (simp add: record_ok_def)
  then show ?thesis
    using r(2,5,6) by (simp add: scan_loop.simps [of crc data k] r(1,3,4) r(7) [symmetric] Let_def)
qed

lemma scan_log:
  "log_bytes crc bs ps \<Longrightarrow> data = pre @ bs @ rest \<Longrightarrow> k = length pre \<Longrightarrow>
   scan_loop crc data k n = scan_loop crc data (k + length bs) (n + length ps)"
proof (induction ps arbitrary: bs pre k n)
  case (Cons p ps)
  then obtain pad bs' where r: "record_ok p pad" "bs = record_form crc p pad @ bs'" "log_bytes crc bs' ps"
    by auto
  have "scan_loop crc data k n = scan_loop crc data (k + length (record_form crc p pad)) (n + 1)"
    using Cons.prems r by (intro scan_step) auto
  also have "\<dots> = scan_loop crc data (k + length (record_form crc p pad) + length bs') (n + 1 + length ps)"
    using Cons.prems r by (intro Cons.IH [where pre = "pre @ record_form crc p pad"]) auto
  finally show ?case using r(2) by (simp add: add.assoc)
qed simp

lemma u32_zero_bytes: "u32_from_le_bytes (replicate 4 0) = 0"
  by (simp add: u32_from_le_bytes_def numeral_eq_Suc)

lemma scan_zeros: "scan_loop crc (bs @ replicate z 0) (length bs) n = Some (length bs, n)"
  using u32_zero_bytes
  by (simp add: scan_loop.simps get_range_def HEADER_SIZE_def min_def)

text \<open>Whatever the data, the scan ends and finds a log at its start.\<close>

lemma get_range_drop: "pos \<le> length data \<Longrightarrow> get_range data (pos + a) n = get_range (drop pos data) a n"
  by (auto simp: get_range_def add.commute add.left_commute)

text \<open>The stopping tests of one round, for the scan and for the iterator alike.\<close>

definition header_at :: "(u8 list \<Rightarrow> u32) \<Rightarrow> u8 list \<Rightarrow> nat \<Rightarrow> u8 list \<Rightarrow> bool" where
  "header_at crc data pos p \<longleftrightarrow>
     length p \<noteq> 0 \<and> pos + align_up (HEADER_SIZE + length p) \<le> length data \<and>
     (\<exists>lb cb. get_range data pos 4 = Some lb \<and> length p = unat (u32_from_le_bytes lb) \<and>
       get_range data (pos + 4) 4 = Some cb \<and> get_range data (pos + HEADER_SIZE) (length p) = Some p \<and>
       u32_from_le_bytes cb = crc p)"

lemma header_at_record:
  assumes "pos \<le> length data" "header_at crc data pos p"
  shows "\<exists>pad rest. record_ok p pad \<and> drop pos data = record_form crc p pad @ rest \<and>
    length (record_form crc p pad) = align_up (HEADER_SIZE + length p)"
proof -
  obtain lb cb where h: "get_range data pos 4 = Some lb" "length p = unat (u32_from_le_bytes lb)"
    "get_range data (pos + 4) 4 = Some cb" "get_range data (pos + HEADER_SIZE) (length p) = Some p"
    "u32_from_le_bytes cb = crc p" "length p \<noteq> 0" "pos + align_up (HEADER_SIZE + length p) \<le> length data"
    using assms(2) unfolding header_at_def by blast
  define d where "d = drop pos data"
  define l where "l = length p"
  let ?m = "align_up (HEADER_SIZE + l)"
  have l: "l < 2 ^ 32" using u32_bound [of "u32_from_le_bytes lb"] h(2) by (simp add: l_def)
  have m: "8 + l \<le> ?m" "?m \<le> length d"
    using align_up_bounds(1) [of "HEADER_SIZE + l"] l assms(1) h(7)
    by (auto simp: HEADER_SIZE_def d_def l_def)
  have "take 4 d = lb" "take 4 (drop 4 d) = cb" "take l (drop 8 d) = p"
    using h(1,3,4) by (auto simp: get_range_def d_def l_def HEADER_SIZE_def add.commute split: if_splits)
  moreover have "u32_to_le_bytes (word_of_nat l) = lb" "u32_to_le_bytes (crc p) = cb"
    using f32.enc_dec [OF get_range_length [OF h(1)]] f32.enc_dec [OF get_range_length [OF h(3)]] h(2,5)
    by (simp_all add: l_def)
  moreover define pad where "pad = take (?m - (8 + l)) (drop (8 + l) d)"
  moreover have "take 4 d @ take 4 (drop 4 d) @ take l (drop 8 d) @ drop (8 + l) d = d"
    by (metis (no_types, lifting) add.commute append_take_drop_id drop_drop numeral_Bit0)
  moreover have "drop (8 + l) d = pad @ drop (?m - (8 + l)) (drop (8 + l) d)"
    by (simp add: pad_def del: drop_drop)
  ultimately have "d = record_form crc p pad @ drop (?m - (8 + l)) (drop (8 + l) d)"
    by (metis append_assoc l_def record_form_def)
  moreover have "record_ok p pad"
    using m l h(6) by (simp add: record_ok_def pad_def HEADER_SIZE_def l_def)
  ultimately show ?thesis
    using length_record_form by (auto simp: d_def l_def)
qed

lemma scan_cases:
  obtains (stop) "scan_loop crc data pos n = Some (pos, n)"
  | (more) p where "header_at crc data pos p"
      "scan_loop crc data pos n = scan_loop crc data (pos + align_up (HEADER_SIZE + length p)) (n + 1)"
proof (cases "pos + HEADER_SIZE > length data")
  case True
  then show ?thesis by (intro stop) (simp add: scan_loop.simps)
next
  case False
  then obtain lb where lb: "get_range data pos 4 = Some lb" by (auto simp: get_range_def HEADER_SIZE_def)
  define l where "l = unat (u32_from_le_bytes lb)"
  show ?thesis
  proof (cases "l = 0 \<or> pos + align_up (HEADER_SIZE + l) > length data")
    case True
    then show ?thesis
      using False lb by (intro stop) (auto simp: scan_loop.simps [of crc data pos] Let_def l_def)
  next
    case fits: False
    have "HEADER_SIZE + l \<le> align_up (HEADER_SIZE + l)"
      using align_up_bounds(1) [of "HEADER_SIZE + l"] u32_bound [of "u32_from_le_bytes lb"]
      by (simp add: HEADER_SIZE_def l_def)
    then obtain cb p where cp: "get_range data (pos + 4) 4 = Some cb"
      "get_range data (pos + HEADER_SIZE) l = Some p"
      using fits False by (auto simp: get_range_def HEADER_SIZE_def)
    then have p: "length p = l" by (simp add: get_range_length)
    have eq: "scan_loop crc data pos n = (if u32_from_le_bytes cb \<noteq> crc p then Some (pos, n)
        else scan_loop crc data (pos + align_up (HEADER_SIZE + l)) (n + 1))"
      using False fits lb cp by (auto simp: scan_loop.simps [of crc data pos] Let_def l_def)
    show ?thesis
    proof (cases "u32_from_le_bytes cb = crc p")
      case True
      then have "header_at crc data pos p"
        using lb cp fits p by (auto simp: header_at_def l_def)
      then show ?thesis using eq True p by (intro more) auto
    qed (use eq in \<open>simp add: stop\<close>)
  qed
qed

lemma scan_sound:
  "pos \<le> length data \<Longrightarrow>
   \<exists>bs ps. scan_loop crc data pos n = Some (pos + length bs, n + length ps) \<and>
     log_bytes crc bs ps \<and> (\<exists>rest. drop pos data = bs @ rest)"
proof (induction "length data - pos" arbitrary: pos n rule: less_induct)
  case less
  show ?case
  proof (cases rule: scan_cases [of crc data pos n])
    case stop
    then show ?thesis by (intro exI [of _ "[]"]) simp
  next
    case (more p)
    let ?m = "align_up (HEADER_SIZE + length p)"
    obtain pad rest where r: "record_ok p pad" "drop pos data = record_form crc p pad @ rest"
      "length (record_form crc p pad) = ?m"
      using header_at_record [OF less.prems more(1)] by blast
    have m: "pos + ?m \<le> length data" using more(1) unfolding header_at_def by blast
    have "0 < ?m" using r(1) unfolding record_ok_def HEADER_SIZE_def by linarith
    obtain bs ps rest' where ih: "scan_loop crc data (pos + ?m) (n + 1) =
        Some (pos + ?m + length bs, n + 1 + length ps)" "log_bytes crc bs ps"
      "drop (pos + ?m) data = bs @ rest'"
      using less.hyps [of "pos + ?m" "n + 1"] m \<open>0 < ?m\<close> by fastforce
    have "drop (pos + ?m) data = rest"
      using r(2,3) by (metis append_eq_conv_conj drop_drop add.commute)
    then have "drop pos data = (record_form crc p pad @ bs) @ rest'" using r(2) ih(3) by simp
    then show ?thesis
      using more(2) ih(1,2) r(1,3)
      by (intro exI [of _ "record_form crc p pad @ bs"] exI [of _ "p # ps"]) auto
  qed
qed

section \<open>The module invariant\<close>

definition wal_ok :: "(u8 list \<Rightarrow> u32) \<Rightarrow> Wal \<Rightarrow> u8 list list \<Rightarrow> bool" where
  "wal_ok crc w ps \<longleftrightarrow>
     (\<exists>bs z. log_bytes crc bs ps \<and> w_mmap w = bs @ replicate z 0 \<and> w_write_pos w = length bs) \<and>
     w_record_count w = length ps \<and> w_mapped_size w = length (w_mmap w) \<and>
     length (w_encode_buf w) = NEW_ORDER_SIZE"

lemma set_len_simps [simp]:
  "length (set_len file n) = n" "k \<le> n \<Longrightarrow> k \<le> length file \<Longrightarrow> take k (set_len file n) = take k file"
  by (simp_all add: set_len_def min_def)

lemma set_len_cut: "k \<le> length file \<Longrightarrow> k \<le> n \<Longrightarrow> set_len (set_len file k) n = take k file @ replicate (n - k) 0"
  by (simp add: set_len_def min_def)

lemma set_len_zeros: "length bs + z \<le> n \<Longrightarrow> set_len (bs @ replicate z 0) n = bs @ replicate (n - length bs) 0"
  by (simp add: set_len_def flip: replicate_add)

definition initial_map :: "u8 list \<Rightarrow> nat \<Rightarrow> u8 list" where
  "initial_map file n = (if length file < n then set_len file n else file)"

lemma initial_map_prefix: "\<exists>z. initial_map file n = file @ replicate z 0"
  by (auto simp: initial_map_def set_len_def intro: exI [of _ 0])

lemma length_initial_map: "length (initial_map file n) = max (length file) n"
  by (simp add: initial_map_def)

lemma open_scan:
  assumes "os (max (length file) n)"
  shows "\<exists>w bs ps rest. open_with_size crc os file n = Some (Inr w) \<and> wal_ok crc w ps \<and>
    initial_map file n = bs @ rest \<and> log_bytes crc bs ps \<and> w_write_pos w = length bs \<and>
    scan_records crc (initial_map file n) = Some (length bs, length ps) \<and>
    w_mapped_size w = max (length file) n \<and> (\<exists>z. w_mmap w = bs @ replicate z 0)"
proof -
  have size: "(if length file < n then n else length file) = max (length file) n"
    "(if length file < n then set_len file n else file) = initial_map file n"
    by (simp_all add: max_def initial_map_def)
  obtain bs ps rest where s: "scan_records crc (initial_map file n) = Some (length bs, length ps)"
    "log_bytes crc bs ps" "initial_map file n = bs @ rest"
    using scan_sound [of 0 "initial_map file n" crc 0] by (auto simp: scan_records_def)
  have "length bs \<le> max (length file) n"
    using arg_cong [OF s(3), of length] unfolding length_initial_map by simp
  then have "set_len (set_len (initial_map file n) (length bs)) (max (length file) n) =
      bs @ replicate (max (length file) n - length bs) 0"
    using s(3) by (simp add: set_len_cut)
  then show ?thesis
    using assms s \<open>length bs \<le> _\<close>
    by (auto simp: open_with_size_def Let_def size wal_ok_def)
qed

text \<open>
  Durability: whatever stands behind the records \<open>ps\<close> in the file, opening it gives these records
  first; when nothing but zeros stands there, it gives exactly these.
\<close>

lemma open_prefix:
  assumes "log_bytes crc bs ps" "os (max (length (bs @ junk)) n)"
  shows "\<exists>w qs. open_with_size crc os (bs @ junk) n = Some (Inr w) \<and> wal_ok crc w (ps @ qs)"
proof -
  let ?d = "initial_map (bs @ junk) n"
  obtain z where d: "?d = bs @ junk @ replicate z 0"
    using initial_map_prefix [of "bs @ junk" n] by auto
  obtain w bs' ps' rest' where w: "open_with_size crc os (bs @ junk) n = Some (Inr w)"
    "wal_ok crc w ps'" "scan_records crc ?d = Some (length bs', length ps')" "log_bytes crc bs' ps'"
    "?d = bs' @ rest'" "w_write_pos w = length bs'" "\<exists>z. w_mmap w = bs' @ replicate z 0"
    using open_scan [of os "bs @ junk" n crc] assms(2) by blast
  have scan: "scan_records crc ?d = scan_loop crc ?d (length bs) (length ps)"
    using scan_log [OF assms(1), of ?d "[]" "junk @ replicate z 0" 0 0] d by (simp add: scan_records_def)
  obtain cs qs where c: "scan_loop crc ?d (length bs) (length ps) =
      Some (length bs + length cs, length ps + length qs)" "log_bytes crc cs qs"
    "\<exists>rest. drop (length bs) ?d = cs @ rest"
    using scan_sound [of "length bs" ?d crc "length ps"] d by auto
  then have "length bs' = length (bs @ cs)" using w(3) scan by simp
  moreover obtain rest where "?d = (bs @ cs) @ rest"
    using c(3) d by auto
  ultimately have "bs' = bs @ cs"
    using w(5) by (metis append_eq_append_conv)
  then have "log_bytes crc bs' (ps @ qs)" using log_bytes_append [OF assms(1) c(2)] by simp
  moreover have "length ps' = length (ps @ qs)" using w(3) c(1) scan by simp
  ultimately have "wal_ok crc w (ps @ qs)"
    using w(2,6,7) unfolding wal_ok_def by metis
  then show ?thesis using w(1) by blast
qed

lemma open_exact:
  assumes "log_bytes crc bs ps" "os (max (length bs + z) n)"
  shows "\<exists>w. open_with_size crc os (bs @ replicate z 0) n = Some (Inr w) \<and> wal_ok crc w ps \<and>
    w_mmap w = bs @ replicate (max (length bs + z) n - length bs) 0"
proof -
  let ?f = "bs @ replicate z 0" and ?m = "max (length bs + z) n"
  have d: "initial_map ?f n = bs @ replicate (?m - length bs) 0"
    by (auto simp: initial_map_def set_len_zeros max_def)
  have "scan_records crc (initial_map ?f n) = scan_loop crc (initial_map ?f n) (length bs) (length ps)"
    using scan_log [OF assms(1), of "initial_map ?f n" "[]" _ 0 0] d by (simp add: scan_records_def)
  also have "\<dots> = Some (length bs, length ps)" unfolding d by (rule scan_zeros)
  finally have "open_with_size crc os ?f n = Some (Inr \<lparr>w_mmap = bs @ replicate (?m - length bs) 0,
      w_write_pos = length bs, w_mapped_size = ?m, w_encode_buf = replicate NEW_ORDER_SIZE 0,
      w_record_count = length ps\<rparr>)"
    using assms(2) d
    by (auto simp: open_with_size_def Let_def initial_map_def max_def set_len_cut split: if_splits)
  then show ?thesis
    using assms(1) by (auto simp: wal_ok_def max_def)
qed

section \<open>Appending and reading\<close>

definition cmd_bytes :: "EngineCommand \<Rightarrow> u8 list" where
  "cmd_bytes cmd = (case cmd of NewOrder x \<Rightarrow> new_order_bytes x | CancelOrder k \<Rightarrow> cancel_order_bytes k)"

text \<open>What a logged command is read back as: the wire format has no timestamp.\<close>

definition logged :: "EngineCommand \<Rightarrow> EngineCommand" where
  "logged cmd = (case cmd of NewOrder x \<Rightarrow> NewOrder (x\<lparr>o_timestamp := 0\<rparr>) | CancelOrder k \<Rightarrow> CancelOrder k)"

definition cmd_ok :: "EngineCommand \<Rightarrow> bool" where
  "cmd_ok cmd = (case cmd of NewOrder x \<Rightarrow> o_quantity x \<noteq> 0 | CancelOrder k \<Rightarrow> True)"

lemma decode_cmd_bytes: "cmd_ok cmd \<Longrightarrow> decode_message (cmd_bytes cmd) = Inr (logged cmd)"
  using decode_message_bytes(1) [where rest = "[]"] decode_message_bytes(2) [where rest = "[]"]
  by (cases cmd) (simp_all add: cmd_bytes_def logged_def cmd_ok_def)

lemma length_cmd_bytes: "length (cmd_bytes cmd) = (case cmd of NewOrder _ \<Rightarrow> 40 | CancelOrder _ \<Rightarrow> 16)"
  by (cases cmd) (simp_all add: cmd_bytes_def)

lemma record_size_cmd:
  "align_up (HEADER_SIZE + length (cmd_bytes cmd)) = HEADER_SIZE + length (cmd_bytes cmd)"
  by (cases cmd) (simp_all add: length_cmd_bytes HEADER_SIZE_def align_up_eq)

lemma record_ok_cmd: "record_ok (cmd_bytes cmd) []"
  unfolding record_ok_def record_size_cmd by (cases cmd) (simp_all add: length_cmd_bytes)

lemma encode_cmd:
  assumes "length buf = NEW_ORDER_SIZE"
  shows "\<exists>buf'. (case cmd of NewOrder x \<Rightarrow> encode_new_order buf x
      | CancelOrder k \<Rightarrow> encode_cancel_order buf k) = (buf', Inr (length (cmd_bytes cmd))) \<and>
    length buf' = NEW_ORDER_SIZE \<and> get_range buf' 0 (length (cmd_bytes cmd)) = Some (cmd_bytes cmd)"
  using assms
  by (cases cmd)
    (simp_all add: encode_new_order_bytes encode_cancel_order_bytes cmd_bytes_def get_range_def size_defs)

text \<open>Writing at the end of what is written, into the zeros behind it.\<close>

lemma put_range_end:
  "pos = length xs \<Longrightarrow> length bs \<le> z \<Longrightarrow>
   put_range (xs @ replicate z 0) pos bs = Some ((xs @ bs) @ replicate (z - length bs) 0)"
  by (simp add: put_range_def)

definition room :: "(nat \<Rightarrow> bool) \<Rightarrow> Wal \<Rightarrow> nat \<Rightarrow> bool" where
  "room os w n \<longleftrightarrow> w_write_pos w + n \<le> w_mapped_size w \<or>
     os (max (w_mapped_size w * 2) (w_write_pos w + n))"

lemma ensure_capacity_ok:
  assumes "w_mmap w = bs @ replicate z 0" "w_write_pos w = length bs" "w_mapped_size w = length (w_mmap w)"
    and "room os w n"
  shows "\<exists>w' z'. ensure_capacity os w n = (w', Inr ()) \<and> w_mmap w' = bs @ replicate z' 0 \<and> n \<le> z' \<and>
    w_write_pos w' = length bs \<and> w_mapped_size w' = length (w_mmap w') \<and>
    w_encode_buf w' = w_encode_buf w \<and> w_record_count w' = w_record_count w"
proof (cases "w_write_pos w + n \<le> w_mapped_size w")
  case True
  then show ?thesis using assms by (auto simp: ensure_capacity_def)
next
  case False
  let ?m = "max (w_mapped_size w * 2) (w_write_pos w + n)"
  have "set_len (w_mmap w) ?m = bs @ replicate (?m - length bs) 0"
    using assms(1,3) by (simp add: set_len_zeros)
  then show ?thesis
    using False assms by (auto simp: ensure_capacity_def room_def Let_def)
qed

lemma append_writes:
  fixes p :: "u8 list"
  assumes "HEADER_SIZE + length p \<le> z" "length p < 2 ^ 32"
  shows "do {
      mmap \<leftarrow> put_range (bs @ replicate z 0) (length bs) (u32_to_le_bytes (word_of_nat (length p)));
      mmap \<leftarrow> put_range mmap (length bs + 4) (u32_to_le_bytes (crc p));
      put_range mmap (length bs + HEADER_SIZE) p
    } = Some ((bs @ record_form crc p []) @ replicate (z - (HEADER_SIZE + length p)) 0)"
proof -
  let ?l = "u32_to_le_bytes (word_of_nat (length p))" and ?c = "u32_to_le_bytes (crc p)"
  have "put_range (bs @ replicate z 0) (length bs) ?l = Some ((bs @ ?l) @ replicate (z - 4) 0)"
    using assms by (subst put_range_end) (simp_all add: HEADER_SIZE_def)
  moreover have "put_range ((bs @ ?l) @ replicate (z - 4) 0) (length bs + 4) ?c =
      Some (((bs @ ?l) @ ?c) @ replicate (z - 8) 0)"
    using assms by (subst put_range_end) (simp_all add: HEADER_SIZE_def)
  moreover have "put_range (((bs @ ?l) @ ?c) @ replicate (z - 8) 0) (length bs + HEADER_SIZE) p =
      Some ((((bs @ ?l) @ ?c) @ p) @ replicate (z - 8 - length p) 0)"
    using assms by (subst put_range_end) (simp_all add: HEADER_SIZE_def)
  ultimately show ?thesis by (simp add: record_form_def HEADER_SIZE_def)
qed

lemma append_ok:
  assumes "wal_ok crc w ps" "room os w (HEADER_SIZE + length (cmd_bytes cmd))"
  shows "\<exists>w'. wal_append crc os w cmd = Some (w', Inr (length ps + 1)) \<and>
    wal_ok crc w' (ps @ [cmd_bytes cmd])"
proof -
  let ?p = "cmd_bytes cmd" and ?n = "HEADER_SIZE + length (cmd_bytes cmd)"
  obtain bs z where w: "log_bytes crc bs ps" "w_mmap w = bs @ replicate z 0" "w_write_pos w = length bs"
    "w_record_count w = length ps" "w_mapped_size w = length (w_mmap w)"
    "length (w_encode_buf w) = NEW_ORDER_SIZE"
    using assms(1) by (auto simp: wal_ok_def)
  obtain buf where buf: "(case cmd of NewOrder x \<Rightarrow> encode_new_order (w_encode_buf w) x
      | CancelOrder k \<Rightarrow> encode_cancel_order (w_encode_buf w) k) = (buf, Inr (length ?p))"
    "length buf = NEW_ORDER_SIZE" "get_range buf 0 (length ?p) = Some ?p"
    using encode_cmd [OF w(6)] by blast
  obtain w1 z1 where w1: "ensure_capacity os (w\<lparr>w_encode_buf := buf\<rparr>) ?n = (w1, Inr ())"
    "w_mmap w1 = bs @ replicate z1 0" "?n \<le> z1" "w_write_pos w1 = length bs"
    "w_mapped_size w1 = length (w_mmap w1)" "w_encode_buf w1 = buf" "w_record_count w1 = length ps"
    using ensure_capacity_ok [of "w\<lparr>w_encode_buf := buf\<rparr>" bs z os ?n] w assms(2)
    by (auto simp: room_def)
  have "length ?p < 2 ^ 32" using record_ok_cmd [of cmd] by (simp add: record_ok_def)
  note writes = append_writes [OF w1(3) this, of bs crc]
  define w' where "w' = w1\<lparr>w_mmap := (bs @ record_form crc ?p []) @ replicate (z1 - ?n) 0,
    w_write_pos := length bs + ?n, w_record_count := length ps + 1\<rparr>"
  have "wal_append crc os w cmd = Some (w', Inr (length ps + 1))"
    using buf w1 writes by (auto simp: wal_append_def record_size_cmd Let_def w'_def bind_eq_Some_conv)
  moreover have "log_bytes crc (bs @ record_form crc ?p []) (ps @ [?p])"
    by (intro log_bytes_append w(1) log_bytes_single record_ok_cmd)
  moreover have "length (record_form crc ?p []) = ?n"
    using length_record_form [OF record_ok_cmd] record_size_cmd by simp
  ultimately show ?thesis
    using w1 buf(2) by (auto simp: wal_ok_def w'_def)
qed

lemma append_full:
  assumes "wal_ok crc w ps" "\<not> room os w (HEADER_SIZE + length (cmd_bytes cmd))"
  shows "\<exists>w'. wal_append crc os w cmd = Some (w', Inl Io) \<and> wal_ok crc w' ps \<and> w_mmap w' = w_mmap w"
proof -
  have "length (w_encode_buf w) = NEW_ORDER_SIZE" using assms(1) by (simp add: wal_ok_def)
  from encode_cmd [OF this, of cmd] obtain buf where
    "(case cmd of NewOrder x \<Rightarrow> encode_new_order (w_encode_buf w) x
      | CancelOrder k \<Rightarrow> encode_cancel_order (w_encode_buf w) k) = (buf, Inr (length (cmd_bytes cmd)))"
    "length buf = NEW_ORDER_SIZE" by blast
  then show ?thesis
    using assms by (auto simp: wal_append_def record_size_cmd ensure_capacity_def room_def Let_def wal_ok_def)
qed

text \<open>
  The iterator stands before the records \<open>ps\<close> of the log: the rest of the log is the bytes from
  \<open>i_read_pos\<close> to \<open>i_end_pos\<close>.
\<close>

definition iter_at :: "(u8 list \<Rightarrow> u32) \<Rightarrow> WalIterator \<Rightarrow> u8 list list \<Rightarrow> bool" where
  "iter_at crc it ps \<longleftrightarrow> (\<exists>pre bs rest. i_mmap it = pre @ bs @ rest \<and> log_bytes crc bs ps \<and>
     i_read_pos it = length pre \<and> i_end_pos it = length pre + length bs)"

lemma iter_at_from: "wal_ok crc w ps \<Longrightarrow> iter_at crc (iter_from w n) ps"
  unfolding wal_ok_def iter_at_def iter_from_def by (force intro: exI [of _ "[]"])

lemma wal_next_Nil: "iter_at crc it [] \<Longrightarrow> wal_next crc it = Some (it, None)"
  by (auto simp: iter_at_def wal_next.simps [of crc it] HEADER_SIZE_def)

lemma wal_next_record:
  assumes "record_ok p pad" "i_mmap it = pre @ record_form crc p pad @ rest" "i_read_pos it = length pre"
    and "i_read_pos it + length (record_form crc p pad) \<le> i_end_pos it"
  shows "wal_next crc it =
    (let it' = it\<lparr>i_read_pos := i_read_pos it + length (record_form crc p pad),
                  i_current_record := i_current_record it + 1\<rparr>
     in if i_current_record it + 1 \<le> i_start_record it then wal_next crc it'
        else Some (it', Some (case decode_message p of
               Inr cmd \<Rightarrow> Inr (i_current_record it + 1, cmd) | Inl e \<Rightarrow> Inl (WProtocol e))))"
proof -
  note f = record_form_ranges [OF assms(1-3)]
  have "0 < length p" "HEADER_SIZE \<le> length (record_form crc p pad)"
    using assms(1) length_record_form [OF assms(1), of crc] by (simp_all add: record_ok_def)
  then show ?thesis
    using assms(3,4) f(1-4,7) by (simp add: wal_next.simps [of crc it] Let_def split: sum.split)
qed

lemma wal_next_Cons:
  assumes "iter_at crc it (p # ps)"
  shows "\<exists>it'. iter_at crc it' ps \<and> i_current_record it' = i_current_record it + 1 \<and>
    i_start_record it' = i_start_record it \<and>
    wal_next crc it =
      (if i_current_record it + 1 \<le> i_start_record it then wal_next crc it'
       else Some (it', Some (case decode_message p of
              Inr cmd \<Rightarrow> Inr (i_current_record it + 1, cmd) | Inl e \<Rightarrow> Inl (WProtocol e))))"
proof -
  obtain pre bs rest where it: "i_mmap it = pre @ bs @ rest" "log_bytes crc bs (p # ps)"
    "i_read_pos it = length pre" "i_end_pos it = length pre + length bs"
    using assms unfolding iter_at_def by blast
  obtain pad bs' where r: "record_ok p pad" "bs = record_form crc p pad @ bs'" "log_bytes crc bs' ps"
    using it(2) by auto
  have data: "i_mmap it = pre @ record_form crc p pad @ bs' @ rest" using it(1) r(2) by simp
  let ?it = "it\<lparr>i_read_pos := i_read_pos it + length (record_form crc p pad),
    i_current_record := i_current_record it + 1\<rparr>"
  have "iter_at crc ?it ps"
    using data it(3,4) r(2,3) unfolding iter_at_def
    by (intro exI [of _ "pre @ record_form crc p pad"] exI [of _ bs'] exI [of _ rest]) simp
  then show ?thesis
    using wal_next_record [OF r(1) data it(3)] it(3,4) r(2) by (intro exI [of _ ?it]) (simp add: Let_def)
qed

text \<open>The records up to \<open>start_record\<close> are skipped, the next one is returned.\<close>

lemma wal_next_log:
  "iter_at crc it ps \<Longrightarrow>
   \<exists>it'. i_start_record it' = i_start_record it \<and>
     (case drop (i_start_record it - i_current_record it) ps of
        [] \<Rightarrow> wal_next crc it = Some (it', None)
      | p # qs \<Rightarrow> iter_at crc it' qs \<and>
          i_current_record it' = max (i_start_record it) (i_current_record it) + 1 \<and>
          wal_next crc it = Some (it', Some (case decode_message p of
            Inr cmd \<Rightarrow> Inr (i_current_record it', cmd) | Inl e \<Rightarrow> Inl (WProtocol e))))"
proof (induction ps arbitrary: it)
  case Nil
  then show ?case using wal_next_Nil by auto
next
  case (Cons p ps)
  obtain it1 where it1: "iter_at crc it1 ps" "i_current_record it1 = i_current_record it + 1"
    "i_start_record it1 = i_start_record it"
    "wal_next crc it = (if i_current_record it + 1 \<le> i_start_record it then wal_next crc it1
       else Some (it1, Some (case decode_message p of
              Inr cmd \<Rightarrow> Inr (i_current_record it + 1, cmd) | Inl e \<Rightarrow> Inl (WProtocol e))))"
    using wal_next_Cons [OF Cons.prems] by blast
  show ?case
  proof (cases "i_current_record it + 1 \<le> i_start_record it")
    case True
    have "drop (i_start_record it - i_current_record it) (p # ps) =
        drop (i_start_record it1 - i_current_record it1) ps"
      using True it1(2,3) by (simp add: drop_Cons' )
    then show ?thesis
      using Cons.IH [OF it1(1)] True it1 by (auto simp: max_def split: list.splits)
  next
    case False
    then show ?thesis using it1 by (intro exI [of _ it1]) (auto simp: max_def split: list.splits sum.splits)
  qed
qed

section \<open>Properties of the log\<close>

text \<open>A checksum for the examples; the properties hold for every one.\<close>

definition ex_crc :: "u8 list \<Rightarrow> u32" where
  "ex_crc bs = word_of_nat (le_join bs)"

definition ex_cmd :: EngineCommand where
  "ex_cmd = NewOrder \<lparr>o_id = 1, o_trader_id = 2, o_side = Bid, o_price = I64 3, o_quantity = 4,
     o_timestamp = 5\<rparr>"



text \<open>
  \<open>append\<close> on a well-formed log, with room in the map or from the system, returns the next
  record number and adds exactly one record; opening the file as it then is gives the same records
  followed by the new one, so no older bytes behind the log can ever be read again.
\<close>

theorem append_then_reopen:
  assumes "wal_ok crc w ps" "room os w (HEADER_SIZE + length (cmd_bytes cmd))" "\<And>k. os' k"
  shows "\<exists>w' w''. wal_append crc os w cmd = Some (w', Inr (length ps + 1)) \<and>
    wal_ok crc w' (ps @ [cmd_bytes cmd]) \<and>
    open_with_size crc os' (w_mmap w') n = Some (Inr w'') \<and> wal_ok crc w'' (ps @ [cmd_bytes cmd])"
proof -
  obtain w' where w': "wal_append crc os w cmd = Some (w', Inr (length ps + 1))"
    "wal_ok crc w' (ps @ [cmd_bytes cmd])"
    using append_ok [OF assms(1,2)] by blast
  then obtain bs z where "log_bytes crc bs (ps @ [cmd_bytes cmd])" "w_mmap w' = bs @ replicate z 0"
    unfolding wal_ok_def by blast
  then show ?thesis using w' open_exact [of crc bs _ os' z n] assms(3) by metis
qed

theorem append_then_reopen_witness:
  "\<exists>w w' w''. wal_ok ex_crc w [] \<and> wal_append ex_crc (\<lambda>_. True) w ex_cmd = Some (w', Inr 1) \<and>
     open_with_size ex_crc (\<lambda>_. True) (w_mmap w') 64 = Some (Inr w'') \<and>
     wal_ok ex_crc w'' [cmd_bytes ex_cmd]"
proof -
  obtain w where w: "wal_ok ex_crc w []"
    using open_exact [of ex_crc "[]" "[]" "\<lambda>_. True" 0 64] by auto
  have r: "room (\<lambda>_. True) w n" for n by (simp add: room_def)
  from append_then_reopen [OF w r, of "\<lambda>_. True" ex_cmd 64] w show ?thesis by auto
qed

text \<open>
  A failed \<open>append\<close> (no space from the system) reports \<open>Io\<close> and leaves the log as it was.
\<close>

theorem append_io_error:
  assumes "wal_ok crc w ps" "\<not> room os w (HEADER_SIZE + length (cmd_bytes cmd))"
  shows "\<exists>w'. wal_append crc os w cmd = Some (w', Inl Io) \<and> wal_ok crc w' ps \<and> w_mmap w' = w_mmap w"
  using assms by (rule append_full)

theorem append_io_error_witness:
  "\<exists>w w'. wal_ok ex_crc w [] \<and> wal_append ex_crc (\<lambda>_. False) w ex_cmd = Some (w', Inl Io) \<and>
     wal_ok ex_crc w' []"
proof -
  obtain w where w: "wal_ok ex_crc w []" "w_mmap w = replicate 16 0"
    using open_exact [of ex_crc "[]" "[]" "\<lambda>_. True" 0 16] by auto
  then have "\<not> room (\<lambda>_. False) w (HEADER_SIZE + length (cmd_bytes ex_cmd))"
    by (auto simp: room_def wal_ok_def length_cmd_bytes ex_cmd_def)
  from append_io_error [OF w(1) this] w(1) show ?thesis by blast
qed

text \<open>
  C12: Crash safety. Let a log have records \<open>ps\<close> and let a crash leave any bytes at all from the end of
  the log on (a torn or missing later record, stale data, a shorter file, or a longer one). Opening
  that file gives the records \<open>ps\<close>, all of them and in order, before anything else.
\<close>

theorem crash_keeps_records:
  assumes "wal_ok crc w ps" "w_write_pos w \<le> length file"
    and "take (w_write_pos w) file = take (w_write_pos w) (w_mmap w)" "os (max (length file) n)"
  shows "\<exists>w' qs. open_with_size crc os file n = Some (Inr w') \<and> wal_ok crc w' (ps @ qs)"
proof -
  obtain bs z where w: "log_bytes crc bs ps" "w_mmap w = bs @ replicate z 0" "w_write_pos w = length bs"
    using assms(1) by (auto simp: wal_ok_def)
  then have "take (length bs) file = bs" using assms(3) by simp
  then have f: "bs @ drop (length bs) file = file" by (metis append_take_drop_id)
  show ?thesis
    using open_prefix [OF w(1), of os "drop (length bs) file" n] assms(4) unfolding f by blast
qed

theorem crash_keeps_records_witness:
  "\<exists>w w' qs. wal_ok ex_crc w [cmd_bytes ex_cmd] \<and>
     open_with_size ex_crc (\<lambda>_. True) (take (w_write_pos w) (w_mmap w) @ [40, 0, 0, 0, 9]) 0 =
       Some (Inr w') \<and> wal_ok ex_crc w' ([cmd_bytes ex_cmd] @ qs)"
proof -
  obtain w0 where w0: "wal_ok ex_crc w0 []"
    using open_exact [of ex_crc "[]" "[]" "\<lambda>_. True" 0 64] by auto
  then obtain w where w: "wal_ok ex_crc w [cmd_bytes ex_cmd]"
    using append_ok [OF w0, of "\<lambda>_. True" ex_cmd] by (auto simp: room_def)
  then have "w_write_pos w \<le> length (w_mmap w)" by (auto simp: wal_ok_def)
  then show ?thesis
    using crash_keeps_records [OF w, of "take (w_write_pos w) (w_mmap w) @ [40, 0, 0, 0, 9]"
        "\<lambda>_. True" 0] w by auto
qed

text \<open>
  Reading from record \<open>n\<close> skips exactly \<open>n\<close> records and returns the next command with its number,
  as it was appended (up to the timestamp, which is not logged); past the end it returns \<open>None\<close>.
\<close>

theorem iter_from_reads:
  assumes "wal_ok crc w (map cmd_bytes cmds)" "\<forall>cmd\<in>set cmds. cmd_ok cmd"
  shows "\<exists>it'. wal_next crc (iter_from w n) =
    Some (it', if n < length cmds then Some (Inr (n + 1, logged (cmds ! n))) else None)"
proof -
  have it: "iter_at crc (iter_from w n) (map cmd_bytes cmds)" by (rule iter_at_from [OF assms(1)])
  have "i_start_record (iter_from w n) = n" "i_current_record (iter_from w n) = 0"
    by (simp_all add: iter_from_def)
  then show ?thesis
    using wal_next_log [OF it] assms(2)
    by (cases "n < length cmds") (auto simp: drop_map decode_cmd_bytes simp flip: Cons_nth_drop_Suc)
qed

theorem iter_from_reads_witness:
  "\<exists>w it'. wal_ok ex_crc w (map cmd_bytes [ex_cmd]) \<and>
     wal_next ex_crc (iter_from w 0) = Some (it', Some (Inr (1, logged ex_cmd)))"
proof -
  obtain w0 where w0: "wal_ok ex_crc w0 []"
    using open_exact [of ex_crc "[]" "[]" "\<lambda>_. True" 0 64] by auto
  then obtain w where w: "wal_ok ex_crc w (map cmd_bytes [ex_cmd])"
    using append_ok [OF w0, of "\<lambda>_. True" ex_cmd] by (auto simp: room_def)
  have "\<forall>cmd\<in>set [ex_cmd]. cmd_ok cmd" by (simp add: ex_cmd_def cmd_ok_def)
  from iter_from_reads [OF w this, of 0] w show ?thesis by auto
qed

end
