(* ===== verification/Engine.thy ===== *)
theory Engine
  imports Matching
begin

text \<open>
  What users of the matching engine of \<open>src/matching.rs\<close> can rely on, stated over every engine that
  \<open>with_capacity\<close>, \<open>add_order\<close> and \<open>cancel_order\<close> can reach. Each property is an application of the
  refinement to \<open>add_spec\<close> and of the facts about \<open>match_list\<close>.
\<close>

section \<open>Properties of the engine\<close>

text \<open>The engine of the examples: two resting asks, made by the engine itself.\<close>

definition ex_order :: "u64 \<Rightarrow> u64 \<Rightarrow> Side \<Rightarrow> u64 \<Rightarrow> u64 \<Rightarrow> Order" where
  "ex_order i t s p q =
     \<lparr>o_id = i, o_trader_id = t, o_side = s, o_price = I64 p, o_quantity = q, o_timestamp = 0\<rparr>"

definition ex_run :: "MatchingEngine \<Rightarrow> Order list \<Rightarrow> MatchingEngine" where
  "ex_run e xs = fold (\<lambda>x e. case add_order e x of None \<Rightarrow> e | Some (e', _) \<Rightarrow> e') xs e"

definition ex_engine :: MatchingEngine where
  "ex_engine = ex_run (MatchingEngine_with_capacity 3) [ex_order 1 1 Ask 10 5, ex_order 2 2 Ask 11 5]"

lemma ex_run_reachable: "engine_reachable c e \<Longrightarrow> engine_reachable c (ex_run e xs)"
  unfolding ex_run_def
proof (induction xs arbitrary: e)
  case (Cons x xs)
  then show ?case
    by (cases "add_order e x") (auto intro: engine_reachable.add)
qed simp

lemma ex_engine_reachable: "engine_reachable 3 ex_engine"
  unfolding ex_engine_def by (intro ex_run_reachable engine_reachable.init)

lemma reachable_add:
  assumes "engine_reachable c e" "add_order e t = Some (e', r)"
  shows "engine_ok e" "engine_ok e'" "book_ok (e_book e)" "engine_capacity e = unat c"
    "(engine_view e', r) = add_spec (unat c) (engine_view e) t"
  using reachable_ok [OF assms(1)] engine_ok_add [OF _ assms(2)] by (auto simp: engine_ok_def)

text \<open>The result of \<open>add_order\<close> spelled out over the run of \<open>match_list\<close> behind it.\<close>

lemma add_spec_cases:
  assumes "(Q', Inr r) = add_spec cap Q t"
  obtains rest fs t' st where "match_list t (Q (opposite (o_side t))) = (rest, fs, t', st)"
    "r_fills r = fs" "r_order_id r = o_id t" "Q' (opposite (o_side t)) = rest" "o_quantity t \<noteq> 0"
    "Q' (o_side t) = (if st \<or> o_quantity t' = 0 then Q (o_side t) else enqueue t' (Q (o_side t)))"
    "r_status r = (if st then CancelledSelfTrade else if o_quantity t' = 0 then FullyFilled
       else if fs = [] then Resting else PartiallyFilled)"
proof -
  obtain rest fs t' st where ml: "match_list t (Q (opposite (o_side t))) = (rest, fs, t', st)"
    by (metis prod_cases4)
  show thesis
    using assms by (intro that [OF ml]) (auto simp: add_spec_def ml Let_def split: if_splits)
qed

text \<open>
  C1: \<open>add_order\<close> on a reachable engine returns (no panic, the matching loop ends), and the new
  priority lists and the result are those of the specification \<open>add_spec\<close>.
\<close>

theorem add_order_correct:
  assumes "engine_reachable c e"
  shows "\<exists>e'. add_order e order = Some (e', snd (add_spec (unat c) (engine_view e) order)) \<and>
    engine_view e' = fst (add_spec (unat c) (engine_view e) order) \<and> engine_ok e'"
  using engine_add_order [OF _ prod.collapse [symmetric], of e order] reachable_ok [OF assms] by auto

theorem add_order_correct_witness:
  "engine_reachable 3 ex_engine \<and>
   (\<exists>e'. add_order ex_engine (ex_order 3 3 Bid 11 7) =
      Some (e', snd (add_spec (unat (3 :: u32)) (engine_view ex_engine) (ex_order 3 3 Bid 11 7))))"
  using add_order_correct [OF ex_engine_reachable, of "ex_order 3 3 Bid 11 7"] ex_engine_reachable
  by blast

text \<open>
  C8: Quantity is conserved. What an accepted order filled, plus what is left of it (resting under
  its own id and price, or dropped by self-trade prevention), is what it came with; what the other
  side lost is what was filled; the reported status says which case it was.
\<close>

theorem add_order_conserves:
  assumes "engine_reachable c e" "add_order e t = Some (e', Inr r)"
  defines "filled \<equiv> fill_total (r_fills r)" and "other \<equiv> opposite (o_side t)"
  shows "filled + (\<Sum>m\<leftarrow>engine_view e' other. unat (o_quantity m)) =
      (\<Sum>m\<leftarrow>engine_view e other. unat (o_quantity m)) \<and>
    (case r_status r of
       FullyFilled \<Rightarrow> filled = unat (o_quantity t) \<and> engine_view e' (o_side t) = engine_view e (o_side t)
     | Resting \<Rightarrow> r_fills r = [] \<and>
         engine_view e' (o_side t) = enqueue t (engine_view e (o_side t))
     | PartiallyFilled \<Rightarrow> 0 < filled \<and> filled < unat (o_quantity t) \<and>
         engine_view e' (o_side t) =
           enqueue (t\<lparr>o_quantity := o_quantity t - word_of_nat filled\<rparr>) (engine_view e (o_side t))
     | CancelledSelfTrade \<Rightarrow> filled < unat (o_quantity t) \<and>
         engine_view e' (o_side t) = engine_view e (o_side t))"
proof -
  note step = reachable_add [OF assms(1,2)]
  from step(5) obtain rest fs t' st where ml: "match_list t (engine_view e other) = (rest, fs, t', st)"
    and r: "r_fills r = fs" "engine_view e' other = rest"
      "engine_view e' (o_side t) =
         (if st \<or> o_quantity t' = 0 then engine_view e (o_side t) else enqueue t' (engine_view e (o_side t)))"
      "r_status r = (if st then CancelledSelfTrade else if o_quantity t' = 0 then FullyFilled
         else if fs = [] then Resting else PartiallyFilled)"
    unfolding other_def by (elim add_spec_cases)
  have total: "filled + unat (o_quantity t') = unat (o_quantity t)"
    using match_list_taker [OF ml] by (simp add: filled_def r(1))
  obtain q where t': "t' = t\<lparr>o_quantity := q\<rparr>" using match_list_taker_fields [OF ml] by blast
  have pos: "0 < filled" if "fs \<noteq> []"
  proof -
    obtain f where f: "f \<in> set fs" using \<open>fs \<noteq> []\<close> by (cases fs) auto
    have "f_quantity f \<noteq> 0"
      using match_list_fills [OF ml _ f] ob.queue_tags [OF step(3)] by (auto simp: fill_ok_def engine_view_def)
    then have "0 < unat (f_quantity f)" by (simp add: unat_gt_0)
    then show ?thesis
      using f by (auto simp: filled_def r(1) sum_list_eq_0_iff neq0_conv [symmetric] simp del: neq0_conv)
  qed
  have "word_of_nat filled + o_quantity t' = o_quantity t"
    using arg_cong [OF total, of "word_of_nat :: nat \<Rightarrow> u64"] by simp
  then have q: "q = o_quantity t - word_of_nat filled" by (simp add: t' algebra_simps)
  have "t' = t" if "fs = []"
    using that total t' by (simp add: filled_def r(1) unat_eq_iff)
  moreover have "filled < unat (o_quantity t)" if "o_quantity t' \<noteq> 0"
    using total that by (metis less_add_same_cancel1 unat_gt_0)
  ultimately show ?thesis
    using match_list_makers [OF ml] match_list_stop [OF ml] total pos q t' unfolding filled_def r
    by (auto split: if_splits)
qed

theorem add_order_conserves_witness:
  "\<exists>e' r. add_order ex_engine (ex_order 3 3 Bid 10 7) = Some (e', Inr r) \<and>
     r_status r = PartiallyFilled \<and> fill_total (r_fills r) = 5 \<and>
     5 + (\<Sum>m\<leftarrow>engine_view e' Ask. unat (o_quantity m)) =
       (\<Sum>m\<leftarrow>engine_view ex_engine Ask. unat (o_quantity m))"
proof -
  have "case add_order ex_engine (ex_order 3 3 Bid 10 7) of
      Some (e', Inr r) \<Rightarrow> r_status r = PartiallyFilled \<and> fill_total (r_fills r) = 5 | _ \<Rightarrow> False"
    by code_simp
  then obtain e' r where r: "add_order ex_engine (ex_order 3 3 Bid 10 7) = Some (e', Inr r)"
    "r_status r = PartiallyFilled" "fill_total (r_fills r) = 5"
    by (auto split: option.splits prod.splits sum.splits)
  then show ?thesis
    using add_order_conserves [OF ex_engine_reachable r(1)] by (auto simp: ex_order_def)
qed

text \<open>
  C9: Price-time priority. The queue an order matches against is sorted best price first; the
  fills consume it strictly from the front, in order, each maker entirely except perhaps the last
  one, and leave the rest as it was.
\<close>

theorem add_order_priority:
  assumes "engine_reachable c e" "add_order e t = Some (e', Inr r)"
  shows "prio_sorted (opposite (o_side t)) (engine_view e (opposite (o_side t))) \<and>
    consumed (engine_view e (opposite (o_side t))) (engine_view e' (opposite (o_side t))) (r_fills r)"
proof -
  note step = reachable_add [OF assms(1,2)]
  from step(5) show ?thesis
    using match_list_priority ob.queue_sorted [OF step(3)]
    by (elim add_spec_cases) (metis engine_view_def)
qed

theorem add_order_priority_witness:
  "\<exists>e' r. add_order ex_engine (ex_order 3 3 Bid 11 7) = Some (e', Inr r) \<and>
     map f_maker_order_id (r_fills r) = [1, 2] \<and>
     consumed (engine_view ex_engine Ask) (engine_view e' Ask) (r_fills r)"
proof -
  have "case add_order ex_engine (ex_order 3 3 Bid 11 7) of
      Some (e', Inr r) \<Rightarrow> map f_maker_order_id (r_fills r) = [1, 2] | _ \<Rightarrow> False"
    by code_simp
  then obtain e' r where r: "add_order ex_engine (ex_order 3 3 Bid 11 7) = Some (e', Inr r)"
    "map f_maker_order_id (r_fills r) = [1, 2]"
    by (auto split: option.splits prod.splits sum.splits)
  then show ?thesis
    using add_order_priority [OF ex_engine_reachable r(1)] by (auto simp: ex_order_def)
qed

text \<open>
  C25: Every fill has positive quantity, carries the taker's id, is priced at the resting order's
  price, within the taker's limit, and is against an order of a different trader.
\<close>

theorem add_order_fills:
  assumes "engine_reachable c e" "add_order e t = Some (e', Inr r)" "f \<in> set (r_fills r)"
  shows "f_taker_order_id f = o_id t \<and> f_quantity f \<noteq> 0 \<and>
    (case o_side t of Bid \<Rightarrow> f_price f \<le> o_price t | Ask \<Rightarrow> o_price t \<le> f_price f) \<and>
    (\<exists>m\<in>set (engine_view e (opposite (o_side t))).
       o_id m = f_maker_order_id f \<and> o_price m = f_price f \<and> o_trader_id m \<noteq> o_trader_id t)"
proof -
  note step = reachable_add [OF assms(1,2)]
  from step(5) obtain rest t' st where
    "match_list t (engine_view e (opposite (o_side t))) = (rest, r_fills r, t', st)"
    by (elim add_spec_cases) blast
  from match_list_fills [OF this _ assms(3)] show ?thesis
    using ob.queue_tags [OF step(3)] by (auto simp: fill_ok_def engine_view_def crosses_def)
qed

theorem add_order_fills_witness:
  "\<exists>e' r f. add_order ex_engine (ex_order 3 3 Bid 11 7) = Some (e', Inr r) \<and> f \<in> set (r_fills r) \<and>
     f_taker_order_id f = 3 \<and> f_price f \<le> I64 11"
proof -
  have "case add_order ex_engine (ex_order 3 3 Bid 11 7) of
      Some (e', Inr r) \<Rightarrow> r_fills r \<noteq> [] | _ \<Rightarrow> False"
    by code_simp
  then obtain e' r where r: "add_order ex_engine (ex_order 3 3 Bid 11 7) = Some (e', Inr r)"
    "hd (r_fills r) \<in> set (r_fills r)"
    by (auto split: option.splits prod.splits sum.splits)
  then show ?thesis
    using add_order_fills [OF ex_engine_reachable r] by (auto simp: ex_order_def)
qed

lemma uncrossed_best:
  assumes "engine_ok e" "best_bid (e_book e) = Some b" "best_ask (e_book e) = Some a"
  shows "b < a"
  using assms by (auto simp: engine_ok_def engine_view_def best_cached ob.best_front uncrossed_def split: list.splits)

text \<open>C10: The best bid of a reachable engine is below its best ask.\<close>

theorem best_prices_uncrossed:
  assumes "engine_reachable c e" "best_bid (e_book e) = Some b" "best_ask (e_book e) = Some a"
  shows "b < a"
  using reachable_ok [OF assms(1)] uncrossed_best assms(2,3) by blast

theorem best_prices_uncrossed_witness:
  "\<exists>e b a. engine_reachable 3 e \<and> best_bid (e_book e) = Some b \<and> best_ask (e_book e) = Some a \<and> b < a"
proof -
  let ?e = "ex_run ex_engine [ex_order 3 3 Bid 9 7]"
  have r: "engine_reachable 3 ?e" by (rule ex_run_reachable [OF ex_engine_reachable])
  have "best_bid (e_book ?e) = Some (I64 9)" "best_ask (e_book ?e) = Some (I64 10)" by code_simp+
  with best_prices_uncrossed [OF r this] r show ?thesis by blast
qed

lemma reachable_add_full:
  assumes "engine_reachable c e" "add_order e t = Some (e', Inl (Book ArenaFull))"
  shows "engine_view e' = engine_view e" "view_size (engine_view e) = unat c"
    "fst (snd (match_list t (engine_view e (opposite (o_side t))))) = []"
proof -
  note step = reachable_add [OF assms(1,2)]
  let ?o = "opposite (o_side t)" and ?Q = "engine_view e"
  obtain rest fs t' st where ml: "match_list t (?Q ?o) = (rest, fs, t', st)"
    by (metis prod_cases4)
  have sz: "view_size (?Q(?o := rest)) = unat c" "o_quantity t' \<noteq> 0" "engine_view e' = ?Q(?o := rest)"
    using step(5) by (auto simp: add_spec_def ml Let_def split: if_splits)
  have "view_size ?Q \<le> unat c"
    using ob.queue_bound [OF step(3)] step(4) by (simp add: view_size_def engine_view_def)
  moreover have "view_size (?Q(?o := rest)) < view_size ?Q" if "length rest < length (?Q ?o)"
    using that by (cases "o_side t") (auto simp: view_size_def)
  ultimately have "fs = []"
    using match_list_progress [OF ml sz(2)] sz(1) by fastforce
  moreover from this have "rest = ?Q ?o"
    using match_list_priority [OF ml] by (auto simp: consumed_def)
  ultimately show "engine_view e' = ?Q" "view_size ?Q = unat c" "fst (snd (match_list t (?Q ?o))) = []"
    using sz ml by (simp_all add: fun_upd_idem)
qed

text \<open>
  C27: An order is refused for a full arena only when nothing was matched: no fill is lost with
  \<open>ArenaFull\<close>, and the book is unchanged.
\<close>

theorem arena_full_no_fills:
  assumes "engine_reachable c e" "add_order e t = Some (e', Inl (Book ArenaFull))"
  shows "engine_view e' = engine_view e \<and> view_size (engine_view e) = unat c \<and>
    fst (snd (match_list t (engine_view e (opposite (o_side t))))) = []"
  using reachable_add_full [OF assms] by blast

theorem arena_full_no_fills_witness:
  "\<exists>e t e'. engine_reachable 2 e \<and> add_order e t = Some (e', Inl (Book ArenaFull)) \<and>
     engine_view e' = engine_view e"
proof -
  let ?e = "ex_run (MatchingEngine_with_capacity 2) [ex_order 1 1 Ask 10 5, ex_order 2 2 Ask 11 5]"
  have r: "engine_reachable 2 ?e" by (intro ex_run_reachable engine_reachable.init)
  have "case add_order ?e (ex_order 3 3 Bid 9 7) of
      Some (e', Inl err) \<Rightarrow> err = Book ArenaFull | _ \<Rightarrow> False"
    by code_simp
  then obtain e' where a: "add_order ?e (ex_order 3 3 Bid 9 7) = Some (e', Inl (Book ArenaFull))"
    by (auto split: option.splits prod.splits sum.splits)
  from arena_full_no_fills [OF r a] r a show ?thesis by blast
qed

text \<open>
  C28: Self-trade prevention. An order is reported \<open>CancelledSelfTrade\<close> exactly when, after its
  fills, it still has quantity and the best order it could trade with next belongs to its own
  trader; then nothing of it rests.
\<close>

theorem self_trade_prevention:
  assumes "engine_reachable c e" "add_order e t = Some (e', Inr r)"
  shows "r_status r = CancelledSelfTrade \<longleftrightarrow>
    fill_total (r_fills r) < unat (o_quantity t) \<and>
    (\<exists>m ms. engine_view e' (opposite (o_side t)) = m # ms \<and> crosses t (o_price m) \<and>
       o_trader_id m = o_trader_id t)"
proof -
  note step = reachable_add [OF assms(1,2)]
  from step(5) obtain rest t' st where
    ml: "match_list t (engine_view e (opposite (o_side t))) = (rest, r_fills r, t', st)"
    and view: "engine_view e' (opposite (o_side t)) = rest"
    and status: "r_status r = CancelledSelfTrade \<longleftrightarrow> st"
    by (elim add_spec_cases) (auto split: if_splits)
  have "fill_total (r_fills r) < unat (o_quantity t) \<longleftrightarrow> o_quantity t' \<noteq> 0"
    using match_list_taker [OF ml] by (metis add.right_neutral less_add_same_cancel1 less_irrefl unat_0 unat_gt_0)
  then show ?thesis
    using match_list_stop [OF ml] view status by (auto split: if_splits list.splits)
qed

theorem self_trade_prevention_witness:
  "\<exists>e' r. add_order ex_engine (ex_order 3 2 Bid 11 7) = Some (e', Inr r) \<and>
     r_status r = CancelledSelfTrade \<and> fill_total (r_fills r) = 5 \<and>
     (\<exists>m ms. engine_view e' Ask = m # ms \<and> o_trader_id m = 2)"
proof -
  have "case add_order ex_engine (ex_order 3 2 Bid 11 7) of
      Some (e', Inr r) \<Rightarrow> r_status r = CancelledSelfTrade \<and> fill_total (r_fills r) = 5 | _ \<Rightarrow> False"
    by code_simp
  then obtain e' r where r: "add_order ex_engine (ex_order 3 2 Bid 11 7) = Some (e', Inr r)"
    "r_status r = CancelledSelfTrade" "fill_total (r_fills r) = 5"
    by (auto split: option.splits prod.splits sum.splits)
  then show ?thesis
    using self_trade_prevention [OF ex_engine_reachable r(1)] by (auto simp: ex_order_def)
qed

text \<open>
  The errors of \<open>add_order\<close>: only a zero quantity, a full arena or a duplicate id, and the first
  two leave the book as it was.
\<close>

theorem add_order_errors:
  assumes "engine_reachable c e" "add_order e t = Some (e', Inl err)"
  shows "(err = ZeroQuantity \<and> o_quantity t = 0 \<and> e' = e) \<or>
    (err = Book ArenaFull \<and> engine_view e' = engine_view e) \<or>
    (err = Book (DuplicateOrderId (o_id t)) \<and> o_id t \<in> view_ids (engine_view e'))"
proof (cases "o_quantity t = 0")
  case True
  then show ?thesis using assms(2) by (simp add: add_order_def)
next
  case nz: False
  note step = reachable_add [OF assms(1,2)]
  obtain rest fs t' st where ml: "match_list t (engine_view e (opposite (o_side t))) = (rest, fs, t', st)"
    by (metis prod_cases4)
  have "err = Book ArenaFull \<or> err = Book (DuplicateOrderId (o_id t)) \<and> o_id t \<in> view_ids (engine_view e')"
    using step(5) nz by (auto simp: add_spec_def ml Let_def split: if_splits)
  moreover have "engine_view e' = engine_view e" if "err = Book ArenaFull"
    using reachable_add_full [OF assms(1)] assms(2) that by blast
  ultimately show ?thesis by blast
qed

theorem add_order_errors_witness:
  "\<exists>e'. add_order ex_engine (ex_order 3 3 Bid 11 0) = Some (e', Inl ZeroQuantity) \<and> e' = ex_engine"
proof -
  have "case add_order ex_engine (ex_order 3 3 Bid 11 0) of
      Some (e', Inl err) \<Rightarrow> err = ZeroQuantity | _ \<Rightarrow> False"
    by code_simp
  then obtain e' where r: "add_order ex_engine (ex_order 3 3 Bid 11 0) = Some (e', Inl ZeroQuantity)"
    by (auto split: option.splits prod.splits sum.splits)
  then show ?thesis using add_order_errors [OF ex_engine_reachable r] by simp
qed

text \<open>
  C36: The duplicate-id check of \<open>insert_order\<close> comes after matching. An order that reuses a resting
  id can trade with the book and then be refused with \<open>DuplicateOrderId\<close>: the resting orders it hit
  are reduced, and the fills are not part of the result.
\<close>

theorem duplicate_id_trades_then_fails:
  "\<exists>e t e' m. engine_reachable 3 e \<and>
     add_order e t = Some (e', Inl (Book (DuplicateOrderId (o_id t)))) \<and>
     m \<in> set (engine_view e Ask) \<and> m \<notin> set (engine_view e' Ask) \<and>
     fill_total (e_fills_buf e') = unat (o_quantity m)"
proof -
  let ?e = "ex_run ex_engine [ex_order 7 7 Bid 9 1]" and ?t = "ex_order 7 8 Bid 10 6"
  let ?m = "ex_order 1 1 Ask 10 5"
  have r: "engine_reachable 3 ?e" by (rule ex_run_reachable [OF ex_engine_reachable])
  have "case add_order ?e ?t of Some (e', Inl err) \<Rightarrow>
      err = Book (DuplicateOrderId 7) \<and> ?m \<notin> set (engine_view e' Ask) \<and>
      fill_total (e_fills_buf e') = 5 | _ \<Rightarrow> False"
    by code_simp
  then obtain e' where e': "add_order ?e ?t = Some (e', Inl (Book (DuplicateOrderId 7)))"
    "?m \<notin> set (engine_view e' Ask)" "fill_total (e_fills_buf e') = 5"
    by (auto split: option.splits prod.splits sum.splits)
  moreover have "?m \<in> set (engine_view ?e Ask)" by code_simp
  moreover have "o_id ?t = 7" "unat (o_quantity ?m) = 5" by (simp_all add: ex_order_def)
  ultimately show ?thesis using r by metis
qed

text \<open>
  C29: \<open>cancel_order\<close> on a reachable engine returns. An unknown id is reported and changes nothing;
  a resting id returns that order and removes it alone.
\<close>

theorem cancel_order_correct:
  assumes "engine_reachable c e"
  shows "\<exists>e' r. engine_cancel_order e k = Some (e', r) \<and> engine_ok e' \<and>
    (if k \<in> view_ids (engine_view e)
     then \<exists>x. r = Inr x \<and> o_id x = k \<and> x \<in> set (engine_view e (o_side x)) \<and>
       (\<forall>s. engine_view e' s = filter (\<lambda>y. o_id y \<noteq> k) (engine_view e s))
     else r = Inl (Book (OrderNotFound k)) \<and> engine_view e' = engine_view e)"
proof -
  have ok: "engine_ok e" "book_ok (e_book e)"
    using reachable_ok [OF assms] by (auto simp: engine_ok_def)
  obtain Q' r where spec: "cancel_spec (engine_view e) k = (Q', r)" by (metis surj_pair)
  then obtain e' where e': "engine_cancel_order e k = Some (e', r)" "engine_ok e'" "engine_view e' = Q'"
    using engine_cancel_order [OF ok(1)] by blast
  show ?thesis
  proof (cases "k \<in> view_ids (engine_view e)")
    case True
    then obtain x where x: "x \<in> set (engine_view e Ask @ engine_view e Bid)" "o_id x = k"
      by (auto simp: view_ids_def)
    have d: "distinct (map o_id (engine_view e Ask @ engine_view e Bid))"
      using ob.queue_ids [OF ok(2)] by (simp add: engine_view_def)
    have mem: "x \<in> set (engine_view e (o_side x))"
      using x(1) ob.queue_tags [OF ok(2)] by (auto simp: engine_view_def)
    have "filter (\<lambda>y. o_id y \<noteq> k) (engine_view e s) = engine_view e s" if "s \<noteq> o_side x" for s
      using that d mem x(2) by (cases s; cases "o_side x") (auto intro!: filter_True)
    then have "Q' s = filter (\<lambda>y. o_id y \<noteq> k) (engine_view e s) \<and> r = Inr x" for s
      using spec find_unique [OF d x] by (cases "s = o_side x") (auto simp: cancel_spec_def)
    then show ?thesis using e' x(2) mem True by auto
  next
    case False
    then have "find (\<lambda>x. o_id x = k) (engine_view e Ask @ engine_view e Bid) = None"
      by (auto simp: find_None_iff view_ids_def)
    then show ?thesis using spec e' False by (auto simp: cancel_spec_def)
  qed
qed

theorem cancel_order_correct_witness:
  "\<exists>e' x. engine_cancel_order ex_engine 2 = Some (e', Inr x) \<and> o_id x = 2 \<and>
     engine_view e' Ask = filter (\<lambda>y. o_id y \<noteq> 2) (engine_view ex_engine Ask)"
proof -
  have "2 \<in> view_ids (engine_view ex_engine)" by code_simp
  then show ?thesis using cancel_order_correct [OF ex_engine_reachable, of 2] by auto
qed

text \<open>
  On every reachable engine \<open>all_resting_orders\<close> returns, and lists each resting order once,
  asks from the lowest price and bids from the highest, oldest first within a price; the length of
  the list, the size of the id index and the arena's own count agree (the \<open>debug_assert\<close> of every
  book operation) and stay within the capacity.
\<close>

theorem resting_orders_listed:
  assumes "engine_reachable c e"
  shows "\<exists>asks bids. all_resting_orders (e_book e) = Some (asks @ bids) \<and>
    prio_sorted Ask asks \<and> prio_sorted Bid bids \<and>
    (\<forall>x\<in>set asks. o_side x = Ask) \<and> (\<forall>x\<in>set bids. o_side x = Bid) \<and>
    distinct (map o_id (asks @ bids)) \<and>
    length (asks @ bids) = order_count (e_book e) \<and>
    unat (a_count (b_arena (e_book e))) = order_count (e_book e) \<and> order_count (e_book e) \<le> unat c"
proof -
  have ok: "book_ok (e_book e)" "engine_capacity e = unat c"
    using reachable_ok [OF assms] by (auto simp: engine_ok_def)
  then show ?thesis
    using all_resting_orders_eq [OF ok(1)] ob.queue_sorted [OF ok(1)] ob.queue_tags [OF ok(1)]
      ob.queue_ids [OF ok(1)] order_count_side_orders [OF ok(1)] order_count_ids [OF ok(1)]
    by (intro exI [of _ "side_orders (e_book e) Ask"] exI [of _ "side_orders (e_book e) Bid"]) simp
qed

theorem resting_orders_listed_witness:
  "engine_reachable 3 ex_engine \<and> order_count (e_book ex_engine) = 2 \<and>
   (\<exists>os. all_resting_orders (e_book ex_engine) = Some os \<and> length os = 2)"
proof -
  have "order_count (e_book ex_engine) = 2" by code_simp
  then show ?thesis
    using resting_orders_listed [OF ex_engine_reachable] ex_engine_reachable by force
qed

text \<open>
  Restoring from the list of resting orders into an arena that can hold them gives an engine
  with the same priority queues, time priority included.
\<close>

theorem restore_preserves_book:
  assumes "engine_reachable c e" "order_count (e_book e) \<le> unat cap"
  shows "\<exists>os e'. all_resting_orders (e_book e) = Some os \<and> restore_from_orders os cap = Some (Inr e') \<and>
    engine_ok e' \<and> engine_view e' = engine_view e \<and> engine_capacity e' = unat cap"
proof -
  have ok: "engine_ok e" "book_ok (e_book e)"
    using reachable_ok [OF assms(1)] by (auto simp: engine_ok_def)
  then show ?thesis
    using restore_roundtrip [OF ok(1) all_resting_orders_eq [OF ok(2)]] assms(2)
      all_resting_orders_eq [OF ok(2)] order_count_side_orders [OF ok(2)] by auto
qed

theorem restore_preserves_book_witness:
  "\<exists>os e'. all_resting_orders (e_book ex_engine) = Some os \<and>
     restore_from_orders os 2 = Some (Inr e') \<and> engine_view e' = engine_view ex_engine"
proof -
  have "order_count (e_book ex_engine) \<le> unat (2 :: u32)" by code_simp
  from restore_preserves_book [OF ex_engine_reachable this] show ?thesis by blast
qed

end
