(* ===== verification/Snapshot.thy ===== *)
theory Snapshot
  imports Engine Bytes "HOL-Library.List_Lexorder" "HOL-Library.Char_ord"
begin

text \<open>
  \<open>src/snapshot.rs\<close>: snapshots of the book. \<open>crc32fast\<close> and \<open>bincode\<close> are outside the crate and are
  parameters: \<open>crc\<close> the checksum, \<open>ser_fields\<close> the serialization of the four checksummed fields,
  \<open>ser\<close> and \<open>de\<close> the serialization of a snapshot. A directory is the list of its file names with
  their contents, in any order; \<open>wal_record_count\<close> is a \<open>nat\<close> (a log has far fewer than \<open>2 ^ 64\<close>
  records).
\<close>

section \<open>The code\<close>

record Snapshot =
  s_wal_record_count :: nat
  s_orders :: "Order list"
  s_best_bid :: "i64 option"
  s_best_ask :: "i64 option"
  s_checksum :: u32

datatype SnapshotError =
    SnapIo
  | Serialize
  | Deserialize
  | ChecksumMismatch u32 u32
  | Restore MatchingError

type_synonym snap_fields = "nat \<times> i64 option \<times> i64 option \<times> Order list"

definition compute_checksum ::
  "(u8 list \<Rightarrow> u32) \<Rightarrow> (snap_fields \<Rightarrow> u8 list) \<Rightarrow> nat \<Rightarrow> i64 option \<Rightarrow> i64 option \<Rightarrow> Order list \<Rightarrow> u32" where
  "compute_checksum crc ser_fields wal_record_count bb ba orders =
     crc (ser_fields (wal_record_count, bb, ba, orders))"

definition capture ::
  "(u8 list \<Rightarrow> u32) \<Rightarrow> (snap_fields \<Rightarrow> u8 list) \<Rightarrow> MatchingEngine \<Rightarrow> nat \<Rightarrow> Snapshot option" where
  "capture crc ser_fields engine wal_record_count = do {
     orders \<leftarrow> all_resting_orders (e_book engine);
     let bb = best_bid (e_book engine);
     let ba = best_ask (e_book engine);
     let checksum = compute_checksum crc ser_fields wal_record_count bb ba orders;
     Some \<lparr>s_wal_record_count = wal_record_count, s_orders = orders, s_best_bid = bb,
           s_best_ask = ba, s_checksum = checksum\<rparr>
   }"

definition verify_checksum ::
  "(u8 list \<Rightarrow> u32) \<Rightarrow> (snap_fields \<Rightarrow> u8 list) \<Rightarrow> Snapshot \<Rightarrow> SnapshotError + unit" where
  "verify_checksum crc ser_fields s =
     (let actual = compute_checksum crc ser_fields (s_wal_record_count s) (s_best_bid s)
                     (s_best_ask s) (s_orders s)
      in if s_checksum s = actual then Inr () else Inl (ChecksumMismatch (s_checksum s) actual))"

text \<open>Files: \<open>fs::write\<close> replaces or creates, \<open>fs::rename\<close> moves over an existing file.\<close>

type_synonym dir = "(string \<times> u8 list) list"

definition fs_write :: "string \<Rightarrow> u8 list \<Rightarrow> dir \<Rightarrow> dir" where
  "fs_write name data d = (name, data) # filter (\<lambda>f. fst f \<noteq> name) d"

definition fs_rename :: "string \<Rightarrow> string \<Rightarrow> dir \<Rightarrow> dir" where
  "fs_rename from to d =
     (case map_of d from of
        None \<Rightarrow> d
      | Some data \<Rightarrow> fs_write to data (filter (\<lambda>f. fst f \<noteq> from) d))"

text \<open>\<open>{:010}\<close>: decimal, padded with zeros to ten digits.\<close>

fun digits :: "nat \<Rightarrow> nat \<Rightarrow> string" where
  "digits 0 n = []"
| "digits (Suc k) n = digits k (n div 10) @ [char_of (48 + n mod 10)]"

fun num_digits :: "nat \<Rightarrow> nat" where
  "num_digits n = (if n < 10 then 1 else Suc (num_digits (n div 10)))"

definition format_010 :: "nat \<Rightarrow> string" where
  "format_010 n = digits (max 10 (num_digits n)) n"

definition snapshot_name :: "nat \<Rightarrow> string" where
  "snapshot_name n = ''snapshot_'' @ format_010 n @ ''.bin''"

definition tmp_name :: "nat \<Rightarrow> string" where
  "tmp_name n = snapshot_name n @ ''.tmp''"

text \<open>\<open>save\<close> as its two file operations: the directory after the write, and after the rename.\<close>

definition save_write :: "(Snapshot \<Rightarrow> u8 list) \<Rightarrow> Snapshot \<Rightarrow> dir \<Rightarrow> dir" where
  "save_write ser s d = fs_write (tmp_name (s_wal_record_count s)) (ser s) d"

definition save_rename :: "Snapshot \<Rightarrow> dir \<Rightarrow> dir" where
  "save_rename s d = fs_rename (tmp_name (s_wal_record_count s)) (snapshot_name (s_wal_record_count s)) d"

text \<open>
  Where \<open>save\<close> can fail, which the system decides: in \<open>create_dir_all\<close>, in \<open>bincode::serialize\<close>, in
  \<open>fs::write\<close> (\<open>None\<close> when the file cannot be opened, \<open>Some n\<close> after \<open>n\<close> bytes of it), in \<open>fs::rename\<close>.
  The directory is the one left behind; a crash inside \<open>save\<close> leaves one of the same directories.
\<close>

datatype save_fault = NoFault | CreateDirFails | SerializeFails | WriteFails "nat option" | RenameFails

definition save ::
  "(Snapshot \<Rightarrow> u8 list) \<Rightarrow> save_fault \<Rightarrow> Snapshot \<Rightarrow> dir \<Rightarrow> dir \<times> (SnapshotError + string)" where
  "save ser fault s d =
     (case fault of
        CreateDirFails \<Rightarrow> (d, Inl SnapIo)
      | SerializeFails \<Rightarrow> (d, Inl Serialize)
      | WriteFails None \<Rightarrow> (d, Inl SnapIo)
      | WriteFails (Some n) \<Rightarrow> (save_write (\<lambda>s. take n (ser s)) s d, Inl SnapIo)
      | RenameFails \<Rightarrow> (save_write ser s d, Inl SnapIo)
      | NoFault \<Rightarrow> (save_rename s (save_write ser s d), Inr (snapshot_name (s_wal_record_count s))))"

definition starts_with :: "string \<Rightarrow> string \<Rightarrow> bool" where
  "starts_with n p = (take (length p) n = p)"

definition ends_with :: "string \<Rightarrow> string \<Rightarrow> bool" where
  "ends_with n p = (length p \<le> length n \<and> drop (length n - length p) n = p)"

definition is_snapshot_file :: "string \<Rightarrow> bool" where
  "is_snapshot_file n = (starts_with n ''snapshot_'' \<and> ends_with n ''.bin'')"

definition load_from_file :: "(u8 list \<Rightarrow> Snapshot option) \<Rightarrow> dir \<Rightarrow> string \<Rightarrow> SnapshotError + Snapshot" where
  "load_from_file de d path = and_then (ok_or (map_of d path) SnapIo) (\<lambda>data. ok_or (de data) Deserialize)"

text \<open>The loop that pops candidates from the end of the sorted list.\<close>

fun try_snapshots ::
  "(u8 list \<Rightarrow> u32) \<Rightarrow> (snap_fields \<Rightarrow> u8 list) \<Rightarrow> (u8 list \<Rightarrow> Snapshot option) \<Rightarrow> dir \<Rightarrow> string list \<Rightarrow>
   Snapshot option" where
  "try_snapshots crc ser_fields de d [] = None"
| "try_snapshots crc ser_fields de d (path # older) =
     (case load_from_file de d path of
        Inr snap \<Rightarrow>
          if verify_checksum crc ser_fields snap = Inr () then Some snap
          else try_snapshots crc ser_fields de d older
      | Inl _ \<Rightarrow> try_snapshots crc ser_fields de d older)"

text \<open>
  The result of \<open>read_dir\<close>: an error, no such directory (\<open>Inr None\<close>), or the directory.
\<close>

definition load_latest ::
  "(u8 list \<Rightarrow> u32) \<Rightarrow> (snap_fields \<Rightarrow> u8 list) \<Rightarrow> (u8 list \<Rightarrow> Snapshot option) \<Rightarrow>
   SnapshotError + dir option \<Rightarrow> SnapshotError + Snapshot option" where
  "load_latest crc ser_fields de entries =
     (case entries of
        Inl e \<Rightarrow> Inl e
      | Inr None \<Rightarrow> Inr None
      | Inr (Some d) \<Rightarrow>
          Inr (try_snapshots crc ser_fields de d (rev (sort (filter is_snapshot_file (map fst d))))))"

definition snapshot_restore :: "Snapshot \<Rightarrow> u32 \<Rightarrow> (SnapshotError + MatchingEngine) option" where
  "snapshot_restore s arena_capacity = do {
     r \<leftarrow> restore_from_orders (s_orders s) arena_capacity;
     Some (case r of Inl e \<Rightarrow> Inl (Restore e) | Inr engine \<Rightarrow> Inr engine)
   }"

section \<open>Names\<close>

lemma length_digits [simp]: "length (digits k n) = k"
  by (induction k arbitrary: n) auto

lemma char_of_less: "a < 10 \<Longrightarrow> b < 10 \<Longrightarrow> (char_of (48 + a) < (char_of (48 + b) :: char)) = (a < (b :: nat))"
  by (simp add: less_char_def)

text \<open>With the same number of digits, the order of the strings is the order of the numbers.\<close>

lemma list_less_snoc:
  "length xs = length ys \<Longrightarrow> (xs @ [a] < ys @ [b]) = (xs < ys \<or> xs = ys \<and> a < b)" for xs ys :: "'a::linorder list"
  by (induction xs ys rule: list_induct2) auto

lemma less_by_digits:
  "m = 10 * a + b \<Longrightarrow> n = 10 * c + d \<Longrightarrow> b < 10 \<Longrightarrow> d < 10 \<Longrightarrow> m < n \<longleftrightarrow> a < c \<or> a = c \<and> b < d"
  for m n a b c d :: nat
  by presburger

lemma digits_less: "m < 10 ^ k \<Longrightarrow> n < 10 ^ k \<Longrightarrow> digits k m < digits k n \<longleftrightarrow> m < n"
proof (induction k arbitrary: m n)
  case (Suc k)
  have q: "m div 10 < 10 ^ k" "n div 10 < 10 ^ k" using Suc.prems by auto
  have inj: "digits k (m div 10) = digits k (n div 10) \<longleftrightarrow> m div 10 = n div 10"
    using Suc.IH [OF q] Suc.IH [OF q(2,1)] by (metis less_irrefl nat_neq_iff)
  have "m < n \<longleftrightarrow> m div 10 < n div 10 \<or> m div 10 = n div 10 \<and> m mod 10 < n mod 10"
    by (intro less_by_digits) simp_all
  then show ?case
    using Suc.IH [OF q] inj by (simp add: list_less_snoc char_of_less)
qed simp

lemma num_digits_le: "0 < k \<Longrightarrow> n < 10 ^ k \<Longrightarrow> num_digits n \<le> k"
proof (induction k arbitrary: n)
  case (Suc k)
  show ?case
  proof (cases "n < 10")
    case False
    then have "0 < k" "n div 10 < 10 ^ k" using Suc.prems by (cases k; auto)+
    then show ?thesis using Suc.IH False by simp
  qed simp
qed simp

declare num_digits.simps [simp del]

lemma format_010_digits: "n < 10 ^ 10 \<Longrightarrow> format_010 n = digits 10 n"
  using num_digits_le [of 10 n] by (simp add: format_010_def max_def)

lemma append_less_suffix:
  "length xs = length ys \<Longrightarrow> (xs @ zs < ys @ zs) = (xs < ys)" for xs ys :: "'a::linorder list"
  by (induction xs ys rule: list_induct2) auto

lemma append_less_prefix: "(ps @ xs < ps @ ys) = (xs < ys)" for xs ys :: "'a::linorder list"
  by (induction ps) auto

lemma snapshot_name_less:
  assumes "m < 10 ^ 10" "n < 10 ^ 10"
  shows "snapshot_name m < snapshot_name n \<longleftrightarrow> m < n"
  using digits_less [OF assms]
  by (simp only: snapshot_name_def format_010_digits [OF assms(1)] format_010_digits [OF assms(2)]
      append_less_prefix append_less_suffix length_digits)

lemma is_snapshot_name [simp]: "is_snapshot_file (snapshot_name n)"
  by (simp add: is_snapshot_file_def starts_with_def ends_with_def snapshot_name_def)

lemma not_snapshot_tmp [simp]: "\<not> is_snapshot_file (tmp_name n)"
  by (simp add: is_snapshot_file_def ends_with_def tmp_name_def)

lemma tmp_name_neq [simp]: "tmp_name n \<noteq> snapshot_name m"
  by (metis is_snapshot_name not_snapshot_tmp)

section \<open>Saving and loading\<close>

lemma sort_max_last:
  fixes x :: "'a::linorder"
  assumes "x \<in> set xs" "\<forall>y\<in>set xs. y \<le> x"
  shows "\<exists>ys. rev (sort xs) = x # ys"
proof (cases "sort xs" rule: rev_cases)
  case (snoc zs z)
  have "set xs = set (zs @ [z])" unfolding snoc [symmetric] by simp
  moreover have "sorted (zs @ [z])" unfolding snoc [symmetric] by simp
  ultimately have "z \<in> set xs" "\<forall>y\<in>set xs. y \<le> z" by (auto simp: sorted_append)
  then have "z = x" using assms by (meson antisym)
  then show ?thesis using snoc by simp
qed (use assms in \<open>auto dest: arg_cong [of _ _ set]\<close>)

lemma map_of_filter_key: "map_of (filter (\<lambda>f. fst f \<noteq> n) d) m = (if m = n then None else map_of d m)"
  by (induction d) auto

lemma map_of_save:
  "map_of (fst (save ser NoFault s d)) path =
     (if path = snapshot_name (s_wal_record_count s) then Some (ser s)
      else if path = tmp_name (s_wal_record_count s) then None else map_of d path)"
  by (simp add: save_def save_write_def save_rename_def fs_rename_def fs_write_def map_of_filter_key
      del: filter_filter)

lemma names_save:
  "path \<in> fst ` set (fst (save ser NoFault s d)) \<longleftrightarrow> path = snapshot_name (s_wal_record_count s) \<or>
     path \<in> fst ` set d \<and> path \<noteq> tmp_name (s_wal_record_count s)"
proof -
  have "path \<in> fst ` set X \<longleftrightarrow> map_of X path \<noteq> None" for X :: dir
    by (simp add: map_of_eq_None_iff)
  then show ?thesis using map_of_save [of ser s d path] by simp
qed

lemma capture_total:
  assumes "book_ok (e_book e)"
  shows "\<exists>s. capture crc ser_fields e n = Some s \<and> s_wal_record_count s = n \<and>
    all_resting_orders (e_book e) = Some (s_orders s) \<and> s_best_bid s = best_bid (e_book e) \<and>
    s_best_ask s = best_ask (e_book e) \<and> verify_checksum crc ser_fields s = Inr ()"
  using all_resting_orders_eq [OF assms] by (simp add: capture_def verify_checksum_def Let_def)

text \<open>Candidates that cannot be read or do not verify are passed over.\<close>

definition loads :: "(u8 list \<Rightarrow> u32) \<Rightarrow> (snap_fields \<Rightarrow> u8 list) \<Rightarrow> (u8 list \<Rightarrow> Snapshot option) \<Rightarrow> dir \<Rightarrow>
   string \<Rightarrow> Snapshot \<Rightarrow> bool" where
  "loads crc ser_fields de d path s \<longleftrightarrow>
     load_from_file de d path = Inr s \<and> verify_checksum crc ser_fields s = Inr ()"

lemma try_snapshots_Cons:
  "loads crc ser_fields de d path s \<Longrightarrow> try_snapshots crc ser_fields de d (path # older) = Some s"
  "\<forall>s. \<not> loads crc ser_fields de d path s \<Longrightarrow>
     try_snapshots crc ser_fields de d (path # older) = try_snapshots crc ser_fields de d older"
  by (auto simp: loads_def split: sum.split)

lemma try_snapshots_newest:
  "sorted_wrt (>) paths \<Longrightarrow>
   case try_snapshots crc ser_fields de d paths of
     None \<Rightarrow> \<forall>p\<in>set paths. \<forall>s. \<not> loads crc ser_fields de d p s
   | Some s \<Rightarrow> \<exists>path\<in>set paths. loads crc ser_fields de d path s \<and>
       (\<forall>p\<in>set paths. path < p \<longrightarrow> (\<forall>s. \<not> loads crc ser_fields de d p s))"
proof (induction paths)
  case (Cons path paths)
  show ?case
  proof (cases "\<exists>s. loads crc ser_fields de d path s")
    case True
    then obtain s where "loads crc ser_fields de d path s" by blast
    then show ?thesis
      using Cons.prems by (auto simp: try_snapshots_Cons(1) simp del: try_snapshots.simps)
  next
    case False
    then show ?thesis
      using Cons by (auto simp: try_snapshots_Cons(2) simp del: try_snapshots.simps split: option.splits)
  qed
qed simp

lemma load_latest_candidates:
  "distinct (map fst d) \<Longrightarrow> sorted_wrt (>) (rev (sort (filter is_snapshot_file (map fst d))))"
  by (simp add: sorted_wrt_rev strict_sorted_iff)

section \<open>Properties of snapshots\<close>

text \<open>
  C23: \<open>load_latest\<close> returns the newest snapshot that can be read and whose checksum verifies: a file
  name later in the directory order is only passed over when it does not; it returns \<open>None\<close> only
  when no snapshot file is good.
\<close>

theorem load_latest_newest_valid:
  assumes "distinct (map fst d)"
  shows "case load_latest crc ser_fields de (Inr (Some d)) of
      Inl e \<Rightarrow> False
    | Inr None \<Rightarrow> \<forall>p\<in>fst ` set d. is_snapshot_file p \<longrightarrow> (\<forall>s. \<not> loads crc ser_fields de d p s)
    | Inr (Some s) \<Rightarrow> \<exists>path\<in>fst ` set d. is_snapshot_file path \<and> loads crc ser_fields de d path s \<and>
        (\<forall>p\<in>fst ` set d. is_snapshot_file p \<and> path < p \<longrightarrow> (\<forall>s. \<not> loads crc ser_fields de d p s))"
  using try_snapshots_newest [OF load_latest_candidates [OF assms], of crc ser_fields de d]
  by (auto simp: load_latest_def split: option.splits)

text \<open>A serialization for the examples: numbers in unary, separated by zero bytes.\<close>

definition ex_ser_nats :: "nat list \<Rightarrow> u8 list" where
  "ex_ser_nats ns = concat (map (\<lambda>n. replicate n 1 @ [0]) ns)"

fun ex_de_nats :: "u8 list \<Rightarrow> nat \<Rightarrow> nat list" where
  "ex_de_nats [] n = []"
| "ex_de_nats (b # bs) n = (if b = 0 then n # ex_de_nats bs 0 else ex_de_nats bs (Suc n))"

definition ex_opt :: "i64 option \<Rightarrow> nat" where
  "ex_opt x = (case x of None \<Rightarrow> 0 | Some p \<Rightarrow> Suc (unat (i64_bits p)))"

definition ex_unopt :: "nat \<Rightarrow> i64 option" where
  "ex_unopt n = (if n = 0 then None else Some (I64 (word_of_nat (n - 1))))"

definition ex_order_nats :: "Order \<Rightarrow> nat list" where
  "ex_order_nats x = [unat (o_id x), unat (o_trader_id x), case o_side x of Bid \<Rightarrow> 0 | Ask \<Rightarrow> 1,
     unat (i64_bits (o_price x)), unat (o_quantity x), unat (o_timestamp x)]"

fun ex_nats_orders :: "nat list \<Rightarrow> Order list" where
  "ex_nats_orders (a # b # c # d # e # f # ns) =
     \<lparr>o_id = word_of_nat a, o_trader_id = word_of_nat b, o_side = (if c = 0 then Bid else Ask),
      o_price = I64 (word_of_nat d), o_quantity = word_of_nat e, o_timestamp = word_of_nat f\<rparr> #
     ex_nats_orders ns"
| "ex_nats_orders _ = []"

definition ex_ser :: "Snapshot \<Rightarrow> u8 list" where
  "ex_ser s = ex_ser_nats ([s_wal_record_count s, ex_opt (s_best_bid s), ex_opt (s_best_ask s),
     unat (s_checksum s)] @ concat (map ex_order_nats (s_orders s)))"

definition ex_de :: "u8 list \<Rightarrow> Snapshot option" where
  "ex_de bs = (case ex_de_nats bs 0 of
     a # b # c # d # ns \<Rightarrow> Some \<lparr>s_wal_record_count = a, s_orders = ex_nats_orders ns,
       s_best_bid = ex_unopt b, s_best_ask = ex_unopt c, s_checksum = word_of_nat d\<rparr>
   | _ \<Rightarrow> None)"

lemma ex_de_nats_rep: "ex_de_nats (replicate k 1 @ 0 # bs) n = (n + k) # ex_de_nats bs 0"
  by (induction k arbitrary: n) auto

lemma ex_nats: "ex_de_nats (ex_ser_nats ns) 0 = ns"
  by (induction ns) (simp_all add: ex_ser_nats_def ex_de_nats_rep)

lemma ex_orders: "ex_nats_orders (concat (map ex_order_nats xs)) = xs"
proof (induction xs)
  case (Cons x xs)
  then show ?case by (cases x; cases "o_side x") (simp_all add: ex_order_nats_def)
qed simp

lemma ex_unopt_opt [simp]: "ex_unopt (ex_opt x) = x"
  by (cases x) (simp_all add: ex_opt_def ex_unopt_def)

lemma ex_de_ser: "ex_de (ex_ser s) = Some s"
  by (simp add: ex_de_def ex_ser_def ex_nats ex_orders)

definition ex_ser_fields :: "snap_fields \<Rightarrow> u8 list" where
  "ex_ser_fields x = (case x of (n, b, a, orders) \<Rightarrow>
     ex_ser_nats ([n, ex_opt b, ex_opt a] @ concat (map ex_order_nats orders)))"

definition ex_sum :: "u8 list \<Rightarrow> u32" where
  "ex_sum bs = word_of_nat (le_join bs)"

theorem load_latest_newest_valid_witness:
  "\<exists>s. load_latest ex_sum ex_ser_fields ex_de (Inr (Some [(snapshot_name 3, []), (snapshot_name 7, [])])) =
       Inr None \<and>
     \<not> loads ex_sum ex_ser_fields ex_de [(snapshot_name 3, []), (snapshot_name 7, [])] (snapshot_name 7) s"
proof -
  let ?d = "[(snapshot_name 3, []), (snapshot_name 7, [])]"
  have "snapshot_name 3 < snapshot_name 7" using snapshot_name_less [of 3 7] by simp
  then have "distinct (map fst ?d)" by simp
  moreover have "load_latest ex_sum ex_ser_fields ex_de (Inr (Some ?d)) = Inr None" by code_simp
  ultimately show ?thesis
    using load_latest_newest_valid [of ?d ex_sum ex_ser_fields ex_de] by auto
qed

lemma load_saved:
  assumes "de (ser s) = Some s" "verify_checksum crc ser_fields s = Inr ()"
    and "s_wal_record_count s < 10 ^ 10"
    and "\<forall>p\<in>fst ` set d. is_snapshot_file p \<longrightarrow> (\<exists>m\<le> s_wal_record_count s. p = snapshot_name m)"
  shows "load_latest crc ser_fields de (Inr (Some (fst (save ser NoFault s d)))) = Inr (Some s)"
proof -
  let ?n = "snapshot_name (s_wal_record_count s)" and ?d = "fst (save ser NoFault s d)"
  let ?c = "filter is_snapshot_file (map fst ?d)"
  have c: "p \<in> set ?c \<longleftrightarrow> p = ?n \<or> p \<in> fst ` set d \<and> is_snapshot_file p" for p
    using names_save [of p ser s d] by (auto simp: image_iff)
  have "p \<le> ?n" if "p \<in> set ?c" for p
  proof (cases "p = ?n")
    case False
    then have "p \<in> fst ` set d" "is_snapshot_file p" using iffD1 [OF c that] by simp_all
    then obtain m where "m \<le> s_wal_record_count s" "p = snapshot_name m"
      using assms(4) by blast
    then show ?thesis
      using snapshot_name_less [of m "s_wal_record_count s"] assms(3) by (cases "m = s_wal_record_count s") auto
  qed simp
  then obtain older where "rev (sort ?c) = ?n # older"
    using sort_max_last [of ?n ?c] c by blast
  moreover have "loads crc ser_fields de ?d ?n s"
    using assms(1,2) by (simp add: loads_def load_from_file_def map_of_save)
  ultimately show ?thesis
    using try_snapshots_Cons(1) by (simp add: load_latest_def del: try_snapshots.simps)
qed

text \<open>
  A saved snapshot is the one loaded next, provided deserialization inverts serialization (what
  \<open>bincode\<close> documents) and every snapshot already in the directory has a lower or equal record
  count, all below \<open>10 ^ 10\<close>, so that the ten-digit names sort as the counts do.
\<close>

theorem save_then_load:
  assumes "de (ser s) = Some s" "verify_checksum crc ser_fields s = Inr ()"
    and "s_wal_record_count s < 10 ^ 10"
    and "\<forall>p\<in>fst ` set d. is_snapshot_file p \<longrightarrow> (\<exists>m\<le> s_wal_record_count s. p = snapshot_name m)"
  shows "load_latest crc ser_fields de (Inr (Some (fst (save ser NoFault s d)))) = Inr (Some s)"
  using assms by (rule load_saved)

definition ex_snapshot :: Snapshot where
  "ex_snapshot = the (capture ex_sum ex_ser_fields (MatchingEngine_with_capacity 2) 5)"

lemma ex_snapshot: "verify_checksum ex_sum ex_ser_fields ex_snapshot = Inr ()"
  "s_wal_record_count ex_snapshot = 5"
  using capture_total [of "MatchingEngine_with_capacity 2" ex_sum ex_ser_fields 5]
    engine_with_capacity(1) [of 2]
  by (auto simp: ex_snapshot_def engine_ok_def)

theorem save_then_load_witness:
  "load_latest ex_sum ex_ser_fields ex_de
     (Inr (Some (fst (save ex_ser NoFault ex_snapshot [(snapshot_name 4, [9])])))) = Inr (Some ex_snapshot)"
  by (rule save_then_load) (auto simp: ex_de_ser ex_snapshot intro: exI [of _ 4])

lemma load_after_write:
  "load_latest crc ser_fields de (Inr (Some (save_write ser s d))) =
   load_latest crc ser_fields de (Inr (Some d))"
proof -
  let ?t = "tmp_name (s_wal_record_count s)"
  have names: "filter is_snapshot_file (map fst (filter (\<lambda>f. fst f \<noteq> ?t) d)) =
      filter is_snapshot_file (map fst d)"
    by (induction d) auto
  have "load_from_file de (save_write ser s d) p = load_from_file de d p" if "p \<noteq> ?t" for p
    using that by (simp add: load_from_file_def save_write_def fs_write_def map_of_filter_key)
  then have "try_snapshots crc ser_fields de (save_write ser s d) ps = try_snapshots crc ser_fields de d ps"
    if "?t \<notin> set ps" for ps
    using that by (induction ps) (auto split: sum.split)
  then show ?thesis
    by (simp add: load_latest_def) (simp add: save_write_def fs_write_def names)
qed

lemma load_after_failed_save:
  "snd (save ser fault s d) = Inl e \<Longrightarrow>
   load_latest crc ser_fields de (Inr (Some (fst (save ser fault s d)))) =
   load_latest crc ser_fields de (Inr (Some d))"
  by (auto simp: save_def load_after_write split: save_fault.splits option.splits)

text \<open>
  C24: \<open>save\<close> is atomic for readers: wherever it fails, or the process dies inside it, up to the rename,
  \<open>load_latest\<close> gives the answer it had before.
\<close>

theorem failed_save_harmless:
  assumes "snd (save ser fault s d) = Inl e"
  shows "load_latest crc ser_fields de (Inr (Some (fst (save ser fault s d)))) =
   load_latest crc ser_fields de (Inr (Some d))"
  using assms by (rule load_after_failed_save)

theorem failed_save_harmless_witness:
  "load_latest ex_sum ex_ser_fields ex_de
     (Inr (Some (fst (save ex_ser (WriteFails (Some 3)) ex_snapshot [(snapshot_name 4, [9])])))) =
   load_latest ex_sum ex_ser_fields ex_de (Inr (Some [(snapshot_name 4, [9])]))"
  by (rule failed_save_harmless [where e = SnapIo]) (simp add: save_def)

text \<open>
  A snapshot captured from a reachable engine verifies, and restoring it into an arena that can
  hold its orders gives an engine with the same priority queues and best prices.
\<close>

theorem capture_restore_roundtrip:
  assumes "engine_reachable c e" "order_count (e_book e) \<le> unat cap"
  shows "\<exists>s e'. capture crc ser_fields e n = Some s \<and> verify_checksum crc ser_fields s = Inr () \<and>
    s_wal_record_count s = n \<and> snapshot_restore s cap = Some (Inr e') \<and> engine_ok e' \<and>
    engine_view e' = engine_view e \<and>
    best_bid (e_book e') = s_best_bid s \<and> best_ask (e_book e') = s_best_ask s"
proof -
  have ok: "engine_ok e" "book_ok (e_book e)"
    using reachable_ok [OF assms(1)] by (auto simp: engine_ok_def)
  obtain s where s: "capture crc ser_fields e n = Some s" "s_wal_record_count s = n"
    "all_resting_orders (e_book e) = Some (s_orders s)" "s_best_bid s = best_bid (e_book e)"
    "s_best_ask s = best_ask (e_book e)" "verify_checksum crc ser_fields s = Inr ()"
    using capture_total [OF ok(2)] by metis
  have "length (s_orders s) \<le> unat cap"
    using all_resting_orders_eq [OF ok(2)] order_count_side_orders [OF ok(2)] assms(2) s(3) by simp
  then obtain e' where e': "restore_from_orders (s_orders s) cap = Some (Inr e')" "engine_ok e'"
    "engine_view e' = engine_view e"
    using restore_roundtrip [OF ok(1) s(3)] by blast
  then have "cached (e_book e') t = cached (e_book e) t" for t
    using cached_side_orders ok(2) by (simp add: engine_ok_def engine_view_def)
  then show ?thesis using s e' by (auto simp: snapshot_restore_def best_cached)
qed

theorem capture_restore_roundtrip_witness:
  "\<exists>s e'. capture ex_sum ex_ser_fields ex_engine 2 = Some s \<and> snapshot_restore s 3 = Some (Inr e') \<and>
     engine_view e' = engine_view ex_engine"
proof -
  have "order_count (e_book ex_engine) \<le> unat (3 :: u32)" by code_simp
  from capture_restore_roundtrip [OF ex_engine_reachable this, of ex_sum ex_ser_fields 2]
  show ?thesis by blast
qed

end
