(* ===== verification/Recovery.thy ===== *)
theory Recovery
  imports Wal Snapshot
begin

text \<open>
  \<open>src/recovery.rs\<close>: rebuilding the engine from the newest good snapshot and the records of the log
  behind it. The parameters are those of \<open>Snapshot\<close> and \<open>Wal\<close>: \<open>crc\<close>, \<open>ser_fields\<close>, \<open>de\<close>, \<open>os\<close>, and the
  state of the file system: whether the data directory can be made (\<open>dir_ok\<close>), what \<open>read_dir\<close> of
  the snapshot directory gives, and the bytes of \<open>wal.bin\<close>.

  The main result is that recovery gives back the engine that ran, up to the timestamps of resting
  orders, which neither the log nor matching uses.
\<close>

section \<open>The code\<close>

datatype RecoveryError = RWal WalError | RSnapshot SnapshotError

definition replay_command :: "MatchingEngine \<Rightarrow> EngineCommand \<Rightarrow> MatchingEngine option" where
  "replay_command engine cmd =
     (case cmd of
        NewOrder order \<Rightarrow> map_option fst (add_order engine order)
      | CancelOrder order_id \<Rightarrow> map_option fst (engine_cancel_order engine order_id))"

text \<open>
  The \<open>for\<close> loop: the engine, and either the error that ends recovery or the offset to truncate at
  (\<open>None\<close> when the log ended) with the number of records replayed.
\<close>

partial_function (option) replay_loop ::
  "(u8 list \<Rightarrow> u32) \<Rightarrow> WalIterator \<Rightarrow> MatchingEngine \<Rightarrow> nat \<Rightarrow>
   (MatchingEngine \<times> (WalError + nat option \<times> nat)) option" where
  "replay_loop crc it engine n = do {
     (it, result) \<leftarrow> wal_next crc it;
     case result of
       None \<Rightarrow> Some (engine, Inr (None, n))
     | Some (Inr (record_num, cmd)) \<Rightarrow> do {
         engine \<leftarrow> replay_command engine cmd;
         replay_loop crc it engine (n + 1)
       }
     | Some (Inl e) \<Rightarrow>
         (case e of
            Corruption offset \<Rightarrow> Some (engine, Inr (Some offset, n))
          | TruncatedRecord offset \<Rightarrow> Some (engine, Inr (Some offset, n))
          | _ \<Rightarrow> Some (engine, Inl e))
   }"

definition recover_with_wal_size ::
  "(u8 list \<Rightarrow> u32) \<Rightarrow> (snap_fields \<Rightarrow> u8 list) \<Rightarrow> (u8 list \<Rightarrow> Snapshot option) \<Rightarrow> (nat \<Rightarrow> bool) \<Rightarrow> bool \<Rightarrow>
   SnapshotError + dir option \<Rightarrow> u8 list \<Rightarrow> u32 \<Rightarrow> nat option \<Rightarrow>
   (RecoveryError + MatchingEngine \<times> Wal) option" where
  "recover_with_wal_size crc ser_fields de os dir_ok snapshot_dir wal_file arena_capacity wal_initial_size =
     (if \<not> dir_ok then Some (Inl (RWal Io))
      else case load_latest crc ser_fields de snapshot_dir of
        Inl e \<Rightarrow> Some (Inl (RSnapshot e))
      | Inr latest \<Rightarrow> do {
          start \<leftarrow> (case latest of
              Some snap \<Rightarrow> do {
                r \<leftarrow> snapshot_restore snap arena_capacity;
                Some (and_then r (\<lambda>engine. Inr (engine, s_wal_record_count snap)))
              }
            | None \<Rightarrow> Some (Inr (MatchingEngine_with_capacity arena_capacity, 0)));
          case start of
            Inl e \<Rightarrow> Some (Inl (RSnapshot e))
          | Inr (engine, start_record) \<Rightarrow> do {
              opened \<leftarrow> (case wal_initial_size of
                  Some n \<Rightarrow> open_with_size crc os wal_file n
                | None \<Rightarrow> wal_open crc os wal_file);
              case opened of
                Inl e \<Rightarrow> Some (Inl (RWal e))
              | Inr wal \<Rightarrow> do {
                  (engine, result) \<leftarrow> replay_loop crc (iter_from wal start_record) engine start_record;
                  case result of
                    Inl e \<Rightarrow> Some (Inl (RWal e))
                  | Inr (None, _) \<Rightarrow> Some (Inr (engine, wal))
                  | Inr (Some offset, n) \<Rightarrow> do {
                      wal \<leftarrow> truncate_to wal offset n;
                      Some (Inr (engine, wal))
                    }
                }
            }
        })"

definition recover ::
  "(u8 list \<Rightarrow> u32) \<Rightarrow> (snap_fields \<Rightarrow> u8 list) \<Rightarrow> (u8 list \<Rightarrow> Snapshot option) \<Rightarrow> (nat \<Rightarrow> bool) \<Rightarrow> bool \<Rightarrow>
   SnapshotError + dir option \<Rightarrow> u8 list \<Rightarrow> u32 \<Rightarrow> (RecoveryError + MatchingEngine \<times> Wal) option" where
  "recover crc ser_fields de os dir_ok snapshot_dir wal_file arena_capacity =
     recover_with_wal_size crc ser_fields de os dir_ok snapshot_dir wal_file arena_capacity None"

section \<open>Commands on the priority lists\<close>

definition cmd_spec :: "nat \<Rightarrow> sides \<Rightarrow> EngineCommand \<Rightarrow> sides" where
  "cmd_spec cap Q cmd =
     (case cmd of NewOrder t \<Rightarrow> fst (add_spec cap Q t) | CancelOrder k \<Rightarrow> fst (cancel_spec Q k))"

definition run_spec :: "nat \<Rightarrow> sides \<Rightarrow> EngineCommand list \<Rightarrow> sides" where
  "run_spec cap Q cmds = fold (\<lambda>cmd Q. cmd_spec cap Q cmd) cmds Q"

fun run_cmds :: "MatchingEngine \<Rightarrow> EngineCommand list \<Rightarrow> MatchingEngine option" where
  "run_cmds e [] = Some e"
| "run_cmds e (cmd # cmds) = do { e \<leftarrow> replay_command e cmd; run_cmds e cmds }"

lemma replay_command_ok:
  assumes "engine_ok e"
  shows "\<exists>e'. replay_command e cmd = Some e' \<and> engine_ok e' \<and>
    engine_view e' = cmd_spec (engine_capacity e) (engine_view e) cmd \<and>
    engine_capacity e' = engine_capacity e"
proof (cases cmd)
  case (NewOrder t)
  then show ?thesis
    using engine_add_order [OF assms prod.collapse [symmetric], of t]
    by (auto simp: replay_command_def cmd_spec_def)
next
  case (CancelOrder k)
  then show ?thesis
    using engine_cancel_order [OF assms prod.collapse [symmetric], of k]
    by (auto simp: replay_command_def cmd_spec_def)
qed

lemma run_cmds_ok:
  "engine_ok e \<Longrightarrow> \<exists>e'. run_cmds e cmds = Some e' \<and> engine_ok e' \<and>
    engine_view e' = run_spec (engine_capacity e) (engine_view e) cmds \<and>
    engine_capacity e' = engine_capacity e"
proof (induction cmds arbitrary: e)
  case (Cons cmd cmds)
  obtain e1 where "replay_command e cmd = Some e1" "engine_ok e1"
    "engine_view e1 = cmd_spec (engine_capacity e) (engine_view e) cmd"
    "engine_capacity e1 = engine_capacity e"
    using replay_command_ok [OF Cons.prems] by blast
  then show ?case using Cons.IH [of e1] by (auto simp: run_spec_def)
qed (simp add: run_spec_def)

lemma run_spec_append: "run_spec cap Q (xs @ ys) = run_spec cap (run_spec cap Q xs) ys"
  by (simp add: run_spec_def)

section \<open>Timestamps do not matter\<close>

abbreviation strip :: "Order \<Rightarrow> Order" where
  "strip x \<equiv> x\<lparr>o_timestamp := 0\<rparr>"

definition strip_view :: "sides \<Rightarrow> sides" where
  "strip_view Q = (\<lambda>s. map strip (Q s))"

lemma crosses_strip [simp]: "crosses (strip t) p = crosses t p"
  by (cases "o_side t") (simp_all add: crosses_def)

lemma fill_of_strip [simp]: "fill_of (strip t) (strip m) = fill_of t m"
  by (simp add: fill_of_def)

lemma strip_quantity: "(strip t)\<lparr>o_quantity := q\<rparr> = strip (t\<lparr>o_quantity := q\<rparr>)"
  by simp

lemma match_list_strip:
  "match_list (strip t) (map strip ms) =
     (case match_list t ms of (rest, fs, t', st) \<Rightarrow> (map strip rest, fs, strip t', st))"
proof (induction t ms rule: match_list.induct)
  case (2 t m ms)
  then show ?case by (auto simp: Let_def strip_quantity split: prod.splits)
qed simp

lemma enqueue_strip: "enqueue (strip x) (map strip xs) = map strip (enqueue x xs)"
  by (induction xs) auto

lemma view_strip [simp]:
  "view_ids (strip_view Q) = view_ids Q" "view_size (strip_view Q) = view_size Q"
  "strip_view Q s = map strip (Q s)"
  "strip_view (Q(s := xs)) = (strip_view Q)(s := map strip xs)"
  by (auto simp: view_ids_def view_size_def strip_view_def image_image image_Un)

lemma add_spec_strip: "fst (add_spec cap (strip_view Q) (strip t)) = strip_view (fst (add_spec cap Q t))"
proof -
  obtain rest fs t' st where ml: "match_list t (Q (opposite (o_side t))) = (rest, fs, t', st)"
    by (metis prod_cases4)
  then have ml': "match_list (strip t) (map strip (Q (opposite (o_side t)))) =
      (map strip rest, fs, strip t', st)"
    by (simp add: match_list_strip)
  have ids: "view_ids ((strip_view Q)(s := map strip xs)) = view_ids (Q(s := xs))"
    "view_size ((strip_view Q)(s := map strip xs)) = view_size (Q(s := xs))" for s xs
    by (simp_all flip: view_strip(4) add: view_strip(1,2))
  show ?thesis
    by (auto simp: add_spec_def ml ml' Let_def ids enqueue_strip)
qed

lemma find_map_strip: "find P (map strip xs) = map_option strip (find (\<lambda>x. P (strip x)) xs)"
  by (induction xs) auto

lemma cancel_spec_strip: "fst (cancel_spec (strip_view Q) k) = strip_view (fst (cancel_spec Q k))"
proof -
  have "find (\<lambda>x. o_id x = k) (map strip (Q Ask) @ map strip (Q Bid)) =
      map_option strip (find (\<lambda>x. o_id x = k) (Q Ask @ Q Bid))"
    by (simp add: find_map_strip flip: map_append)
  then show ?thesis
    by (auto simp: cancel_spec_def filter_map comp_def split: option.split)
qed

lemma cmd_spec_strip: "cmd_spec cap (strip_view Q) (logged cmd) = strip_view (cmd_spec cap Q cmd)"
  by (cases cmd) (simp_all add: cmd_spec_def logged_def add_spec_strip cancel_spec_strip)

lemma run_spec_strip: "run_spec cap (strip_view Q) (map logged cmds) = strip_view (run_spec cap Q cmds)"
  by (induction cmds arbitrary: Q) (simp_all add: run_spec_def cmd_spec_strip)

lemma strip_view_idem [simp]: "strip_view (strip_view Q) = strip_view Q"
  by (simp add: strip_view_def fun_eq_iff)

lemma logged_logged [simp]: "logged (logged cmd) = logged cmd"
  by (cases cmd) (simp_all add: logged_def)

text \<open>Replaying the logged commands from a book that agrees up to timestamps.\<close>

lemma run_spec_logged:
  assumes "strip_view Q = strip_view Q'"
  shows "strip_view (run_spec cap Q (map logged cmds)) = strip_view (run_spec cap Q' cmds)"
proof -
  have "strip_view (run_spec cap Q (map logged cmds)) =
      run_spec cap (strip_view Q) (map logged (map logged cmds))"
    by (rule run_spec_strip [symmetric])
  also have "\<dots> = run_spec cap (strip_view Q') (map logged cmds)"
    by (simp add: assms comp_def)
  also have "\<dots> = strip_view (run_spec cap Q' cmds)"
    by (rule run_spec_strip)
  finally show ?thesis .
qed

section \<open>Replay\<close>

lemma replay_loop_log:
  assumes "engine_ok e" "iter_at crc it (map cmd_bytes cmds)" "\<forall>cmd\<in>set cmds. cmd_ok cmd"
  defines "todo \<equiv> drop (i_start_record it - i_current_record it) cmds"
  shows "\<exists>e'. replay_loop crc it e n = Some (e', Inr (None, n + length todo)) \<and> engine_ok e' \<and>
    engine_view e' = run_spec (engine_capacity e) (engine_view e) (map logged todo) \<and>
    engine_capacity e' = engine_capacity e"
  using assms(1-3) unfolding todo_def
proof (induction "length cmds" arbitrary: cmds it e n rule: less_induct)
  case less
  let ?todo = "drop (i_start_record it - i_current_record it) cmds"
  show ?case
  proof (cases ?todo)
    case Nil
    then obtain it' where "wal_next crc it = Some (it', None)"
      using wal_next_log [OF less.prems(2)] by (auto simp: drop_map)
    then show ?thesis
      using Nil less.prems(1) by (simp add: replay_loop.simps [of crc it] run_spec_def)
  next
    case (Cons cmd rest)
    have cmd: "cmd \<in> set cmds" "set rest \<subseteq> set cmds"
      using set_drop_subset [of "i_start_record it - i_current_record it" cmds] by (auto simp: Cons)
    have less': "length rest < length cmds"
      using arg_cong [OF Cons, of length] unfolding length_drop by simp
    obtain it' where it': "i_start_record it' = i_start_record it" "iter_at crc it' (map cmd_bytes rest)"
      "i_current_record it' = max (i_start_record it) (i_current_record it) + 1"
      "wal_next crc it = Some (it', Some (Inr (i_current_record it', logged cmd)))"
      using wal_next_log [OF less.prems(2)] Cons cmd(1) less.prems(3)
      by (auto simp: drop_map decode_cmd_bytes)
    obtain e1 where e1: "replay_command e (logged cmd) = Some e1" "engine_ok e1"
      "engine_view e1 = cmd_spec (engine_capacity e) (engine_view e) (logged cmd)"
      "engine_capacity e1 = engine_capacity e"
      using replay_command_ok [OF less.prems(1)] by blast
    have "drop (i_start_record it' - i_current_record it') rest = rest" using it'(1,3) by simp
    then obtain e' where "replay_loop crc it' e1 (n + 1) = Some (e', Inr (None, n + 1 + length rest))"
      "engine_ok e'" "engine_view e' = run_spec (engine_capacity e1) (engine_view e1) (map logged rest)"
      "engine_capacity e' = engine_capacity e1"
      using less.hyps [OF less' e1(2) it'(2), of "n + 1"] cmd(2) less.prems(3) by auto
    then show ?thesis
      using it'(4) e1 by (simp add: replay_loop.simps [of crc it] Cons run_spec_def)
  qed
qed

section \<open>Recovery gives the engine back\<close>

lemma open_wal_ok:
  assumes "wal_ok crc w ps" "\<And>k. os k"
  shows "\<exists>w'. open_with_size crc os (w_mmap w) n = Some (Inr w') \<and> wal_ok crc w' ps"
proof -
  obtain bs z where "log_bytes crc bs ps" "w_mmap w = bs @ replicate z 0"
    using assms(1) by (auto simp: wal_ok_def)
  then show ?thesis using open_exact [of crc bs ps os z n] assms(2) by metis
qed

text \<open>Recovery from a starting engine, given what the snapshot directory holds.\<close>

lemma recover_from:
  assumes snap: "load_latest crc ser_fields de dir = Inr latest"
    and start: "case latest of None \<Rightarrow> e0 = MatchingEngine_with_capacity cap \<and> k = 0
      | Some s \<Rightarrow> snapshot_restore s cap = Some (Inr e0) \<and> k = s_wal_record_count s"
    and e0: "engine_ok e0"
    and wal: "wal_ok crc w (map cmd_bytes cmds)" "\<forall>cmd\<in>set cmds. cmd_ok cmd" and os: "\<And>n. os n"
  shows "\<exists>e w'. recover_with_wal_size crc ser_fields de os True dir (w_mmap w) cap size_opt =
      Some (Inr (e, w')) \<and> engine_ok e \<and> wal_ok crc w' (map cmd_bytes cmds) \<and>
    engine_view e = run_spec (engine_capacity e0) (engine_view e0) (map logged (drop k cmds)) \<and>
    engine_capacity e = engine_capacity e0"
proof -
  obtain w' where w': "(case size_opt of Some n \<Rightarrow> open_with_size crc os (w_mmap w) n
      | None \<Rightarrow> wal_open crc os (w_mmap w)) = Some (Inr w')" "wal_ok crc w' (map cmd_bytes cmds)"
    using open_wal_ok [OF wal(1) os] unfolding wal_open_def by (cases size_opt) force+
  have it: "iter_at crc (iter_from w' k) (map cmd_bytes cmds)"
    "i_start_record (iter_from w' k) - i_current_record (iter_from w' k) = k"
    using iter_at_from [OF w'(2)] by (simp_all add: iter_from_def)
  obtain e where e: "replay_loop crc (iter_from w' k) e0 k = Some (e, Inr (None, k + length (drop k cmds)))"
    "engine_ok e" "engine_view e = run_spec (engine_capacity e0) (engine_view e0) (map logged (drop k cmds))"
    "engine_capacity e = engine_capacity e0"
    using replay_loop_log [OF e0 it(1) wal(2), of k] unfolding it(2) by blast
  show ?thesis
    using snap start w' e by (cases latest) (auto simp: recover_with_wal_size_def)
qed

section \<open>Properties of recovery\<close>

text \<open>
  C7: Recovery. An engine started empty ran the commands \<open>cmds\<close>, all of them in the log; the newest
  good snapshot, if any, was captured after the first \<open>k\<close> of them. Recovery then succeeds and gives
  an engine whose priority queues are those of the engine that ran, up to the timestamps of the
  orders, and a log ready for the next record.
\<close>

theorem recover_correct:
  assumes "run_cmds (MatchingEngine_with_capacity cap) (take k cmds) = Some ek"
    and "run_cmds ek (drop k cmds) = Some e" "k \<le> length cmds"
    and "load_latest crc ser_fields de dir = Inr latest"
    and "case latest of None \<Rightarrow> k = 0 | Some s \<Rightarrow> capture crc ser_fields ek k = Some s"
    and "wal_ok crc w (map cmd_bytes cmds)" "\<forall>cmd\<in>set cmds. cmd_ok cmd" "\<And>n. os n"
  shows "\<exists>e' w'. recover_with_wal_size crc ser_fields de os True dir (w_mmap w) cap size_opt =
      Some (Inr (e', w')) \<and> engine_ok e' \<and> strip_view (engine_view e') = strip_view (engine_view e) \<and>
    wal_ok crc w' (map cmd_bytes cmds) \<and> w_record_count w' = length cmds"
proof -
  have ek: "engine_ok ek" "engine_capacity ek = unat cap"
    using run_cmds_ok [OF engine_with_capacity(1), of cap "take k cmds"] assms(1)
      engine_with_capacity(3) [of cap] by auto
  have e: "engine_view e = run_spec (unat cap) (engine_view ek) (drop k cmds)"
    using run_cmds_ok [OF ek(1), of "drop k cmds"] assms(2) ek(2) by auto
  have "\<exists>e0. engine_ok e0 \<and> engine_view e0 = engine_view ek \<and> engine_capacity e0 = unat cap \<and>
    (case latest of None \<Rightarrow> e0 = MatchingEngine_with_capacity cap \<and> k = 0
      | Some s \<Rightarrow> snapshot_restore s cap = Some (Inr e0) \<and> k = s_wal_record_count s)"
  proof (cases latest)
    case None
    then have "ek = MatchingEngine_with_capacity cap" using assms(1,5) by simp
    then show ?thesis using None ek assms(5) by auto
  next
    case (Some s)
    then have cap: "capture crc ser_fields ek k = Some s" using assms(5) by simp
    have bk: "book_ok (e_book ek)" using ek(1) by (simp add: engine_ok_def)
    have s: "all_resting_orders (e_book ek) = Some (s_orders s)" "s_wal_record_count s = k"
      using capture_total [OF bk, of crc ser_fields k] cap by auto
    have "s_orders s = side_orders (e_book ek) Ask @ side_orders (e_book ek) Bid"
      using s(1) all_resting_orders_eq [OF bk] by simp
    then have "length (s_orders s) \<le> unat cap"
      using ob.queue_bound [OF bk] ek(2) by simp
    then obtain e0 where "restore_from_orders (s_orders s) cap = Some (Inr e0)" "engine_ok e0"
      "engine_view e0 = engine_view ek" "engine_capacity e0 = unat cap"
      using restore_roundtrip [OF ek(1) s(1)] by blast
    then show ?thesis using Some s(2) by (auto simp: snapshot_restore_def)
  qed
  then obtain e0 where e0: "engine_ok e0" "engine_view e0 = engine_view ek" "engine_capacity e0 = unat cap"
    "case latest of None \<Rightarrow> e0 = MatchingEngine_with_capacity cap \<and> k = 0
      | Some s \<Rightarrow> snapshot_restore s cap = Some (Inr e0) \<and> k = s_wal_record_count s" by blast
  obtain e' w' where r: "recover_with_wal_size crc ser_fields de os True dir (w_mmap w) cap size_opt =
      Some (Inr (e', w'))" "engine_ok e'" "wal_ok crc w' (map cmd_bytes cmds)"
    "engine_view e' = run_spec (engine_capacity e0) (engine_view e0) (map logged (drop k cmds))"
    using recover_from [where os = os, OF assms(4) e0(4,1) assms(6-8)] by blast
  have "strip_view (engine_view e') = strip_view (engine_view e)"
    unfolding r(4) e e0(2,3) by (rule run_spec_logged) simp
  then show ?thesis using r by (auto simp: wal_ok_def)
qed

theorem recover_correct_witness:
  "\<exists>e e' w w'. run_cmds (MatchingEngine_with_capacity 2) [ex_cmd] = Some e \<and>
     wal_ok ex_crc w [cmd_bytes ex_cmd] \<and>
     recover_with_wal_size ex_crc ex_ser_fields ex_de (\<lambda>_. True) True (Inr None) (w_mmap w) 2 None =
       Some (Inr (e', w')) \<and> strip_view (engine_view e') = strip_view (engine_view e) \<and>
     w_record_count w' = 1"
proof -
  let ?e0 = "MatchingEngine_with_capacity 2"
  obtain e where e: "run_cmds ?e0 [ex_cmd] = Some e"
    using run_cmds_ok [OF engine_with_capacity(1)] by blast
  obtain w0 where w0: "wal_ok ex_crc w0 []"
    using open_exact [of ex_crc "[]" "[]" "\<lambda>_. True" 0 64] by auto
  then obtain w where w: "wal_ok ex_crc w (map cmd_bytes [ex_cmd])"
    using append_ok [OF w0, of "\<lambda>_. True" ex_cmd] by (auto simp: room_def)
  have "\<forall>cmd\<in>set [ex_cmd]. cmd_ok cmd" by (simp add: ex_cmd_def cmd_ok_def)
  then have "\<exists>e' w'. recover_with_wal_size ex_crc ex_ser_fields ex_de (\<lambda>_. True) True (Inr None)
      (w_mmap w) 2 None = Some (Inr (e', w')) \<and> engine_ok e' \<and>
      strip_view (engine_view e') = strip_view (engine_view e) \<and>
      wal_ok ex_crc w' (map cmd_bytes [ex_cmd]) \<and> w_record_count w' = length [ex_cmd]"
    using w e by (intro recover_correct [where k = 0 and ek = ?e0 and latest = None])
      (simp_all add: load_latest_def)
  then show ?thesis using e w by auto
qed

text \<open>
  C35: The record number of a snapshot is compared with the position in the log only. When the log has
  fewer records than the newest snapshot counts (the log lost its tail, the snapshot did not), a
  command that is logged after recovery gets a number the snapshot already covers, and the next
  recovery skips it: the engine is the snapshot's, without the command.
\<close>

theorem snapshot_ahead_of_log_skips_command:
  assumes "load_latest crc ser_fields de dir = Inr (Some s)"
    and "snapshot_restore s cap = Some (Inr e0)" "engine_ok e0"
    and "wal_ok crc w (map cmd_bytes cmds)" "length cmds < s_wal_record_count s"
    and "\<forall>c\<in>set (cmd # cmds). cmd_ok c" "\<And>n. os n"
  shows "\<exists>e1 w1 w2 e3 w3.
    recover_with_wal_size crc ser_fields de os True dir (w_mmap w) cap size_opt = Some (Inr (e1, w1)) \<and>
    wal_append crc os w1 cmd = Some (w2, Inr (length cmds + 1)) \<and>
    recover_with_wal_size crc ser_fields de os True dir (w_mmap w2) cap size_opt = Some (Inr (e3, w3)) \<and>
    w_record_count w3 = length cmds + 1 \<and> engine_view e3 = engine_view e0"
proof -
  have start: "case Some s of None \<Rightarrow> e0 = MatchingEngine_with_capacity cap \<and> s_wal_record_count s = 0
      | Some s' \<Rightarrow> snapshot_restore s' cap = Some (Inr e0) \<and> s_wal_record_count s = s_wal_record_count s'"
    using assms(2) by simp
  have ok: "\<forall>c\<in>set cmds. cmd_ok c" "\<forall>c\<in>set (cmds @ [cmd]). cmd_ok c" using assms(6) by auto
  obtain e1 w1 where r1: "recover_with_wal_size crc ser_fields de os True dir (w_mmap w) cap size_opt =
      Some (Inr (e1, w1))" "wal_ok crc w1 (map cmd_bytes cmds)"
    using recover_from [where os = os, OF assms(1) start assms(3,4) ok(1) assms(7)] by blast
  obtain w2 where w2: "wal_append crc os w1 cmd = Some (w2, Inr (length cmds + 1))"
    "wal_ok crc w2 (map cmd_bytes (cmds @ [cmd]))"
    using append_ok [OF r1(2), of os cmd] assms(7) by (auto simp: room_def)
  obtain e3 w3 where r3: "recover_with_wal_size crc ser_fields de os True dir (w_mmap w2) cap size_opt =
      Some (Inr (e3, w3))" "wal_ok crc w3 (map cmd_bytes (cmds @ [cmd]))"
    "engine_view e3 = run_spec (engine_capacity e0) (engine_view e0)
       (map logged (drop (s_wal_record_count s) (cmds @ [cmd])))"
    using recover_from [where os = os, OF assms(1) start assms(3) w2(2) ok(2) assms(7)] by blast
  have "drop (s_wal_record_count s) (cmds @ [cmd]) = []" using assms(5) by simp
  then have "engine_view e3 = engine_view e0" using r3(3) by (simp add: run_spec_def)
  then show ?thesis using r1(1) w2(1) r3(1,2) by (auto simp: wal_ok_def)
qed

theorem snapshot_ahead_of_log_skips_command_witness:
  "\<exists>e1 w1 w2 e3 w3 dir.
     recover_with_wal_size ex_sum ex_ser_fields ex_de (\<lambda>_. True) True dir [] 2 (Some 64) = Some (Inr (e1, w1)) \<and>
     wal_append ex_sum (\<lambda>_. True) w1 ex_cmd = Some (w2, Inr 1) \<and>
     recover_with_wal_size ex_sum ex_ser_fields ex_de (\<lambda>_. True) True dir (w_mmap w2) 2 (Some 64) =
       Some (Inr (e3, w3)) \<and> w_record_count w3 = 1 \<and> engine_view e3 = (\<lambda>_. [])"
proof -
  let ?dir = "Inr (Some (fst (save ex_ser NoFault ex_snapshot [])))"
  let ?e = "MatchingEngine_with_capacity 2"
  have l: "load_latest ex_sum ex_ser_fields ex_de ?dir = Inr (Some ex_snapshot)"
    by (rule load_saved) (simp_all add: ex_de_ser ex_snapshot)
  have "all_resting_orders (e_book ?e) = Some (s_orders ex_snapshot)"
    using capture_total [of ?e ex_sum ex_ser_fields 5] engine_with_capacity(1) [of 2]
    by (auto simp: ex_snapshot_def engine_ok_def)
  moreover have "all_resting_orders (e_book ?e) = Some []"
    using all_resting_orders_eq [of "e_book ?e"] engine_with_capacity(1,2) [of 2]
    by (simp add: engine_ok_def engine_view_def fun_eq_iff)
  ultimately have s: "s_orders ex_snapshot = []" by simp
  have r: "snapshot_restore ex_snapshot 2 = Some (Inr ?e)"
    by (simp add: snapshot_restore_def restore_from_orders_def s)
  define w where "w = \<lparr>w_mmap = [], w_write_pos = 0, w_mapped_size = 0,
    w_encode_buf = replicate NEW_ORDER_SIZE 0, w_record_count = 0\<rparr>"
  have w: "wal_ok ex_sum w (map cmd_bytes [])" by (simp add: wal_ok_def w_def)
  have "\<forall>c\<in>set [ex_cmd]. cmd_ok c" by (simp add: ex_cmd_def cmd_ok_def)
  from snapshot_ahead_of_log_skips_command [OF l r engine_with_capacity(1) w _ this, of "\<lambda>_. True" "Some 64"]
  show ?thesis using engine_with_capacity(2) [of 2] by (simp add: ex_snapshot w_def) blast
qed

end
