(* ===== verification/RingBuffer.thy ===== *)
theory RingBuffer
  imports Prelude
begin

unbundle bit_operations_syntax

text \<open>
  \<open>src/ring.rs\<close>: the single-producer single-consumer ring. A slot is \<open>None\<close> when uninitialized or moved
  out of, \<open>Some v\<close> when it holds \<open>v\<close>; writing over a live value and reading an uninitialized one, which
  the \<open>unsafe\<close> blocks must exclude, are \<open>None\<close> results. Cursors are 64-bit words that run freely and
  wrap.

  \<open>push\<close> and \<open>pop\<close> are each three steps: the test that may reload the other side's cursor, the slot
  access, and the store that publishes it. The threads are modelled as a step relation that
  interleaves these steps in any order, each one access to shared memory; that the acquire and release
  orderings of the cursors make this view of the threads valid is shown in \<open>RingOrdering\<close>. Invariants of the
  relation give the absence of bad slot accesses and of races on a slot, and first-in first-out
  delivery; the undisturbed operations implement a bounded queue.
\<close>

section \<open>The code\<close>

record 'a RingBufferInner =
  rb_buffer :: "'a option list"
  rb_capacity :: usize
  rb_mask :: usize
  rb_head :: usize
  rb_tail :: usize

record Producer =
  p_cached_head :: usize
  p_cached_tail :: usize

record Consumer =
  c_cached_tail :: usize
  c_cached_head :: usize

definition slot_index :: "'a RingBufferInner \<Rightarrow> usize \<Rightarrow> nat" where
  "slot_index r cursor = unat (cursor AND rb_mask r)"

definition slot_write :: "'a RingBufferInner \<Rightarrow> usize \<Rightarrow> 'a \<Rightarrow> 'a RingBufferInner option" where
  "slot_write r cursor value = do {
     old \<leftarrow> vec_get (rb_buffer r) (slot_index r cursor);
     buffer \<leftarrow> vec_set (rb_buffer r) (slot_index r cursor) (Some value);
     if old = None then Some (r\<lparr>rb_buffer := buffer\<rparr>) else None
   }"

definition slot_read :: "'a RingBufferInner \<Rightarrow> usize \<Rightarrow> ('a RingBufferInner \<times> 'a) option" where
  "slot_read r cursor = do {
     old \<leftarrow> vec_get (rb_buffer r) (slot_index r cursor);
     value \<leftarrow> old;
     buffer \<leftarrow> vec_set (rb_buffer r) (slot_index r cursor) None;
     Some (r\<lparr>rb_buffer := buffer\<rparr>, value)
   }"

text \<open>The test at the start of \<open>push\<close>: the producer with its cached tail, and whether the ring is full.\<close>

definition push_test :: "'a RingBufferInner \<Rightarrow> Producer \<Rightarrow> Producer \<times> bool" where
  "push_test r p =
     (if p_cached_head p - p_cached_tail p = rb_capacity r then
        let p = p\<lparr>p_cached_tail := rb_tail r\<rparr>
        in (p, p_cached_head p - p_cached_tail p = rb_capacity r)
      else (p, False))"

definition push_publish :: "'a RingBufferInner \<Rightarrow> Producer \<Rightarrow> 'a RingBufferInner \<times> Producer" where
  "push_publish r p =
     (r\<lparr>rb_head := p_cached_head p + 1\<rparr>, p\<lparr>p_cached_head := p_cached_head p + 1\<rparr>)"

definition push ::
  "'a RingBufferInner \<Rightarrow> Producer \<Rightarrow> 'a \<Rightarrow> ('a RingBufferInner \<times> Producer \<times> ('a + unit)) option" where
  "push r p value =
     (let (p, full) = push_test r p in
      if full then Some (r, p, Inl value)
      else do {
        r \<leftarrow> slot_write r (p_cached_head p) value;
        let (r, p) = push_publish r p;
        Some (r, p, Inr ())
      })"

text \<open>The test at the start of \<open>pop\<close>: the consumer with its cached head, and whether the ring is empty.\<close>

definition pop_test :: "'a RingBufferInner \<Rightarrow> Consumer \<Rightarrow> Consumer \<times> bool" where
  "pop_test r c =
     (if c_cached_tail c = c_cached_head c then
        let c = c\<lparr>c_cached_head := rb_head r\<rparr>
        in (c, c_cached_tail c = c_cached_head c)
      else (c, False))"

definition pop_publish :: "'a RingBufferInner \<Rightarrow> Consumer \<Rightarrow> 'a RingBufferInner \<times> Consumer" where
  "pop_publish r c =
     (r\<lparr>rb_tail := c_cached_tail c + 1\<rparr>, c\<lparr>c_cached_tail := c_cached_tail c + 1\<rparr>)"

definition pop :: "'a RingBufferInner \<Rightarrow> Consumer \<Rightarrow> ('a RingBufferInner \<times> Consumer \<times> 'a option) option" where
  "pop r c =
     (let (c, is_empty) = pop_test r c in
      if is_empty then Some (r, c, None)
      else do {
        (r, value) \<leftarrow> slot_read r (c_cached_tail c);
        let (r, c) = pop_publish r c;
        Some (r, c, Some value)
      })"

definition count_ones :: "usize \<Rightarrow> nat" where
  "count_ones n = length (filter (bit n) [0..<64])"

definition is_power_of_two :: "usize \<Rightarrow> bool" where
  "is_power_of_two n = (count_ones n = 1)"

definition ring_buffer :: "usize \<Rightarrow> ('a RingBufferInner \<times> Producer \<times> Consumer) option" where
  "ring_buffer capacity =
     (if capacity > 0 \<and> is_power_of_two capacity
      then Some (\<lparr>rb_buffer = replicate (unat capacity) None, rb_capacity = capacity,
                  rb_mask = capacity - 1, rb_head = 0, rb_tail = 0\<rparr>,
                 \<lparr>p_cached_head = 0, p_cached_tail = 0\<rparr>, \<lparr>c_cached_tail = 0, c_cached_head = 0\<rparr>)
      else None)"

text \<open>\<open>Drop\<close> of the ring: the values it drops, in order.\<close>

function drop_loop ::
  "'a RingBufferInner \<Rightarrow> usize \<Rightarrow> usize \<Rightarrow> ('a RingBufferInner \<times> 'a list) option" where
  "drop_loop r head i =
     (if i = head then Some (r, [])
      else do {
        (r, value) \<leftarrow> slot_read r i;
        (r, dropped) \<leftarrow> drop_loop r head (i + 1);
        Some (r, value # dropped)
      })"
  by pat_completeness auto

lemma unat_sub_one: "x \<noteq> 0 \<Longrightarrow> unat (x - 1) < unat x" for x :: usize
  by (simp add: unat_minus_one unat_gt_0)

termination drop_loop
proof (relation "measure (\<lambda>(r, head, i). unat (head - i))")
  fix head i :: usize
  assume "i \<noteq> head"
  then show "((r', head, i + 1), r, head, i) \<in> measure (\<lambda>(r, head, i). unat (head - i))"
    for r r' :: "'a RingBufferInner"
    using unat_sub_one [of "head - i"] by (simp add: diff_diff_eq)
qed simp

declare drop_loop.simps [simp del]

definition ring_drop :: "'a RingBufferInner \<Rightarrow> ('a RingBufferInner \<times> 'a list) option" where
  "ring_drop r = drop_loop r (rb_head r) (rb_tail r)"

section \<open>Cursors\<close>

lemma power_of_two:
  assumes "is_power_of_two c"
  shows "\<exists>k<64. c = 2 ^ k"
proof -
  obtain k where k: "filter (bit c) [0..<64] = [k]"
    using assms by (auto simp: is_power_of_two_def count_ones_def length_Suc_conv)
  then have "set (filter (bit c) [0..<64]) = {k}" by simp
  then have b: "n < 64 \<and> bit c n \<longleftrightarrow> n = k" for n by auto
  have "c = 2 ^ k"
  proof (rule bit_word_eqI)
    fix n
    assume "n < LENGTH(64)"
    then show "bit c n = bit (2 ^ k :: u64) n" using b [of n] by (auto simp: bit_exp_iff)
  qed
  then show ?thesis using b [of k] by blast
qed

lemma unat_power_of_two: "k < 64 \<Longrightarrow> unat (2 ^ k :: u64) = 2 ^ k"
  using unat_word_of_nat [of "2 ^ k", where 'a = 64] power_strict_increasing [of k 64 "2 :: nat"] by simp

text \<open>A free-running cursor after \<open>n\<close> steps, and the slot it stands for.\<close>

lemma slot_index_cursor:
  assumes "k < 64" "rb_mask r = 2 ^ k - 1"
  shows "slot_index r (word_of_nat n) = n mod 2 ^ k"
proof -
  have "(word_of_nat n :: u64) AND (2 ^ k - 1) = take_bit k (word_of_nat n)"
    by (simp add: take_bit_eq_mask mask_eq_exp_minus_1)
  then have "slot_index r (word_of_nat n) = take_bit k (take_bit 64 n)"
    using assms by (simp add: slot_index_def unsigned_take_bit_eq unsigned_of_nat)
  also have "\<dots> = take_bit k n" using assms(1) by (simp add: min_def)
  finally show ?thesis by (simp add: take_bit_eq_mod)
qed

lemma cursor_diff:
  assumes "m \<le> n" "n - m < 2 ^ 64"
  shows "unat (word_of_nat n - word_of_nat m :: u64) = n - m"
proof -
  have "(word_of_nat n - word_of_nat m :: u64) = word_of_nat (n - m)"
    using assms(1) by (simp add: of_nat_diff)
  then show ?thesis using unat_word_of_nat [of "n - m", where 'a = 64] assms(2) by simp
qed

lemma cursor_eq:
  assumes "m \<le> n" "n - m < 2 ^ 64"
  shows "(word_of_nat m :: u64) = word_of_nat n \<longleftrightarrow> m = n"
proof -
  have "(word_of_nat m :: u64) = word_of_nat n \<longleftrightarrow> unat (word_of_nat n - word_of_nat m :: u64) = 0"
    by (auto simp: unat_eq_zero)
  then show ?thesis unfolding cursor_diff [OF assms] using assms(1) by auto
qed

section \<open>The contents of the buffer\<close>

text \<open>
  \<open>live buf n vs lo hi\<close>: of the stream \<open>vs\<close> of values, those from position \<open>lo\<close> up to \<open>hi\<close> are in the
  buffer of \<open>n\<close> slots, position \<open>j\<close> at slot \<open>j mod n\<close>; every other slot is empty.
\<close>

definition live :: "'a option list \<Rightarrow> nat \<Rightarrow> 'a list \<Rightarrow> nat \<Rightarrow> nat \<Rightarrow> bool" where
  "live buf n vs lo hi \<longleftrightarrow> length buf = n \<and> 0 < n \<and> lo \<le> hi \<and> hi \<le> lo + n \<and> hi \<le> length vs \<and>
     (\<forall>j. lo \<le> j \<and> j < hi \<longrightarrow> buf ! (j mod n) = Some (vs ! j)) \<and>
     (\<forall>i<n. (\<forall>j. lo \<le> j \<and> j < hi \<longrightarrow> j mod n \<noteq> i) \<longrightarrow> buf ! i = None)"

lemma mod_window:
  fixes i j n :: nat
  assumes "i < j" "j < i + n"
  shows "i mod n \<noteq> j mod n"
proof
  assume "i mod n = j mod n"
  then have "n dvd j - i" using mod_eq_dvd_iff_nat [of i j n] assms(1) by simp
  then show False using nat_dvd_not_less [of "j - i" n] assms by simp
qed

lemma live_write:
  assumes "live buf n vs lo hi" "hi < lo + n"
  shows "buf ! (hi mod n) = None"
    and "hi = length vs \<Longrightarrow> live (buf[hi mod n := Some v]) n (vs @ [v]) lo (hi + 1)"
proof -
  have l: "length buf = n" "0 < n" "lo \<le> hi" "hi \<le> length vs" using assms(1) by (auto simp: live_def)
  have ne: "j mod n \<noteq> hi mod n" if "lo \<le> j" "j < hi" for j
    using that assms(2) by (intro mod_window) auto
  then show "buf ! (hi mod n) = None" using assms(1) l by (auto simp: live_def)
  assume hi: "hi = length vs"
  have "(buf[hi mod n := Some v]) ! (j mod n) = Some ((vs @ [v]) ! j)" if "lo \<le> j" "j < hi + 1" for j
    using that assms(1) l hi ne [of j] by (cases "j = hi") (auto simp: live_def nth_append)
  moreover have "(buf[hi mod n := Some v]) ! i = None"
    if "i < n" "\<forall>j. lo \<le> j \<and> j < hi + 1 \<longrightarrow> j mod n \<noteq> i" for i
  proof -
    have "i \<noteq> hi mod n" using that(2) l(3) by auto
    then show ?thesis using that assms(1) by (auto simp: live_def)
  qed
  ultimately show "live (buf[hi mod n := Some v]) n (vs @ [v]) lo (hi + 1)"
    using assms l hi by (auto simp: live_def)
qed

lemma live_read:
  assumes "live buf n vs lo hi" "lo < hi"
  shows "buf ! (lo mod n) = Some (vs ! lo)" and "live (buf[lo mod n := None]) n vs (lo + 1) hi"
proof -
  have l: "length buf = n" "0 < n" "hi \<le> lo + n" using assms(1) by (auto simp: live_def)
  show "buf ! (lo mod n) = Some (vs ! lo)" using assms by (auto simp: live_def)
  have "(buf[lo mod n := None]) ! (j mod n) = Some (vs ! j)" if "lo + 1 \<le> j" "j < hi" for j
  proof -
    have "lo mod n \<noteq> j mod n" using that l by (intro mod_window) auto
    then show ?thesis using that assms(1) by (auto simp: live_def)
  qed
  moreover have "(buf[lo mod n := None]) ! i = None"
    if "i < n" "\<forall>j. lo + 1 \<le> j \<and> j < hi \<longrightarrow> j mod n \<noteq> i" for i
  proof (cases "i = lo mod n")
    case False
    then have "\<forall>j. lo \<le> j \<and> j < hi \<longrightarrow> j mod n \<noteq> i"
      using that(2) by (metis Suc_eq_plus1 le_antisym not_less_eq_eq)
    then show ?thesis using that(1) assms(1) False by (auto simp: live_def)
  qed (use that(1) l in simp)
  ultimately show "live (buf[lo mod n := None]) n vs (lo + 1) hi"
    using assms l by (auto simp: live_def)
qed

section \<open>The two threads\<close>

datatype 'a ppc = P_Idle | P_Write 'a | P_Publish

datatype cpc = C_Idle | C_Read | C_Publish

text \<open>
  The shared ring, the two handles, where each thread stands in its operation, and two histories:
  the values written into slots and the values taken out, in order.
\<close>

record 'a Sys =
  y_ring :: "'a RingBufferInner"
  y_prod :: Producer
  y_cons :: Consumer
  y_ppc :: "'a ppc"
  y_cpc :: cpc
  y_sent :: "'a list"
  y_recv :: "'a list"

inductive step :: "'a Sys \<Rightarrow> 'a Sys \<Rightarrow> bool" where
  push_test: "y_ppc y = P_Idle \<Longrightarrow> push_test (y_ring y) (y_prod y) = (p, full) \<Longrightarrow>
    step y (y\<lparr>y_prod := p, y_ppc := if full then P_Idle else P_Write v\<rparr>)"
| push_write: "y_ppc y = P_Write v \<Longrightarrow> slot_write (y_ring y) (p_cached_head (y_prod y)) v = Some r \<Longrightarrow>
    step y (y\<lparr>y_ring := r, y_ppc := P_Publish, y_sent := y_sent y @ [v]\<rparr>)"
| push_publish: "y_ppc y = P_Publish \<Longrightarrow> push_publish (y_ring y) (y_prod y) = (r, p) \<Longrightarrow>
    step y (y\<lparr>y_ring := r, y_prod := p, y_ppc := P_Idle\<rparr>)"
| pop_test: "y_cpc y = C_Idle \<Longrightarrow> pop_test (y_ring y) (y_cons y) = (c, is_empty) \<Longrightarrow>
    step y (y\<lparr>y_cons := c, y_cpc := if is_empty then C_Idle else C_Read\<rparr>)"
| pop_read: "y_cpc y = C_Read \<Longrightarrow> slot_read (y_ring y) (c_cached_tail (y_cons y)) = Some (r, v) \<Longrightarrow>
    step y (y\<lparr>y_ring := r, y_cpc := C_Publish, y_recv := y_recv y @ [v]\<rparr>)"
| pop_publish: "y_cpc y = C_Publish \<Longrightarrow> pop_publish (y_ring y) (y_cons y) = (r, c) \<Longrightarrow>
    step y (y\<lparr>y_ring := r, y_cons := c, y_cpc := C_Idle\<rparr>)"

definition start :: "'a RingBufferInner \<times> Producer \<times> Consumer \<Rightarrow> 'a Sys" where
  "start x = (case x of (r, p, c) \<Rightarrow> \<lparr>y_ring = r, y_prod = p, y_cons = c, y_ppc = P_Idle,
     y_cpc = C_Idle, y_sent = [], y_recv = []\<rparr>)"

inductive reachable :: "usize \<Rightarrow> 'a Sys \<Rightarrow> bool" for capacity :: usize where
  init: "ring_buffer capacity = Some x \<Longrightarrow> reachable capacity (start x)"
| step: "reachable capacity y \<Longrightarrow> step y y' \<Longrightarrow> reachable capacity y'"

text \<open>The values published by each side: a value in the slot, its cursor not yet stored, is not.\<close>

definition published :: "'a Sys \<Rightarrow> nat" where
  "published y = length (y_sent y) - (if y_ppc y = P_Publish then 1 else 0)"

definition released :: "'a Sys \<Rightarrow> nat" where
  "released y = length (y_recv y) - (if y_cpc y = C_Publish then 1 else 0)"

text \<open>
  The invariant for a ring of \<open>2 ^ k\<close> slots. The cursors are the counts of published and released
  values; each cached copy of the other side's cursor is an earlier value of it, close enough that
  the word comparisons are exact; a thread past its test has room, or has a value to take.
\<close>

definition inv :: "nat \<Rightarrow> 'a Sys \<Rightarrow> bool" where
  "inv k y \<longleftrightarrow> k < 64 \<and> rb_capacity (y_ring y) = 2 ^ k \<and> rb_mask (y_ring y) = 2 ^ k - 1 \<and>
     live (rb_buffer (y_ring y)) (2 ^ k) (y_sent y) (length (y_recv y)) (length (y_sent y)) \<and>
     y_recv y = take (length (y_recv y)) (y_sent y) \<and>
     (y_ppc y = P_Publish \<longrightarrow> y_sent y \<noteq> []) \<and> (y_cpc y = C_Publish \<longrightarrow> y_recv y \<noteq> []) \<and>
     rb_head (y_ring y) = word_of_nat (published y) \<and> p_cached_head (y_prod y) = word_of_nat (published y) \<and>
     rb_tail (y_ring y) = word_of_nat (released y) \<and> c_cached_tail (y_cons y) = word_of_nat (released y) \<and>
     (\<exists>ct. p_cached_tail (y_prod y) = word_of_nat ct \<and> ct \<le> released y \<and>
        length (y_sent y) \<le> ct + 2 ^ k \<and>
        ((\<exists>v. y_ppc y = P_Write v) \<longrightarrow> length (y_sent y) < ct + 2 ^ k)) \<and>
     (\<exists>ch. c_cached_head (y_cons y) = word_of_nat ch \<and> ch \<le> published y \<and>
        length (y_recv y) \<le> ch \<and> (y_cpc y = C_Read \<longrightarrow> length (y_recv y) < ch))"

lemma inv_start:
  assumes "ring_buffer capacity = Some x"
  shows "\<exists>k. inv k (start x) \<and> capacity = 2 ^ k"
proof -
  have "is_power_of_two capacity" using assms by (auto simp: ring_buffer_def split: if_splits)
  then obtain k where k: "k < 64" "capacity = 2 ^ k" using power_of_two by blast
  then have "unat capacity = 2 ^ k" by (simp add: unat_power_of_two)
  then have "inv k (start x)"
    using assms k by (auto simp: ring_buffer_def inv_def start_def live_def published_def released_def
        split: if_splits)
  then show ?thesis using k by blast
qed

lemma pow_less_64: "k < 64 \<Longrightarrow> (2 :: nat) ^ k < 2 ^ 64"
  by (rule power_strict_increasing) simp_all

lemma full_test:
  assumes "k < 64" "ct \<le> m" "m \<le> ct + 2 ^ k"
  shows "(word_of_nat m - word_of_nat ct :: u64) = 2 ^ k \<longleftrightarrow> m = ct + 2 ^ k"
proof -
  have "m - ct < 2 ^ 64" using pow_less_64 [OF assms(1)] assms(3) by linarith
  then have "unat (word_of_nat m - word_of_nat ct :: u64) = m - ct" by (intro cursor_diff assms(2))
  moreover have "(word_of_nat m - word_of_nat ct :: u64) = 2 ^ k \<longleftrightarrow>
      unat (word_of_nat m - word_of_nat ct :: u64) = unat (2 ^ k :: u64)"
    by (simp only: unat_eq_iff)
  ultimately show ?thesis using unat_power_of_two [OF assms(1)] assms(2) by auto
qed

lemma inv_push_test:
  assumes "inv k y" "y_ppc y = P_Idle" "push_test (y_ring y) (y_prod y) = (p, full)"
  shows "inv k (y\<lparr>y_prod := p, y_ppc := if full then P_Idle else P_Write v\<rparr>)"
proof -
  let ?m = "length (y_sent y)"
  obtain ct where ct: "p_cached_tail (y_prod y) = word_of_nat ct" "ct \<le> released y" "?m \<le> ct + 2 ^ k"
    using assms(1) unfolding inv_def by blast
  have i: "k < 64" "rb_capacity (y_ring y) = 2 ^ k" "rb_tail (y_ring y) = word_of_nat (released y)"
    "p_cached_head (y_prod y) = word_of_nat ?m" "released y \<le> ?m"
    using assms(1,2) by (auto simp: inv_def live_def published_def released_def)
  have t1: "(word_of_nat ?m - word_of_nat ct :: u64) = 2 ^ k \<longleftrightarrow> ?m = ct + 2 ^ k"
    using i(1,5) ct(2,3) by (intro full_test) auto
  have t2: "(word_of_nat ?m - word_of_nat (released y) :: u64) = 2 ^ k \<longleftrightarrow> ?m = released y + 2 ^ k"
    using i(1,5) ct(2,3) by (intro full_test) auto
  have "\<exists>ct'. p_cached_tail p = word_of_nat ct' \<and> ct' \<le> released y \<and> ?m \<le> ct' + 2 ^ k \<and>
      (\<not> full \<longrightarrow> ?m < ct' + 2 ^ k)" and "p_cached_head p = p_cached_head (y_prod y)"
    using assms(3) i(2-4) ct t1 t2 by (auto simp: push_test_def Let_def split: if_splits)
  then show ?thesis
    using assms(1,2) by (auto simp: inv_def published_def released_def)
qed

lemma inv_pop_test:
  assumes "inv k y" "y_cpc y = C_Idle" "pop_test (y_ring y) (y_cons y) = (c, is_empty)"
  shows "inv k (y\<lparr>y_cons := c, y_cpc := if is_empty then C_Idle else C_Read\<rparr>)"
proof -
  let ?n = "length (y_recv y)"
  obtain ch where ch: "c_cached_head (y_cons y) = word_of_nat ch" "ch \<le> published y" "?n \<le> ch"
    using assms(1) unfolding inv_def by blast
  have i: "k < 64" "rb_head (y_ring y) = word_of_nat (published y)"
    "c_cached_tail (y_cons y) = word_of_nat ?n" "published y \<le> ?n + 2 ^ k"
    using assms(1,2) by (auto simp: inv_def live_def published_def released_def)
  have t: "(word_of_nat ?n :: u64) = word_of_nat j \<longleftrightarrow> ?n = j" if "?n \<le> j" "j \<le> published y" for j
    using that i(4) pow_less_64 [OF i(1)] by (intro cursor_eq) linarith+
  have "\<exists>ch'. c_cached_head c = word_of_nat ch' \<and> ch' \<le> published y \<and> ?n \<le> ch' \<and>
      (\<not> is_empty \<longrightarrow> ?n < ch')" and "c_cached_tail c = c_cached_tail (y_cons y)"
    using assms(3) i(2,3) ch t [of ch] t [of "published y"]
    by (auto simp: pop_test_def Let_def split: if_splits)
  then show ?thesis
    using assms(1,2) by (auto simp: inv_def published_def released_def)
qed

text \<open>A thread past its test can make its slot access, at the slot of its own cursor.\<close>

lemma slot_write_eq:
  assumes "slot_index r cursor < length (rb_buffer r)" "rb_buffer r ! slot_index r cursor = None"
  shows "slot_write r cursor v = Some (r\<lparr>rb_buffer := (rb_buffer r)[slot_index r cursor := Some v]\<rparr>)"
  using assms by (simp add: slot_write_def)

lemma slot_read_eq:
  assumes "slot_index r cursor < length (rb_buffer r)" "rb_buffer r ! slot_index r cursor = Some v"
  shows "slot_read r cursor = Some (r\<lparr>rb_buffer := (rb_buffer r)[slot_index r cursor := None]\<rparr>, v)"
  using assms by (simp add: slot_read_def)

lemma slot_bound: "rb_mask r = 2 ^ k - 1 \<Longrightarrow> k < 64 \<Longrightarrow> live (rb_buffer r) (2 ^ k) vs lo hi \<Longrightarrow>
    slot_index r (word_of_nat n) < length (rb_buffer r)"
  by (simp add: slot_index_cursor live_def)

lemma producer_slot:
  assumes "inv k y" "y_ppc y = P_Write v"
  shows "slot_index (y_ring y) (p_cached_head (y_prod y)) = length (y_sent y) mod 2 ^ k" (is ?i)
    and "slot_write (y_ring y) (p_cached_head (y_prod y)) v =
      Some ((y_ring y)\<lparr>rb_buffer := (rb_buffer (y_ring y))[length (y_sent y) mod 2 ^ k := Some v]\<rparr>)"
    and "length (y_sent y) < released y + 2 ^ k"
proof -
  let ?m = "length (y_sent y)"
  obtain ct where "ct \<le> released y" "?m < ct + 2 ^ k" using assms unfolding inv_def by blast
  then show room: "?m < released y + 2 ^ k" by simp
  have i: "k < 64" "rb_mask (y_ring y) = 2 ^ k - 1" "p_cached_head (y_prod y) = word_of_nat ?m"
    "live (rb_buffer (y_ring y)) (2 ^ k) (y_sent y) (length (y_recv y)) ?m"
    "released y \<le> length (y_recv y)"
    using assms by (auto simp: inv_def published_def released_def)
  then show s: ?i by (simp add: slot_index_cursor)
  have "rb_buffer (y_ring y) ! (?m mod 2 ^ k) = None"
    using i(4,5) room by (intro live_write(1) [OF i(4)]) auto
  then show "slot_write (y_ring y) (p_cached_head (y_prod y)) v =
      Some ((y_ring y)\<lparr>rb_buffer := (rb_buffer (y_ring y))[?m mod 2 ^ k := Some v]\<rparr>)"
    using slot_write_eq [of "y_ring y" "p_cached_head (y_prod y)"] slot_bound i s by metis
qed

lemma consumer_slot:
  assumes "inv k y" "y_cpc y = C_Read"
  shows "slot_index (y_ring y) (c_cached_tail (y_cons y)) = length (y_recv y) mod 2 ^ k" (is ?i)
    and "slot_read (y_ring y) (c_cached_tail (y_cons y)) =
      Some ((y_ring y)\<lparr>rb_buffer := (rb_buffer (y_ring y))[length (y_recv y) mod 2 ^ k := None]\<rparr>,
            y_sent y ! length (y_recv y))"
    and "length (y_recv y) < published y"
proof -
  let ?n = "length (y_recv y)"
  obtain ch where "ch \<le> published y" "?n < ch" using assms unfolding inv_def by blast
  then show ready: "?n < published y" by simp
  have i: "k < 64" "rb_mask (y_ring y) = 2 ^ k - 1" "c_cached_tail (y_cons y) = word_of_nat ?n"
    "live (rb_buffer (y_ring y)) (2 ^ k) (y_sent y) ?n (length (y_sent y))"
    "published y \<le> length (y_sent y)"
    using assms by (auto simp: inv_def published_def released_def)
  then show s: ?i by (simp add: slot_index_cursor)
  have "rb_buffer (y_ring y) ! (?n mod 2 ^ k) = Some (y_sent y ! ?n)"
    using i(5) ready by (intro live_read(1) [OF i(4)]) auto
  then show "slot_read (y_ring y) (c_cached_tail (y_cons y)) =
      Some ((y_ring y)\<lparr>rb_buffer := (rb_buffer (y_ring y))[?n mod 2 ^ k := None]\<rparr>, y_sent y ! ?n)"
    using slot_read_eq [of "y_ring y" "c_cached_tail (y_cons y)"] slot_bound i s by metis
qed

lemma inv_push_write:
  assumes "inv k y" "y_ppc y = P_Write v" "slot_write (y_ring y) (p_cached_head (y_prod y)) v = Some r"
  shows "inv k (y\<lparr>y_ring := r, y_ppc := P_Publish, y_sent := y_sent y @ [v]\<rparr>)"
proof -
  let ?m = "length (y_sent y)" and ?b = "rb_buffer (y_ring y)"
  have l: "live ?b (2 ^ k) (y_sent y) (length (y_recv y)) ?m" "released y \<le> length (y_recv y)"
    using assms(1) by (auto simp: inv_def released_def)
  have r: "r = (y_ring y)\<lparr>rb_buffer := ?b[?m mod 2 ^ k := Some v]\<rparr>"
    using producer_slot(2) [OF assms(1,2)] assms(3) by simp
  have "live (?b[?m mod 2 ^ k := Some v]) (2 ^ k) (y_sent y @ [v]) (length (y_recv y)) (?m + 1)"
    using l producer_slot(3) [OF assms(1,2)] by (intro live_write(2)) auto
  moreover have "y_recv y = take (length (y_recv y)) (y_sent y @ [v])"
    using assms(1) l(1) by (simp add: inv_def live_def)
  moreover obtain ct where "p_cached_tail (y_prod y) = word_of_nat ct" "ct \<le> released y" "?m < ct + 2 ^ k"
    using assms(1,2) unfolding inv_def by blast
  ultimately show ?thesis
    using assms(1,2) r by (auto simp: inv_def published_def released_def Suc_le_eq)
qed

lemma inv_pop_read:
  assumes "inv k y" "y_cpc y = C_Read" "slot_read (y_ring y) (c_cached_tail (y_cons y)) = Some (r, v)"
  shows "inv k (y\<lparr>y_ring := r, y_cpc := C_Publish, y_recv := y_recv y @ [v]\<rparr>)"
proof -
  let ?n = "length (y_recv y)" and ?b = "rb_buffer (y_ring y)"
  have l: "live ?b (2 ^ k) (y_sent y) ?n (length (y_sent y))" "published y \<le> length (y_sent y)"
    using assms(1) by (auto simp: inv_def published_def)
  have r: "r = (y_ring y)\<lparr>rb_buffer := ?b[?n mod 2 ^ k := None]\<rparr>" "v = y_sent y ! ?n"
    using consumer_slot(2) [OF assms(1,2)] assms(3) by simp_all
  have lt: "?n < length (y_sent y)" using consumer_slot(3) [OF assms(1,2)] l(2) by simp
  then have "live (?b[?n mod 2 ^ k := None]) (2 ^ k) (y_sent y) (?n + 1) (length (y_sent y))"
    using l(1) by (intro live_read(2))
  moreover have "y_recv y @ [v] = take (Suc ?n) (y_sent y)"
    using assms(1) r(2) lt by (simp add: inv_def take_Suc_conv_app_nth)
  moreover obtain ch where "c_cached_head (y_cons y) = word_of_nat ch" "ch \<le> published y" "?n < ch"
    using assms(1,2) unfolding inv_def by blast
  ultimately show ?thesis
    using assms(1,2) r by (auto simp: inv_def published_def released_def Suc_le_eq)
qed

lemma cursor_Suc: "0 < n \<Longrightarrow> word_of_nat (n - Suc 0) + 1 = (word_of_nat n :: u64)"
  by (cases n) simp_all

lemma inv_push_publish:
  assumes "inv k y" "y_ppc y = P_Publish" "push_publish (y_ring y) (y_prod y) = (r, p)"
  shows "inv k (y\<lparr>y_ring := r, y_prod := p, y_ppc := P_Idle\<rparr>)"
proof -
  have "word_of_nat (published y) + 1 = (word_of_nat (length (y_sent y)) :: u64)"
    using assms(1,2) by (simp add: inv_def published_def cursor_Suc)
  then show ?thesis using assms by (auto simp: inv_def published_def released_def push_publish_def)
qed

lemma inv_pop_publish:
  assumes "inv k y" "y_cpc y = C_Publish" "pop_publish (y_ring y) (y_cons y) = (r, c)"
  shows "inv k (y\<lparr>y_ring := r, y_cons := c, y_cpc := C_Idle\<rparr>)"
proof -
  have "word_of_nat (released y) + 1 = (word_of_nat (length (y_recv y)) :: u64)"
    using assms(1,2) by (simp add: inv_def released_def cursor_Suc)
  then show ?thesis using assms by (auto simp: inv_def published_def released_def pop_publish_def)
qed

lemma inv_step: "step y y' \<Longrightarrow> inv k y \<Longrightarrow> inv k y'"
  by (cases rule: step.cases)
    (auto intro: inv_push_test inv_push_write inv_push_publish inv_pop_test inv_pop_read inv_pop_publish)

lemma inv_reachable: "reachable capacity y \<Longrightarrow> \<exists>k. inv k y \<and> capacity = 2 ^ k"
proof (induction rule: reachable.induct)
  case (init x)
  then show ?case by (rule inv_start)
next
  case (step y y')
  then show ?case using inv_step by blast
qed

lemma inv_fifo:
  assumes "inv k y" "(capacity :: usize) = 2 ^ k"
  shows "\<exists>inside. y_sent y = y_recv y @ inside \<and> length inside \<le> unat capacity"
proof -
  have k: "k < 64" "y_recv y = take (length (y_recv y)) (y_sent y)"
    "length (y_sent y) \<le> length (y_recv y) + 2 ^ k"
    using assms(1) by (simp_all add: inv_def live_def)
  have "y_sent y = y_recv y @ drop (length (y_recv y)) (y_sent y)"
    using k(2) append_take_drop_id [of "length (y_recv y)" "y_sent y"] by simp
  moreover have "length (drop (length (y_recv y)) (y_sent y)) \<le> unat capacity"
    using k(1,3) assms(2) by (simp add: unat_power_of_two)
  ultimately show ?thesis by blast
qed

lemma reachable_fifo:
  "reachable capacity y \<Longrightarrow> \<exists>inside. y_sent y = y_recv y @ inside \<and> length inside \<le> unat capacity"
  using inv_reachable inv_fifo by blast

section \<open>Whole operations\<close>

text \<open>
  A push that finds the producer idle, and a pop that finds the consumer idle, run to completion
  whatever the other thread is in the middle of, and end in a reachable state.
\<close>

lemma push_test_snd: "snd (push_test r p) \<longleftrightarrow>
    p_cached_head p - p_cached_tail p = rb_capacity r \<and> p_cached_head p - rb_tail r = rb_capacity r"
  by (simp add: push_test_def)

lemma pop_test_snd: "snd (pop_test r c) \<longleftrightarrow>
    c_cached_tail c = c_cached_head c \<and> c_cached_tail c = rb_head r"
  by (simp add: pop_test_def)

lemma push_test_full:
  assumes "inv k y" "y_ppc y = P_Idle"
  shows "snd (push_test (y_ring y) (y_prod y)) \<longleftrightarrow> length (y_sent y) = released y + 2 ^ k"
proof -
  let ?m = "length (y_sent y)"
  obtain ct where ct: "p_cached_tail (y_prod y) = word_of_nat ct" "ct \<le> released y" "?m \<le> ct + 2 ^ k"
    using assms(1) unfolding inv_def by blast
  have i: "k < 64" "rb_capacity (y_ring y) = 2 ^ k" "rb_tail (y_ring y) = word_of_nat (released y)"
    "p_cached_head (y_prod y) = word_of_nat ?m" "released y \<le> ?m"
    using assms(1,2) by (auto simp: inv_def live_def published_def released_def)
  have t1: "(word_of_nat ?m - word_of_nat ct :: u64) = 2 ^ k \<longleftrightarrow> ?m = ct + 2 ^ k"
    using i(1,5) ct(2,3) by (intro full_test) auto
  have t2: "(word_of_nat ?m - word_of_nat (released y) :: u64) = 2 ^ k \<longleftrightarrow> ?m = released y + 2 ^ k"
    using i(1,5) ct(2,3) by (intro full_test) auto
  have "snd (push_test (y_ring y) (y_prod y)) \<longleftrightarrow> ?m = ct + 2 ^ k \<and> ?m = released y + 2 ^ k"
    by (simp only: push_test_snd i(2,3,4) ct(1) t1 t2)
  then show ?thesis using ct(2,3) by linarith
qed

lemma pop_test_empty:
  assumes "inv k y" "y_cpc y = C_Idle"
  shows "snd (pop_test (y_ring y) (y_cons y)) \<longleftrightarrow> length (y_recv y) = published y"
proof -
  let ?n = "length (y_recv y)"
  obtain ch where ch: "c_cached_head (y_cons y) = word_of_nat ch" "ch \<le> published y" "?n \<le> ch"
    using assms(1) unfolding inv_def by blast
  have i: "k < 64" "rb_head (y_ring y) = word_of_nat (published y)"
    "c_cached_tail (y_cons y) = word_of_nat ?n" "published y \<le> ?n + 2 ^ k"
    using assms(1,2) by (auto simp: inv_def live_def published_def released_def)
  have "(word_of_nat ?n :: u64) = word_of_nat j \<longleftrightarrow> ?n = j" if "?n \<le> j" "j \<le> published y" for j
    using that i(4) pow_less_64 [OF i(1)] by (intro cursor_eq) linarith+
  then have t1: "(word_of_nat ?n :: u64) = word_of_nat ch \<longleftrightarrow> ?n = ch"
    and t2: "(word_of_nat ?n :: u64) = word_of_nat (published y) \<longleftrightarrow> ?n = published y"
    using ch by simp_all
  have "snd (pop_test (y_ring y) (y_cons y)) \<longleftrightarrow> ?n = ch \<and> ?n = published y"
    by (simp only: pop_test_snd i(2,3) ch(1) t1 t2)
  then show ?thesis using ch(2,3) by linarith
qed

definition step_closed :: "('a Sys \<Rightarrow> bool) \<Rightarrow> bool" where
  "step_closed Q \<longleftrightarrow> (\<forall>y y'. Q y \<longrightarrow> step y y' \<longrightarrow> Q y')"

lemma inv_closed: "step_closed (inv k)"
  using inv_step by (auto simp: step_closed_def)

lemma reachable_closed: "step_closed (reachable capacity)"
  using reachable.step by (auto simp: step_closed_def)

lemma push_steps:
  assumes "inv k y" "y_ppc y = P_Idle" "step_closed Q" "Q y"
  shows "\<exists>r p res. push (y_ring y) (y_prod y) v = Some (r, p, res) \<and>
    res = (if length (y_sent y) = released y + 2 ^ k then Inl v else Inr ()) \<and>
    Q (y\<lparr>y_ring := r, y_prod := p, y_sent := y_sent y @ (if res = Inr () then [v] else [])\<rparr>)"
proof -
  obtain p full where t: "push_test (y_ring y) (y_prod y) = (p, full)" by (cases "push_test (y_ring y) (y_prod y)")
  let ?y1 = "y\<lparr>y_prod := p, y_ppc := if full then P_Idle else P_Write v\<rparr>"
  have full: "full \<longleftrightarrow> length (y_sent y) = released y + 2 ^ k" using push_test_full [OF assms(1,2)] t by simp
  have s1: "step y ?y1" using assms(2) t by (rule step.push_test)
  have q: "Q z \<Longrightarrow> step z z' \<Longrightarrow> Q z'" for z z' using assms(3) by (simp add: step_closed_def)
  have i1: "inv k ?y1" using s1 assms(1) by (rule inv_step)
  show ?thesis
  proof (cases full)
    case True
    have "?y1 = y\<lparr>y_prod := p\<rparr>" using True assms(2) by simp
    then show ?thesis using t full True q [OF assms(4) s1] by (simp add: push_def)
  next
    case False
    obtain r where w: "slot_write (y_ring y) (p_cached_head p) v = Some r"
      using producer_slot(2) [OF i1, of v] False by simp
    let ?y2 = "?y1\<lparr>y_ring := r, y_ppc := P_Publish, y_sent := y_sent y @ [v]\<rparr>"
    obtain r' p' where u: "push_publish r p = (r', p')" by (cases "push_publish r p")
    let ?y3 = "?y2\<lparr>y_ring := r', y_prod := p', y_ppc := P_Idle\<rparr>"
    have "step ?y1 ?y2" using step.push_write [of ?y1 v r] False w by simp
    moreover have "step ?y2 ?y3" using step.push_publish [of ?y2 r' p'] u by simp
    ultimately have "Q ?y3" using q assms(4) s1 by blast
    moreover have "?y3 = y\<lparr>y_ring := r', y_prod := p', y_sent := y_sent y @ [v]\<rparr>" using assms(2) by simp
    ultimately show ?thesis using t full False w u by (simp add: push_def)
  qed
qed

lemma pop_steps:
  assumes "inv k y" "y_cpc y = C_Idle" "step_closed Q" "Q y"
  shows "\<exists>r c res. pop (y_ring y) (y_cons y) = Some (r, c, res) \<and>
    res = (if length (y_recv y) = published y then None else Some (y_sent y ! length (y_recv y))) \<and>
    Q (y\<lparr>y_ring := r, y_cons := c,
          y_recv := y_recv y @ (case res of None \<Rightarrow> [] | Some v \<Rightarrow> [v])\<rparr>)"
proof -
  obtain c e where t: "pop_test (y_ring y) (y_cons y) = (c, e)" by (cases "pop_test (y_ring y) (y_cons y)")
  let ?y1 = "y\<lparr>y_cons := c, y_cpc := if e then C_Idle else C_Read\<rparr>"
  have e: "e \<longleftrightarrow> length (y_recv y) = published y" using pop_test_empty [OF assms(1,2)] t by simp
  have s1: "step y ?y1" using assms(2) t by (rule step.pop_test)
  have q: "Q z \<Longrightarrow> step z z' \<Longrightarrow> Q z'" for z z' using assms(3) by (simp add: step_closed_def)
  have i1: "inv k ?y1" using s1 assms(1) by (rule inv_step)
  show ?thesis
  proof (cases e)
    case True
    have "?y1 = y\<lparr>y_cons := c\<rparr>" using True assms(2) by simp
    then show ?thesis using t e True q [OF assms(4) s1] by (simp add: pop_def)
  next
    case False
    let ?v = "y_sent y ! length (y_recv y)"
    obtain r where w: "slot_read (y_ring y) (c_cached_tail c) = Some (r, ?v)"
      using consumer_slot(2) [OF i1] False by simp
    let ?y2 = "?y1\<lparr>y_ring := r, y_cpc := C_Publish, y_recv := y_recv y @ [?v]\<rparr>"
    obtain r' c' where u: "pop_publish r c = (r', c')" by (cases "pop_publish r c")
    let ?y3 = "?y2\<lparr>y_ring := r', y_cons := c', y_cpc := C_Idle\<rparr>"
    have "step ?y1 ?y2" using step.pop_read [of ?y1 r ?v] False w by simp
    moreover have "step ?y2 ?y3" using step.pop_publish [of ?y2 r' c'] u by simp
    ultimately have "Q ?y3" using q assms(4) s1 by blast
    moreover have "?y3 = y\<lparr>y_ring := r', y_cons := c', y_recv := y_recv y @ [?v]\<rparr>" using assms(2) by simp
    ultimately show ?thesis using t e False w u by (simp add: pop_def)
  qed
qed

text \<open>\<open>Drop\<close> takes out the live values from the tail up to the head, and leaves no value behind.\<close>

lemma drop_loop_live:
  assumes "k < 64" "rb_mask r = 2 ^ k - 1" "live (rb_buffer r) (2 ^ k) vs lo hi"
  shows "\<exists>buf. drop_loop r (word_of_nat hi) (word_of_nat lo) =
      Some (r\<lparr>rb_buffer := buf\<rparr>, drop lo (take hi vs)) \<and> buf = replicate (2 ^ k) None"
  using assms(2,3)
proof (induction "hi - lo" arbitrary: r lo)
  case 0
  then have "lo = hi" by (simp add: live_def)
  then have "rb_buffer r = replicate (2 ^ k) None" using 0 by (auto simp: live_def intro: nth_equalityI)
  moreover have "drop_loop r (word_of_nat hi) (word_of_nat lo) = Some (r, [])"
    using \<open>lo = hi\<close> by (simp add: drop_loop.simps)
  ultimately show ?case using \<open>lo = hi\<close> by (intro exI [of _ "rb_buffer r"]) simp
next
  case (Suc d)
  let ?r = "r\<lparr>rb_buffer := (rb_buffer r)[lo mod 2 ^ k := None]\<rparr>"
  have lt: "lo < hi" and b: "hi \<le> lo + 2 ^ k" "hi \<le> length vs" using Suc by (auto simp: live_def)
  have s: "slot_index r (word_of_nat lo) = lo mod 2 ^ k"
    using assms(1) Suc.prems(1) by (rule slot_index_cursor)
  have rd: "slot_read r (word_of_nat lo) = Some (?r, vs ! lo)"
    using slot_read_eq [of r "word_of_nat lo" "vs ! lo"] slot_bound [OF Suc.prems(1) assms(1) Suc.prems(2), of lo]
      live_read(1) [OF Suc.prems(2) lt] by (simp add: s)
  have "live (rb_buffer ?r) (2 ^ k) vs (lo + 1) hi" using live_read(2) [OF Suc.prems(2) lt] by simp
  then obtain buf where "drop_loop ?r (word_of_nat hi) (word_of_nat (lo + 1)) =
      Some (?r\<lparr>rb_buffer := buf\<rparr>, drop (lo + 1) (take hi vs))" "buf = replicate (2 ^ k) None"
    using Suc.hyps(1) [of "lo + 1" ?r] Suc.hyps(2) Suc.prems(1) by auto
  moreover have "(word_of_nat lo :: u64) \<noteq> word_of_nat hi"
    using cursor_eq [of lo hi] lt b(1) pow_less_64 [OF assms(1)] by (simp del: word_of_nat_eq_iff)
  moreover have "drop lo (take hi vs) = vs ! lo # drop (lo + 1) (take hi vs)"
    using lt b(2) Cons_nth_drop_Suc [of lo "take hi vs"] by simp
  ultimately show ?case
    using rd drop_loop.simps [of r "word_of_nat hi" "word_of_nat lo"] by (simp add: add.commute)
qed

section \<open>The bounded queue\<close>

text \<open>
  What a client of the ring relies on when no other operation is in progress: a queue of at most
  \<open>cap s\<close> items, whose operations always return.
\<close>

locale bounded_queue =
  fixes ok :: "'s \<Rightarrow> bool"
    and items :: "'s \<Rightarrow> 'a list"
    and cap :: "'s \<Rightarrow> nat"
    and enq :: "'s \<Rightarrow> 'a \<Rightarrow> ('s \<times> ('a + unit)) option"
    and deq :: "'s \<Rightarrow> ('s \<times> 'a option) option"
  assumes items_bound: "ok s \<Longrightarrow> length (items s) \<le> cap s"
    and enq_room: "ok s \<Longrightarrow> length (items s) < cap s \<Longrightarrow>
      \<exists>s'. enq s v = Some (s', Inr ()) \<and> ok s' \<and> items s' = items s @ [v] \<and> cap s' = cap s"
    and enq_full: "ok s \<Longrightarrow> length (items s) = cap s \<Longrightarrow>
      \<exists>s'. enq s v = Some (s', Inl v) \<and> ok s' \<and> items s' = items s \<and> cap s' = cap s"
    and deq_item: "ok s \<Longrightarrow> items s = v # vs \<Longrightarrow>
      \<exists>s'. deq s = Some (s', Some v) \<and> ok s' \<and> items s' = vs \<and> cap s' = cap s"
    and deq_empty: "ok s \<Longrightarrow> items s = [] \<Longrightarrow>
      \<exists>s'. deq s = Some (s', None) \<and> ok s' \<and> items s' = [] \<and> cap s' = cap s"

text \<open>A batch of operations: enqueue every item of a list, and dequeue until the queue is empty.\<close>

fun enq_all :: "('s \<Rightarrow> 'a \<Rightarrow> ('s \<times> ('a + unit)) option) \<Rightarrow> 's \<Rightarrow> 'a list \<Rightarrow> 's option" where
  "enq_all enq s [] = Some s"
| "enq_all enq s (v # vs) =
     (case enq s v of Some (s', Inr _) \<Rightarrow> enq_all enq s' vs | _ \<Rightarrow> None)"

partial_function (option) deq_all ::
  "('s \<Rightarrow> ('s \<times> 'a option) option) \<Rightarrow> 's \<Rightarrow> ('s \<times> 'a list) option" where
  "deq_all deq s = Option.bind (deq s) (\<lambda>(s', res).
     case res of None \<Rightarrow> Some (s', [])
     | Some v \<Rightarrow> Option.bind (deq_all deq s') (\<lambda>(s'', vs). Some (s'', v # vs)))"

declare deq_all.simps [code]

context bounded_queue
begin

lemma enq_iff: "ok s \<Longrightarrow> \<exists>s' res. enq s v = Some (s', res) \<and> ok s' \<and> cap s' = cap s \<and>
    (if length (items s) < cap s then res = Inr () \<and> items s' = items s @ [v]
     else res = Inl v \<and> items s' = items s)"
  using items_bound [of s] enq_room [of s v] enq_full [of s v]
  by (cases "length (items s) < cap s") auto

lemma enq_all_room: "ok s \<Longrightarrow> length (items s) + length vs \<le> cap s \<Longrightarrow>
    \<exists>s'. enq_all enq s vs = Some s' \<and> ok s' \<and> items s' = items s @ vs \<and> cap s' = cap s"
proof (induction vs arbitrary: s)
  case (Cons v vs)
  then obtain s' where s': "enq s v = Some (s', Inr ())" "ok s'" "items s' = items s @ [v]" "cap s' = cap s"
    using enq_room [of s v] by auto
  then show ?case using Cons.IH [of s'] Cons.prems(2) by auto
qed simp

lemma deq_all_items: "ok s \<Longrightarrow> \<exists>s'. deq_all deq s = Some (s', items s) \<and> ok s' \<and> items s' = [] \<and> cap s' = cap s"
proof (induction "items s" arbitrary: s)
  case Nil
  then show ?case using deq_empty [of s] deq_all.simps [of deq s] by fastforce
next
  case (Cons v vs)
  then obtain s' where s': "deq s = Some (s', Some v)" "ok s'" "items s' = vs" "cap s' = cap s"
    using deq_item [of s v vs] by auto
  then obtain s'' where "deq_all deq s' = Some (s'', vs)" "ok s''" "items s'' = []" "cap s'' = cap s"
    using Cons.hyps(1) [of s'] by auto
  then show ?case using s' Cons.hyps(2) deq_all.simps [of deq s] by auto
qed

lemma batch:
  assumes "ok s" "items s = []" "length vs \<le> cap s"
  shows "\<exists>s1 s2. enq_all enq s vs = Some s1 \<and> deq_all deq s1 = Some (s2, vs) \<and> ok s2 \<and> items s2 = []"
  using enq_all_room [of s vs] deq_all_items assms by fastforce

end

type_synonym 'a Ring = "'a RingBufferInner \<times> Producer \<times> Consumer"

definition idle :: "'a list \<Rightarrow> 'a list \<Rightarrow> 'a Ring \<Rightarrow> 'a Sys" where
  "idle sent recv s = (case s of (r, p, c) \<Rightarrow> \<lparr>y_ring = r, y_prod = p, y_cons = c, y_ppc = P_Idle,
     y_cpc = C_Idle, y_sent = sent, y_recv = recv\<rparr>)"

definition ring_ok :: "'a Ring \<Rightarrow> bool" where
  "ring_ok s \<longleftrightarrow> (\<exists>k sent recv. inv k (idle sent recv s))"

definition ring_items :: "'a Ring \<Rightarrow> 'a list" where
  "ring_items s = (case s of (r, p, c) \<Rightarrow>
     map (\<lambda>j. the (rb_buffer r ! slot_index r (rb_tail r + word_of_nat j)))
       [0..<unat (rb_head r - rb_tail r)])"

definition ring_cap :: "'a Ring \<Rightarrow> nat" where
  "ring_cap s = unat (rb_capacity (fst s))"

definition ring_enq :: "'a Ring \<Rightarrow> 'a \<Rightarrow> ('a Ring \<times> ('a + unit)) option" where
  "ring_enq s v = (case s of (r, p, c) \<Rightarrow> map_option (\<lambda>(r, p, res). ((r, p, c), res)) (push r p v))"

definition ring_deq :: "'a Ring \<Rightarrow> ('a Ring \<times> 'a option) option" where
  "ring_deq s = (case s of (r, p, c) \<Rightarrow> map_option (\<lambda>(r, c, res). ((r, p, c), res)) (pop r c))"

lemma idle_items:
  assumes "inv k (idle sent recv s)"
  shows "ring_items s = drop (length recv) sent" and "ring_cap s = 2 ^ k"
    and "length recv \<le> length sent" and "length sent \<le> length recv + 2 ^ k"
proof -
  obtain r p c where s: "s = (r, p, c)" by (cases s)
  have i: "k < 64" "rb_capacity r = 2 ^ k" "rb_mask r = 2 ^ k - 1"
    "rb_head r = word_of_nat (length sent)" "rb_tail r = word_of_nat (length recv)"
    "live (rb_buffer r) (2 ^ k) sent (length recv) (length sent)"
    using assms by (auto simp: inv_def idle_def s published_def released_def)
  show "ring_cap s = 2 ^ k" using i by (simp add: ring_cap_def s unat_power_of_two)
  show le: "length recv \<le> length sent" "length sent \<le> length recv + 2 ^ k"
    using i(6) by (auto simp: live_def)
  have n: "unat (rb_head r - rb_tail r) = length sent - length recv"
    using cursor_diff [OF le(1)] le(2) pow_less_64 [OF i(1)] by (simp add: i(4,5))
  have "rb_buffer r ! slot_index r (rb_tail r + word_of_nat j) = Some (sent ! (length recv + j))"
    if "j < length sent - length recv" for j
  proof -
    have "rb_tail r + word_of_nat j = word_of_nat (length recv + j)" by (simp add: i(5))
    then have "slot_index r (rb_tail r + word_of_nat j) = (length recv + j) mod 2 ^ k"
      using slot_index_cursor [OF i(1,3)] by metis
    then show ?thesis using that i(6) by (simp add: live_def)
  qed
  then show "ring_items s = drop (length recv) sent"
    using le(1) n by (intro nth_equalityI) (simp_all add: ring_items_def s)
qed

lemma ring_enq_idle:
  assumes "inv k (idle sent recv s)"
  shows "\<exists>s' res. ring_enq s v = Some (s', res) \<and>
    res = (if length sent = length recv + 2 ^ k then Inl v else Inr ()) \<and>
    inv k (idle (sent @ (if res = Inr () then [v] else [])) recv s')"
proof -
  obtain r p c where s: "s = (r, p, c)" by (cases s)
  obtain r' p' res where "push r p v = Some (r', p', res)"
      "res = (if length sent = length recv + 2 ^ k then Inl v else Inr ())"
      "inv k ((idle sent recv s)\<lparr>y_ring := r', y_prod := p',
         y_sent := sent @ (if res = Inr () then [v] else [])\<rparr>)"
    using push_steps [where Q = "inv k", OF assms _ inv_closed assms, of v]
    by (auto simp: idle_def s released_def)
  then show ?thesis by (auto simp: ring_enq_def s idle_def)
qed

lemma ring_deq_idle:
  assumes "inv k (idle sent recv s)"
  shows "\<exists>s' res. ring_deq s = Some (s', res) \<and>
    res = (if length recv = length sent then None else Some (sent ! length recv)) \<and>
    inv k (idle sent (recv @ (case res of None \<Rightarrow> [] | Some v \<Rightarrow> [v])) s')"
proof -
  obtain r p c where s: "s = (r, p, c)" by (cases s)
  obtain r' c' res where "pop r c = Some (r', c', res)"
      "res = (if length recv = length sent then None else Some (sent ! length recv))"
      "inv k ((idle sent recv s)\<lparr>y_ring := r', y_cons := c',
         y_recv := recv @ (case res of None \<Rightarrow> [] | Some v \<Rightarrow> [v])\<rparr>)"
    using pop_steps [where Q = "inv k", OF assms _ inv_closed assms]
    by (cases "length recv = length sent") (auto simp: idle_def s published_def)
  then show ?thesis by (auto simp: ring_deq_def s idle_def)
qed

interpretation rq: bounded_queue ring_ok ring_items ring_cap ring_enq ring_deq
proof
  fix s :: "'a Ring" and v :: 'a and vs :: "'a list"
  assume "ring_ok s"
  then obtain k sent recv where i: "inv k (idle sent recv s)" unfolding ring_ok_def by blast
  note it = idle_items [OF i]
  show "length (ring_items s) \<le> ring_cap s" using it by simp
  obtain s' res where e: "ring_enq s v = Some (s', res)"
      "res = (if length sent = length recv + 2 ^ k then Inl v else Inr ())"
      and ie: "inv k (idle (sent @ (if res = Inr () then [v] else [])) recv s')"
    using ring_enq_idle [OF i] by blast
  note it' = idle_items(1,2) [OF ie]
  show "\<exists>s'. ring_enq s v = Some (s', Inr ()) \<and> ring_ok s' \<and> ring_items s' = ring_items s @ [v] \<and>
      ring_cap s' = ring_cap s" if "length (ring_items s) < ring_cap s"
    using that e ie it it' unfolding ring_ok_def by (intro exI [of _ s']) auto
  show "\<exists>s'. ring_enq s v = Some (s', Inl v) \<and> ring_ok s' \<and> ring_items s' = ring_items s \<and>
      ring_cap s' = ring_cap s" if "length (ring_items s) = ring_cap s"
    using that e ie it it' unfolding ring_ok_def by (intro exI [of _ s']) auto
  obtain s'' res' where d: "ring_deq s = Some (s'', res')"
      "res' = (if length recv = length sent then None else Some (sent ! length recv))"
      and id: "inv k (idle sent (recv @ (case res' of None \<Rightarrow> [] | Some v \<Rightarrow> [v])) s'')"
    using ring_deq_idle [OF i] by blast
  note id' = idle_items(1,2) [OF id]
  show "\<exists>s'. ring_deq s = Some (s', Some v) \<and> ring_ok s' \<and> ring_items s' = vs \<and> ring_cap s' = ring_cap s"
    if "ring_items s = v # vs"
  proof -
    have lt: "length recv < length sent" using that it(1) by (cases "length recv < length sent") auto
    have "drop (length recv) sent = sent ! length recv # drop (Suc (length recv)) sent"
      using lt by (simp add: Cons_nth_drop_Suc)
    then show ?thesis
      using that d id it id' lt unfolding ring_ok_def by (intro exI [of _ s'']) auto
  qed
  show "\<exists>s'. ring_deq s = Some (s', None) \<and> ring_ok s' \<and> ring_items s' = [] \<and> ring_cap s' = ring_cap s"
    if "ring_items s = []"
    using that d id it id' unfolding ring_ok_def by (intro exI [of _ s'']) auto
qed

lemma ring_buffer_ok:
  assumes "ring_buffer capacity = Some s"
  shows "ring_ok s" "ring_items s = []" "ring_cap s = unat capacity"
proof -
  obtain k where "inv k (start s)" "capacity = 2 ^ k" using inv_start [OF assms] by blast
  moreover have "start s = idle [] [] s" by (simp add: start_def idle_def)
  ultimately have i: "inv k (idle [] [] s)" by simp
  then show "ring_ok s" unfolding ring_ok_def by blast
  show "ring_items s = []" using idle_items(1) [OF i] by simp
  show "ring_cap s = unat capacity"
    using assms by (auto simp: ring_buffer_def ring_cap_def split: if_splits)
qed

section \<open>Properties\<close>

text \<open>
  The start of a run that fills and empties a ring of two slots: both threads past their tests.
\<close>

definition ex_racing :: "nat Sys" where
  "ex_racing = \<lparr>y_ring = \<lparr>rb_buffer = [Some 7, None], rb_capacity = 2, rb_mask = 1, rb_head = 1, rb_tail = 0\<rparr>,
     y_prod = \<lparr>p_cached_head = 1, p_cached_tail = 0\<rparr>, y_cons = \<lparr>c_cached_tail = 0, c_cached_head = 1\<rparr>,
     y_ppc = P_Write 8, y_cpc = C_Read, y_sent = [7], y_recv = []\<rparr>"

lemma ring_buffer_2: "ring_buffer 2 = Some ((\<lparr>rb_buffer = [None, None], rb_capacity = 2, rb_mask = 1,
    rb_head = 0, rb_tail = 0\<rparr>, \<lparr>p_cached_head = 0, p_cached_tail = 0\<rparr>,
    \<lparr>c_cached_tail = 0, c_cached_head = 0\<rparr>) :: nat Ring)"
  by code_simp

lemma ex_racing_reachable: "reachable 2 ex_racing"
proof -
  let ?y0 = "start (\<lparr>rb_buffer = [None, None], rb_capacity = 2, rb_mask = 1, rb_head = 0, rb_tail = 0\<rparr>,
      \<lparr>p_cached_head = 0, p_cached_tail = 0\<rparr>, \<lparr>c_cached_tail = 0, c_cached_head = 0\<rparr>) :: nat Sys"
  let ?y1 = "?y0\<lparr>y_ring := (y_ring ?y0)\<lparr>rb_buffer := [Some 7, None], rb_head := 1\<rparr>,
      y_prod := \<lparr>p_cached_head = 1, p_cached_tail = 0\<rparr>, y_sent := [7]\<rparr>"
  have r0: "reachable 2 ?y0" using ring_buffer_2 by (rule reachable.init)
  obtain k where i0: "inv k ?y0" using inv_reachable [OF r0] by blast
  have p: "push (y_ring ?y0) (y_prod ?y0) 7 = Some (y_ring ?y1, y_prod ?y1, Inr ())" by code_simp
  have "reachable 2 ?y1"
    using push_steps [where Q = "reachable 2", OF i0 _ reachable_closed r0, of 7] p
    by (auto simp: start_def)
  then have "reachable 2 (?y1\<lparr>y_ppc := P_Write 8\<rparr>)"
    using step.push_test [of ?y1 "y_prod ?y1" False 8] reachable.step [of 2 ?y1]
    by (simp add: start_def push_test_def)
  then have "reachable 2 (?y1\<lparr>y_ppc := P_Write 8, y_cons := \<lparr>c_cached_tail = 0, c_cached_head = 1\<rparr>, y_cpc := C_Read\<rparr>)"
    using step.pop_test [of "?y1\<lparr>y_ppc := P_Write 8\<rparr>" "\<lparr>c_cached_tail = 0, c_cached_head = 1\<rparr>" False]
      reachable.step [of 2 "?y1\<lparr>y_ppc := P_Write 8\<rparr>"]
    by (simp add: start_def pop_test_def)
  then show ?thesis by (simp add: start_def ex_racing_def)
qed

text \<open>
  C4: The \<open>unsafe\<close> slot accesses are sound. In every state the two threads can reach, a producer about to
  write finds an uninitialized slot inside the buffer, a consumer about to read finds an
  initialized one, and if both are about to access a slot, the slots differ.
\<close>

theorem ring_slots_safe:
  assumes "reachable capacity y"
  shows "(\<forall>v. y_ppc y = P_Write v \<longrightarrow> slot_write (y_ring y) (p_cached_head (y_prod y)) v \<noteq> None) \<and>
    (y_cpc y = C_Read \<longrightarrow> slot_read (y_ring y) (c_cached_tail (y_cons y)) \<noteq> None) \<and>
    (\<forall>v. y_ppc y = P_Write v \<and> y_cpc y = C_Read \<longrightarrow>
      slot_index (y_ring y) (p_cached_head (y_prod y)) \<noteq> slot_index (y_ring y) (c_cached_tail (y_cons y)))"
proof -
  obtain k where i: "inv k y" using inv_reachable [OF assms] by blast
  have "length (y_recv y) mod 2 ^ k \<noteq> length (y_sent y) mod 2 ^ k" if "y_ppc y = P_Write v" "y_cpc y = C_Read" for v
    using consumer_slot(3) [OF i that(2)] producer_slot(3) [OF i that(1)] that
    by (intro mod_window) (simp_all add: published_def released_def)
  then show ?thesis
    using producer_slot(1,2) [OF i] consumer_slot(1,2) [OF i] by (metis option.distinct(1))
qed

theorem ring_slots_safe_witness:
  "slot_write (y_ring ex_racing) (p_cached_head (y_prod ex_racing)) 8 \<noteq> None \<and>
   slot_read (y_ring ex_racing) (c_cached_tail (y_cons ex_racing)) \<noteq> None \<and>
   slot_index (y_ring ex_racing) (p_cached_head (y_prod ex_racing)) \<noteq>
   slot_index (y_ring ex_racing) (c_cached_tail (y_cons ex_racing))"
proof -
  have "y_ppc ex_racing = P_Write 8" "y_cpc ex_racing = C_Read" by (simp_all add: ex_racing_def)
  then show ?thesis using ring_slots_safe [OF ex_racing_reachable] by blast
qed

text \<open>
  C13: First in, first out, with no loss and no duplication: whatever the interleaving, the values taken out
  are the values put in, in the same order, up to those still inside, and never more than the
  capacity are inside, also after the cursors have wrapped around.
\<close>

theorem ring_fifo:
  assumes "reachable capacity y"
  shows "\<exists>inside. y_sent y = y_recv y @ inside \<and> length inside \<le> unat capacity"
  using assms by (rule reachable_fifo)

theorem ring_fifo_witness:
  "\<exists>inside. y_sent ex_racing = y_recv ex_racing @ inside \<and> length inside \<le> unat (2 :: usize)"
  using ring_fifo [OF ex_racing_reachable] .

text \<open>
  A push that starts in a reachable state always returns, whatever the consumer is in the middle of:
  it hands the value back exactly when as many values as the capacity are not yet released, and
  otherwise the value is in the ring; the state after it is reachable.
\<close>

theorem push_completes:
  assumes "reachable capacity y" "y_ppc y = P_Idle"
  shows "\<exists>r p res. push (y_ring y) (y_prod y) v = Some (r, p, res) \<and>
    res = (if length (y_sent y) = released y + unat capacity then Inl v else Inr ()) \<and>
    reachable capacity
      (y\<lparr>y_ring := r, y_prod := p, y_sent := y_sent y @ (if res = Inr () then [v] else [])\<rparr>)"
proof -
  obtain k where i: "inv k y" "capacity = 2 ^ k" using inv_reachable [OF assms(1)] by blast
  then have "unat capacity = 2 ^ k" by (simp add: inv_def unat_power_of_two)
  then show ?thesis
    using push_steps [where Q = "reachable capacity", OF i(1) assms(2) reachable_closed assms(1)] by simp
qed

theorem push_completes_witness:
  "\<exists>x r p res. ring_buffer 2 = Some x \<and>
    push (y_ring (start x)) (y_prod (start x)) (5 :: nat) = Some (r, p, res) \<and> res = Inr ()"
proof -
  obtain x :: "nat Ring" where x: "ring_buffer 2 = Some x" "y_ppc (start x) = P_Idle"
    "y_sent (start x) = []" using ring_buffer_2 by (auto simp: start_def)
  then show ?thesis using push_completes [OF reachable.init [OF x(1)] x(2), of 5] by auto
qed

text \<open>
  A pop that starts in a reachable state always returns, whatever the producer is in the middle of:
  nothing exactly when every published value has been taken, and otherwise the oldest value not yet
  taken; the state after it is reachable.
\<close>

theorem pop_completes:
  assumes "reachable capacity y" "y_cpc y = C_Idle"
  shows "\<exists>r c res. pop (y_ring y) (y_cons y) = Some (r, c, res) \<and>
    res = (if length (y_recv y) = published y then None else Some (y_sent y ! length (y_recv y))) \<and>
    reachable capacity (y\<lparr>y_ring := r, y_cons := c,
      y_recv := y_recv y @ (case res of None \<Rightarrow> [] | Some v \<Rightarrow> [v])\<rparr>)"
proof -
  obtain k where "inv k y" using inv_reachable [OF assms(1)] by blast
  then show ?thesis
    using pop_steps [where Q = "reachable capacity", OF _ assms(2) reachable_closed assms(1)] by blast
qed

theorem pop_completes_witness:
  "\<exists>x r c res. ring_buffer 2 = Some (x :: nat Ring) \<and>
    pop (y_ring (start x)) (y_cons (start x)) = Some (r, c, res) \<and> res = None"
proof -
  obtain x :: "nat Ring" where x: "ring_buffer 2 = Some x" "y_cpc (start x) = C_Idle"
    "y_sent (start x) = []" "y_recv (start x) = []" using ring_buffer_2 by (auto simp: start_def)
  then show ?thesis using pop_completes [OF reachable.init [OF x(1)] x(2)] by (auto simp: published_def)
qed

text \<open>
  The ring as a queue: a fresh ring takes up to its capacity in values, and popping until it is empty
  ends and gives them back in order.
\<close>

theorem ring_batch_roundtrip:
  assumes "ring_buffer capacity = Some s" "length vs \<le> unat capacity"
  shows "\<exists>s1 s2. enq_all ring_enq s vs = Some s1 \<and> deq_all ring_deq s1 = Some (s2, vs) \<and>
    ring_items s2 = []"
  using rq.batch [of s vs] ring_buffer_ok [OF assms(1)] assms(2) by auto

theorem ring_batch_roundtrip_witness:
  "\<exists>s s1 s2. ring_buffer 2 = Some s \<and> enq_all ring_enq s [3, 4 :: nat] = Some s1 \<and>
    deq_all ring_deq s1 = Some (s2, [3, 4]) \<and> ring_items s2 = []"
  using ring_batch_roundtrip [OF ring_buffer_2, of "[3, 4 :: nat]"] ring_buffer_2 by fastforce

text \<open>
  Dropping the ring after both threads are done ends, drops exactly the values put in and never taken
  out, oldest first, and leaves no value in the buffer.
\<close>

theorem ring_drop_drops_rest:
  assumes "reachable capacity y" "y_ppc y = P_Idle" "y_cpc y = C_Idle"
  shows "\<exists>r. ring_drop (y_ring y) = Some (r, drop (length (y_recv y)) (y_sent y)) \<and>
    rb_buffer r = replicate (unat capacity) None"
proof -
  obtain k where i: "inv k y" "capacity = 2 ^ k" using inv_reachable [OF assms(1)] by blast
  then have h: "k < 64" "rb_mask (y_ring y) = 2 ^ k - 1" "rb_head (y_ring y) = word_of_nat (length (y_sent y))"
    "rb_tail (y_ring y) = word_of_nat (length (y_recv y))"
    "live (rb_buffer (y_ring y)) (2 ^ k) (y_sent y) (length (y_recv y)) (length (y_sent y))"
    using assms(2,3) by (auto simp: inv_def published_def released_def)
  then show ?thesis
    using drop_loop_live [OF h(1,2,5)] i(2) by (auto simp: ring_drop_def unat_power_of_two)
qed

theorem ring_drop_drops_rest_witness:
  "\<exists>x r. ring_buffer 2 = Some (x :: nat Ring) \<and> ring_drop (y_ring (start x)) = Some (r, []) \<and>
    rb_buffer r = replicate 2 None"
proof -
  obtain x :: "nat Ring" where x: "ring_buffer 2 = Some x" "y_ppc (start x) = P_Idle"
    "y_cpc (start x) = C_Idle" "y_sent (start x) = []" "y_recv (start x) = []"
    using ring_buffer_2 by (auto simp: start_def)
  then show ?thesis
    using ring_drop_drops_rest [OF reachable.init [OF x(1)] x(2,3)] by auto
qed

end
