(* ===== verification/Gateway.thy ===== *)
theory Gateway
  imports Recovery RingBuffer
begin

text \<open>
  \<open>src/gateway.rs\<close>: the process around the engine, as the operations of its two threads.

  The client thread reads commands from a TCP connection. A connection is the bytes that will
  arrive on it and the error \<open>read_exact\<close> reports when they run out (\<open>Stream\<close>); the clock is a function
  from the number of the reading to its value. The matching thread logs, applies and reports each
  command; its datagrams are collected in the order in which they are handed to the socket, whose
  own errors the code ignores. \<open>crc\<close>, \<open>ser_fields\<close>, \<open>ser\<close> and \<open>os\<close> are the parameters of the log and of
  snapshots, and \<open>fault\<close> says where a \<open>save\<close> fails.
\<close>

section \<open>The code\<close>

type_synonym SocketAddr = "(u8 \<times> u8 \<times> u8 \<times> u8) \<times> 16 word"

record GatewayConfig =
  g_listen_addr :: SocketAddr
  g_multicast_addr :: SocketAddr
  g_ring_capacity :: usize
  g_arena_capacity :: u32
  g_data_dir :: "string option"
  g_snapshot_interval :: u64

definition GatewayConfig_default :: GatewayConfig where
  "GatewayConfig_default =
     \<lparr>g_listen_addr = ((0, 0, 0, 0), 9000), g_multicast_addr = ((239, 1, 1, 1), 9001),
      g_ring_capacity = 65536, g_arena_capacity = 1048576, g_data_dir = None,
      g_snapshot_interval = 10000\<rparr>"

datatype ErrorKind = UnexpectedEof | ConnectionReset | OtherKind

datatype GatewayError = GIo ErrorKind | GProtocol ProtocolError

subsection \<open>The client thread\<close>

record Stream =
  t_bytes :: "u8 list"
  t_end :: ErrorKind

definition read_exact :: "Stream \<Rightarrow> nat \<Rightarrow> Stream \<times> (ErrorKind + u8 list)" where
  "read_exact s n =
     (if n \<le> length (t_bytes s) then (s\<lparr>t_bytes := drop n (t_bytes s)\<rparr>, Inr (take n (t_bytes s)))
      else (s\<lparr>t_bytes := []\<rparr>, Inl (t_end s)))"

text \<open>
  What one turn of the loop of \<open>handle_client\<close> comes to before the push: the connection is closed
  (\<open>break\<close>), an error is returned, or there is a command to push.
\<close>

datatype turn = Closed | Failed GatewayError | Push EngineCommand

definition read_error :: "ErrorKind \<Rightarrow> turn" where
  "read_error e = (if e = UnexpectedEof \<or> e = ConnectionReset then Closed else Failed (GIo e))"

definition stamp :: "u64 \<Rightarrow> EngineCommand \<Rightarrow> EngineCommand" where
  "stamp now cmd = (case cmd of NewOrder x \<Rightarrow> NewOrder (x\<lparr>o_timestamp := now\<rparr>) | CancelOrder k \<Rightarrow> CancelOrder k)"

definition decode_frame :: "u64 \<Rightarrow> u8 \<Rightarrow> u8 list \<Rightarrow> turn" where
  "decode_frame now msg_type body =
     (case decode_message (msg_type # body) of
        Inl e \<Rightarrow> Failed (GProtocol e)
      | Inr cmd \<Rightarrow> Push (stamp now cmd))"

definition handle_turn :: "u64 \<Rightarrow> Stream \<Rightarrow> Stream \<times> turn" where
  "handle_turn now s =
     (case read_exact s 1 of
        (s, Inl e) \<Rightarrow> (s, read_error e)
      | (s, Inr type_buf) \<Rightarrow>
          let msg_type = hd type_buf in
          case message_size msg_type of
            Inl e \<Rightarrow> (s, Failed (GProtocol e))
          | Inr n \<Rightarrow>
              if n > 1 then
                (case read_exact s (n - 1) of
                   (s, Inl e) \<Rightarrow> (s, read_error e)
                 | (s, Inr body) \<Rightarrow> (s, decode_frame now msg_type body))
              else (s, decode_frame now msg_type []))"

lemma read_exact_length: "read_exact s n = (s', Inr bs) \<Longrightarrow> length (t_bytes s') + n = length (t_bytes s)"
  by (auto simp: read_exact_def split: if_splits)

lemma handle_turn_shorter:
  "handle_turn now s = (s', Push cmd) \<Longrightarrow> length (t_bytes s') < length (t_bytes s)"
  by (auto simp: handle_turn_def read_error_def Let_def dest!: read_exact_length
      split: prod.splits sum.splits if_splits)

text \<open>
  All the commands a connection yields, in order, and the result of \<open>handle_client\<close>: the loop without
  its pushes, each of which is repeated until it succeeds. \<open>now k\<close> is the clock at message \<open>k\<close>.
\<close>

function client_commands ::
  "(nat \<Rightarrow> u64) \<Rightarrow> nat \<Rightarrow> Stream \<Rightarrow> EngineCommand list \<times> (GatewayError + unit)" where
  "client_commands now k s =
     (case handle_turn (now k) s of
        (s', Closed) \<Rightarrow> ([], Inr ())
      | (s', Failed e) \<Rightarrow> ([], Inl e)
      | (s', Push cmd) \<Rightarrow> (let (cmds, r) = client_commands now (k + 1) s' in (cmd # cmds, r)))"
  by pat_completeness auto

termination client_commands
  by (relation "measure (\<lambda>(now, k, s). length (t_bytes s))") (auto dest: handle_turn_shorter [OF sym])

declare client_commands.simps [simp del]

subsection \<open>The matching thread\<close>

record Matcher =
  m_engine :: MatchingEngine
  m_wal :: "Wal option"
  m_snapshot_dir :: "dir option"
  m_snapshot_interval :: u64
  m_seq_num :: u32
  m_report_buf :: "u8 list"
  m_since_snapshot :: u64
  m_sent :: "u8 list list"

text \<open>The loop over the fills: one datagram each, with the next sequence number.\<close>

fun send_fills :: "u64 \<Rightarrow> Fill list \<Rightarrow> Matcher \<Rightarrow> Matcher" where
  "send_fills timestamp [] m = m"
| "send_fills timestamp (fill # fills) m =
     (let seq_num = m_seq_num m + 1;
          (buf, r) = encode_execution_report (m_report_buf m) seq_num fill timestamp;
          m = m\<lparr>m_seq_num := seq_num, m_report_buf := buf\<rparr>
      in send_fills timestamp fills
           (case r of Inr _ \<Rightarrow> m\<lparr>m_sent := m_sent m @ [buf]\<rparr> | Inl _ \<Rightarrow> m))"

definition process_command ::
  "(u8 list \<Rightarrow> u32) \<Rightarrow> (nat \<Rightarrow> bool) \<Rightarrow> EngineCommand \<Rightarrow> Matcher \<Rightarrow> Matcher option" where
  "process_command crc os cmd m = do {
     m \<leftarrow> (case m_wal m of
         None \<Rightarrow> Some m
       | Some w \<Rightarrow> do { (w, _) \<leftarrow> wal_append crc os w cmd; Some (m\<lparr>m_wal := Some w\<rparr>) });
     case cmd of
       NewOrder order \<Rightarrow> do {
         (e, r) \<leftarrow> add_order (m_engine m) order;
         let m = m\<lparr>m_engine := e\<rparr>;
         Some (case r of
             Inr result \<Rightarrow> send_fills (o_timestamp order) (r_fills result) m
           | Inl _ \<Rightarrow> m)
       }
     | CancelOrder order_id \<Rightarrow> do {
         (e, _) \<leftarrow> engine_cancel_order (m_engine m) order_id;
         Some (m\<lparr>m_engine := e\<rparr>)
       }
   }"

text \<open>The rest of a turn of \<open>matching_loop\<close>: count the command, and take a snapshot when it is due.\<close>

definition after_command ::
  "(u8 list \<Rightarrow> u32) \<Rightarrow> (snap_fields \<Rightarrow> u8 list) \<Rightarrow> (Snapshot \<Rightarrow> u8 list) \<Rightarrow> save_fault \<Rightarrow> Matcher \<Rightarrow>
   Matcher option" where
  "after_command crc ser_fields ser fault m =
     (let m = m\<lparr>m_since_snapshot := m_since_snapshot m + 1\<rparr> in
      case (m_wal m, m_snapshot_dir m) of
        (Some w, Some d) \<Rightarrow>
          if m_since_snapshot m \<ge> m_snapshot_interval m then do {
            snap \<leftarrow> capture crc ser_fields (m_engine m) (w_record_count w);
            Some (m\<lparr>m_snapshot_dir := Some (fst (save ser fault snap d)), m_since_snapshot := 0\<rparr>)
          }
          else Some m
      | _ \<Rightarrow> Some m)"

definition loop_turn ::
  "(u8 list \<Rightarrow> u32) \<Rightarrow> (snap_fields \<Rightarrow> u8 list) \<Rightarrow> (Snapshot \<Rightarrow> u8 list) \<Rightarrow> (nat \<Rightarrow> bool) \<Rightarrow> save_fault \<Rightarrow>
   EngineCommand \<Rightarrow> Matcher \<Rightarrow> Matcher option" where
  "loop_turn crc ser_fields ser os fault cmd m = do {
     m \<leftarrow> process_command crc os cmd m;
     after_command crc ser_fields ser fault m
   }"

subsection \<open>Start-up\<close>

text \<open>
  The engine, log and snapshot directory \<open>run\<close> starts with: recovered, or empty and without
  persistence when there is no data directory or recovery fails.
\<close>

definition start_engine ::
  "(u8 list \<Rightarrow> u32) \<Rightarrow> (snap_fields \<Rightarrow> u8 list) \<Rightarrow> (u8 list \<Rightarrow> Snapshot option) \<Rightarrow> (nat \<Rightarrow> bool) \<Rightarrow> bool \<Rightarrow>
   SnapshotError + dir option \<Rightarrow> u8 list \<Rightarrow> GatewayConfig \<Rightarrow>
   (MatchingEngine \<times> Wal option \<times> dir option) option" where
  "start_engine crc ser_fields de os dir_ok snapshot_dir wal_file config =
     (case g_data_dir config of
        None \<Rightarrow> Some (MatchingEngine_with_capacity (g_arena_capacity config), None, None)
      | Some _ \<Rightarrow> do {
          r \<leftarrow> recover crc ser_fields de os dir_ok snapshot_dir wal_file (g_arena_capacity config);
          Some (case r of
              Inr (engine, wal) \<Rightarrow>
                (engine, Some wal, Some (case snapshot_dir of Inr (Some d) \<Rightarrow> d | _ \<Rightarrow> []))
            | Inl e \<Rightarrow> (MatchingEngine_with_capacity (g_arena_capacity config), None, None))
        })"

definition matching_start :: "MatchingEngine \<times> Wal option \<times> dir option \<Rightarrow> u64 \<Rightarrow> Matcher" where
  "matching_start x snapshot_interval =
     (case x of (engine, wal, dir) \<Rightarrow>
        \<lparr>m_engine = engine, m_wal = wal, m_snapshot_dir = dir, m_snapshot_interval = snapshot_interval,
         m_seq_num = 0, m_report_buf = replicate EXECUTION_REPORT_SIZE 0, m_since_snapshot = 0,
         m_sent = []\<rparr>)"

section \<open>The client thread\<close>

text \<open>What is decoded from a connection always has a quantity, whatever the bytes.\<close>

lemma decode_cmd_ok: "decode_message buf = Inr cmd \<Longrightarrow> cmd_ok cmd"
  by (auto simp: decode_message_def decode_new_order_def and_then_Inr cmd_ok_def split: if_splits)

lemma stamp_simps [simp]: "cmd_ok (stamp n cmd) = cmd_ok cmd" "stamp n (logged cmd) = stamp n cmd"
  "logged (stamp n cmd) = logged cmd"
  by (cases cmd; simp add: stamp_def cmd_ok_def logged_def)+

lemma decode_frame_ok: "decode_frame now t body = Push cmd \<Longrightarrow> cmd_ok cmd"
  by (auto simp: decode_frame_def dest: decode_cmd_ok split: sum.splits)

lemma handle_turn_ok: "handle_turn now s = (s', Push cmd) \<Longrightarrow> cmd_ok cmd"
  by (auto simp: handle_turn_def read_error_def Let_def dest: decode_frame_ok
      split: prod.splits sum.splits if_splits)

lemma cmd_bytes_frame:
  "\<exists>t body. cmd_bytes cmd = t # body \<and> message_size t = Inr (Suc (length body)) \<and> body \<noteq> []"
  by (cases cmd)
    (auto simp: cmd_bytes_def new_order_bytes_def cancel_order_bytes_def message_size_def tag_defs size_defs)

lemma handle_turn_frame:
  assumes "cmd_ok cmd" "t_bytes s = cmd_bytes cmd @ rest"
  shows "handle_turn now s = (s\<lparr>t_bytes := rest\<rparr>, Push (stamp now cmd))"
proof -
  obtain t body where f: "cmd_bytes cmd = t # body" "message_size t = Inr (Suc (length body))" "body \<noteq> []"
    using cmd_bytes_frame by blast
  have "decode_frame now t body = Push (stamp now cmd)"
    using decode_cmd_bytes [OF assms(1)] f(1) by (simp add: decode_frame_def)
  then show ?thesis using f assms(2) by (simp add: handle_turn_def read_exact_def Let_def)
qed

lemma handle_turn_partial:
  assumes "t_bytes s = take n (cmd_bytes cmd)" "n < length (cmd_bytes cmd)"
  shows "handle_turn now s = (s\<lparr>t_bytes := []\<rparr>, read_error (t_end s))"
proof -
  obtain t body where f: "cmd_bytes cmd = t # body" "message_size t = Inr (Suc (length body))" "body \<noteq> []"
    using cmd_bytes_frame by blast
  then show ?thesis
    using assms by (cases n) (auto simp: handle_turn_def read_exact_def Let_def)
qed

definition stamped :: "(nat \<Rightarrow> u64) \<Rightarrow> nat \<Rightarrow> EngineCommand list \<Rightarrow> EngineCommand list" where
  "stamped now k cmds = map (\<lambda>(i, cmd). stamp (now i) cmd) (enumerate k cmds)"

lemma client_commands_frames:
  "\<forall>cmd\<in>set cmds. cmd_ok cmd \<Longrightarrow> t_bytes s = concat (map cmd_bytes cmds) @ rest \<Longrightarrow>
   client_commands now k s =
     (let (more, r) = client_commands now (k + length cmds) (s\<lparr>t_bytes := rest\<rparr>)
      in (stamped now k cmds @ more, r))"
proof (induction cmds arbitrary: k s)
  case Nil
  then have "s\<lparr>t_bytes := rest\<rparr> = s" by simp
  then show ?case by (simp add: stamped_def)
next
  case (Cons cmd cmds)
  have "handle_turn (now k) s = (s\<lparr>t_bytes := concat (map cmd_bytes cmds) @ rest\<rparr>, Push (stamp (now k) cmd))"
    using Cons.prems by (intro handle_turn_frame) simp_all
  then show ?case
    using Cons.IH [of "s\<lparr>t_bytes := concat (map cmd_bytes cmds) @ rest\<rparr>" "k + 1"] Cons.prems(1)
    by (simp add: client_commands.simps [of now k s] stamped_def split: prod.splits)
qed

lemma client_reads_frames:
  assumes "\<forall>cmd\<in>set cmds. cmd_ok cmd" "n < length (cmd_bytes last_cmd)"
    and "t_bytes s = concat (map cmd_bytes cmds) @ take n (cmd_bytes last_cmd)"
    and "t_end s = UnexpectedEof \<or> t_end s = ConnectionReset"
  shows "client_commands now 0 s = (stamped now 0 cmds, Inr ())"
proof -
  have "client_commands now k (s\<lparr>t_bytes := take n (cmd_bytes last_cmd)\<rparr>) = ([], Inr ())" for k
    using handle_turn_partial [of "s\<lparr>t_bytes := take n (cmd_bytes last_cmd)\<rparr>", OF _ assms(2)] assms(4)
    by (auto simp: client_commands.simps [of now k] read_error_def)
  then show ?thesis using client_commands_frames [OF assms(1,3)] by simp
qed

text \<open>
  C22: The client thread reads back exactly what was sent. When the bytes of a sequence of messages
  arrive, possibly followed by part of one more, and the connection is closed or reset, the
  commands pushed are the ones sent, in order, stamped with the time of arrival, and the result is
  success; a partial last message is dropped.
\<close>

theorem client_reads_messages:
  assumes "\<forall>cmd\<in>set cmds. cmd_ok cmd" "n < length (cmd_bytes last_cmd)"
    and "t_bytes s = concat (map cmd_bytes cmds) @ take n (cmd_bytes last_cmd)"
    and "t_end s = UnexpectedEof \<or> t_end s = ConnectionReset"
  shows "client_commands now 0 s = (stamped now 0 cmds, Inr ())"
  using assms by (rule client_reads_frames)

theorem client_reads_messages_witness:
  "client_commands (\<lambda>k. 100) 0
     \<lparr>t_bytes = cmd_bytes ex_cmd @ cmd_bytes (CancelOrder 1) @ take 3 (cmd_bytes ex_cmd), t_end = UnexpectedEof\<rparr> =
   ([stamp 100 ex_cmd, CancelOrder 1], Inr ())"
proof -
  let ?s = "\<lparr>t_bytes = cmd_bytes ex_cmd @ cmd_bytes (CancelOrder 1) @ take 3 (cmd_bytes ex_cmd),
    t_end = UnexpectedEof\<rparr>"
  have "client_commands (\<lambda>k. 100) 0 ?s = (stamped (\<lambda>k. 100) 0 [ex_cmd, CancelOrder 1], Inr ())"
    by (rule client_reads_messages [where n = 3 and last_cmd = ex_cmd])
      (simp_all add: cmd_ok_def ex_cmd_def length_cmd_bytes)
  then show ?thesis by (simp add: stamped_def stamp_def)
qed

section \<open>The matching thread\<close>

text \<open>The datagrams of one command: a report per fill, numbered from the next sequence number on.\<close>

fun reports :: "u32 \<Rightarrow> u64 \<Rightarrow> Fill list \<Rightarrow> u8 list list" where
  "reports n ts [] = []"
| "reports n ts (f # fs) = report_bytes (n + 1) f ts # reports (n + 1) ts fs"

lemma send_fills_eq:
  assumes "length (m_report_buf m) = EXECUTION_REPORT_SIZE"
  shows "\<exists>buf. length buf = EXECUTION_REPORT_SIZE \<and> send_fills ts fs m =
    m\<lparr>m_seq_num := m_seq_num m + word_of_nat (length fs), m_report_buf := buf,
      m_sent := m_sent m @ reports (m_seq_num m) ts fs\<rparr>"
  using assms
proof (induction fs arbitrary: m)
  case Nil
  then show ?case by (intro exI [of _ "m_report_buf m"]) simp
next
  case (Cons f fs)
  let ?b = "report_bytes (m_seq_num m + 1) f ts"
  let ?m = "m\<lparr>m_seq_num := m_seq_num m + 1, m_report_buf := ?b, m_sent := m_sent m @ [?b]\<rparr>"
  have "send_fills ts (f # fs) m = send_fills ts fs ?m"
    using Cons.prems by (simp add: encode_report_bytes Let_def)
  moreover have "length (m_report_buf ?m) = EXECUTION_REPORT_SIZE" by (simp add: size_defs)
  ultimately show ?case using Cons.IH [of ?m] by (auto simp: add.assoc add.commute)
qed

text \<open>
  What the matching thread relies on: a well-formed engine, a well-formed log if there is one, and a
  report buffer of the right size.
\<close>

definition matcher_ok :: "(u8 list \<Rightarrow> u32) \<Rightarrow> Matcher \<Rightarrow> bool" where
  "matcher_ok crc m \<longleftrightarrow> engine_ok (m_engine m) \<and> length (m_report_buf m) = EXECUTION_REPORT_SIZE \<and>
     (\<forall>w. m_wal m = Some w \<longrightarrow> (\<exists>ps. wal_ok crc w ps))"

text \<open>The fills a command produces, as \<open>add_order\<close> returns them.\<close>

definition cmd_fills :: "MatchingEngine \<Rightarrow> EngineCommand \<Rightarrow> u64 \<times> Fill list" where
  "cmd_fills e cmd =
     (case cmd of
        CancelOrder _ \<Rightarrow> (0, [])
      | NewOrder x \<Rightarrow>
          (o_timestamp x, case add_order e x of Some (_, Inr res) \<Rightarrow> r_fills res | _ \<Rightarrow> []))"

lemma wal_append_total:
  assumes "wal_ok crc w ps"
  shows "\<exists>w' r. wal_append crc os w cmd = Some (w', r) \<and>
    wal_ok crc w' (if room os w (HEADER_SIZE + length (cmd_bytes cmd)) then ps @ [cmd_bytes cmd] else ps)"
  using append_ok [OF assms, of os cmd] append_full [OF assms, of os cmd] by auto

lemma process_command_ok:
  assumes "matcher_ok crc m"
  shows "\<exists>m'. process_command crc os cmd m = Some m' \<and> matcher_ok crc m' \<and>
    replay_command (m_engine m) cmd = Some (m_engine m') \<and>
    m_sent m' = m_sent m @ (case cmd_fills (m_engine m) cmd of (ts, fs) \<Rightarrow> reports (m_seq_num m) ts fs) \<and>
    m_seq_num m' = m_seq_num m + word_of_nat (length (snd (cmd_fills (m_engine m) cmd))) \<and>
    m_snapshot_dir m' = m_snapshot_dir m \<and> m_snapshot_interval m' = m_snapshot_interval m \<and>
    m_since_snapshot m' = m_since_snapshot m \<and>
    m_wal m' = (case m_wal m of None \<Rightarrow> None | Some w \<Rightarrow> map_option fst (wal_append crc os w cmd))"
proof -
  define m1 where "m1 = m\<lparr>m_wal := (case m_wal m of None \<Rightarrow> None | Some w \<Rightarrow> map_option fst (wal_append crc os w cmd))\<rparr>"
  have w: "(case m_wal m of None \<Rightarrow> Some m
      | Some w \<Rightarrow> do { (w, _) \<leftarrow> wal_append crc os w cmd; Some (m\<lparr>m_wal := Some w\<rparr>) }) = Some m1"
    and ok1: "matcher_ok crc m1" "m_engine m1 = m_engine m" "m_sent m1 = m_sent m" "m_seq_num m1 = m_seq_num m"
    using assms wal_append_total [of crc _ _ os cmd]
    by (cases "m_wal m"; force simp: m1_def matcher_ok_def)+
  obtain e where e: "replay_command (m_engine m) cmd = Some e" "engine_ok e"
    using replay_command_ok [of "m_engine m" cmd] assms by (auto simp: matcher_ok_def)
  show ?thesis
  proof (cases cmd)
    case (NewOrder x)
    then obtain r where a: "add_order (m_engine m) x = Some (e, r)" using e(1) by (auto simp: replay_command_def)
    have l: "length (m_report_buf (m1\<lparr>m_engine := e\<rparr>)) = EXECUTION_REPORT_SIZE"
      using ok1 by (simp add: matcher_ok_def)
    show ?thesis
      using w a e ok1 NewOrder send_fills_eq [OF l, of "o_timestamp x" "case r of Inr res \<Rightarrow> r_fills res | _ \<Rightarrow> []"]
      by (cases r) (auto simp: process_command_def cmd_fills_def matcher_ok_def m1_def)
  next
    case (CancelOrder k)
    then show ?thesis
      using w e ok1 by (auto simp: process_command_def cmd_fills_def replay_command_def matcher_ok_def m1_def)
  qed
qed

lemma after_command_ok:
  assumes "matcher_ok crc m"
  shows "\<exists>m'. after_command crc ser_fields ser fault m = Some m' \<and> matcher_ok crc m' \<and>
    m_engine m' = m_engine m \<and> m_sent m' = m_sent m \<and> m_seq_num m' = m_seq_num m \<and> m_wal m' = m_wal m"
proof -
  have bk: "book_ok (e_book (m_engine m))" using assms by (simp add: matcher_ok_def engine_ok_def)
  show ?thesis
  proof (cases "\<exists>w d. m_wal m = Some w \<and> m_snapshot_dir m = Some d")
    case True
    then obtain w d where "m_wal m = Some w" "m_snapshot_dir m = Some d" by blast
    moreover obtain snap where "capture crc ser_fields (m_engine m) (w_record_count w) = Some snap"
      using capture_total [OF bk] by blast
    ultimately show ?thesis using assms by (auto simp: after_command_def matcher_ok_def Let_def)
  next
    case False
    then show ?thesis
      using assms by (cases "m_wal m"; cases "m_snapshot_dir m") (auto simp: after_command_def matcher_ok_def Let_def)
  qed
qed

lemma loop_turn_ok:
  assumes "matcher_ok crc m"
  shows "\<exists>m'. loop_turn crc ser_fields ser os fault cmd m = Some m' \<and> matcher_ok crc m' \<and>
    replay_command (m_engine m) cmd = Some (m_engine m')"
  using process_command_ok [OF assms, of os cmd] after_command_ok [of crc _ ser_fields ser fault]
  by (fastforce simp: loop_turn_def)

lemma start_engine_ok:
  "start_engine crc ser_fields de os dir_ok snapshot_dir wal_file (config\<lparr>g_data_dir := None\<rparr>) = Some x \<Longrightarrow>
   matcher_ok crc (matching_start x interval)"
  using engine_with_capacity(1) by (auto simp: start_engine_def matching_start_def matcher_ok_def)

end
