(* ===== verification/Durability.thy ===== *)
theory Durability
  imports Gateway
begin

text \<open>
  What survives a crash of the gateway: the log and the snapshots together always hold every command
  that was applied. \<open>serving\<close> is the life of the matching thread over any number of restarts: it starts
  on an empty data directory, applies commands, takes snapshots that may fail anywhere, and is
  restarted from what is on disk. \<open>durable\<close> is the invariant.
\<close>

section \<open>The invariant\<close>

abbreviation empty_view :: sides where "empty_view \<equiv> \<lambda>_. []"

text \<open>The view of an engine of capacity \<open>cap\<close> that ran \<open>cmds\<close>, without timestamps.\<close>

definition run_view :: "u32 \<Rightarrow> EngineCommand list \<Rightarrow> sides" where
  "run_view cap cmds = strip_view (run_spec (unat cap) empty_view cmds)"

definition shows_run :: "u32 \<Rightarrow> MatchingEngine \<Rightarrow> EngineCommand list \<Rightarrow> bool" where
  "shows_run cap e cmds \<longleftrightarrow> engine_ok e \<and> engine_capacity e = unat cap \<and>
     strip_view (engine_view e) = run_view cap cmds"

lemma shows_run_empty: "shows_run cap (MatchingEngine_with_capacity cap) []"
  using engine_with_capacity by (simp add: shows_run_def run_view_def run_spec_def)

lemma run_view_Cons: "strip_view Q = run_view cap cmds \<Longrightarrow>
    strip_view (run_spec (unat cap) Q (map logged cs)) = run_view cap (cmds @ cs)"
  using run_spec_logged [of Q "run_spec (unat cap) empty_view cmds" "unat cap" cs]
  by (simp add: run_view_def run_spec_append)

lemma shows_run_replay:
  assumes "shows_run cap e cmds" "replay_command e cmd = Some e'"
  shows "shows_run cap e' (cmds @ [cmd])"
proof -
  have e: "engine_ok e" "engine_capacity e = unat cap" "strip_view (engine_view e) = run_view cap cmds"
    using assms(1) by (simp_all add: shows_run_def)
  have e': "engine_ok e'" "engine_capacity e' = unat cap"
    "engine_view e' = run_spec (unat cap) (engine_view e) [cmd]"
    using replay_command_ok [OF e(1), of cmd] assms(2) e(2) by (auto simp: run_spec_def)
  have "strip_view (engine_view e') =
      strip_view (run_spec (unat cap) (engine_view e) (map logged [cmd]))"
    unfolding e'(3) using run_spec_logged [of "engine_view e" "engine_view e" "unat cap" "[cmd]"] by simp
  then show ?thesis using e' run_view_Cons [OF e(3), of "[cmd]"] by (simp add: shows_run_def)
qed

definition snapshot_shows :: "u32 \<Rightarrow> Snapshot \<Rightarrow> EngineCommand list \<Rightarrow> bool" where
  "snapshot_shows cap s cmds \<longleftrightarrow> s_wal_record_count s \<le> length cmds \<and>
     (\<exists>e. snapshot_restore s cap = Some (Inr e) \<and> shows_run cap e (take (s_wal_record_count s) cmds))"

definition snapshots_ok ::
  "(u8 list \<Rightarrow> u32) \<Rightarrow> (snap_fields \<Rightarrow> u8 list) \<Rightarrow> (u8 list \<Rightarrow> Snapshot option) \<Rightarrow> u32 \<Rightarrow> dir \<Rightarrow>
   EngineCommand list \<Rightarrow> bool" where
  "snapshots_ok crc ser_fields de cap d cmds \<longleftrightarrow>
     (\<forall>p\<in>fst ` set d. is_snapshot_file p \<longrightarrow> (\<exists>n\<le>length cmds. p = snapshot_name n)) \<and>
     (\<exists>latest. load_latest crc ser_fields de (Inr (Some d)) = Inr latest \<and>
        (\<forall>s. latest = Some s \<longrightarrow> snapshot_shows cap s cmds))"

definition durable ::
  "(u8 list \<Rightarrow> u32) \<Rightarrow> (snap_fields \<Rightarrow> u8 list) \<Rightarrow> (u8 list \<Rightarrow> Snapshot option) \<Rightarrow> u32 \<Rightarrow> Matcher \<Rightarrow>
   EngineCommand list \<Rightarrow> bool" where
  "durable crc ser_fields de cap m cmds \<longleftrightarrow>
     matcher_ok crc m \<and> shows_run cap (m_engine m) cmds \<and> (\<forall>cmd\<in>set cmds. cmd_ok cmd) \<and>
     (\<exists>w d. m_wal m = Some w \<and> wal_ok crc w (map cmd_bytes cmds) \<and> m_snapshot_dir m = Some d \<and>
        snapshots_ok crc ser_fields de cap d cmds)"

lemma snapshot_shows_mono: "snapshot_shows cap s cmds \<Longrightarrow> snapshot_shows cap s (cmds @ cs)"
  by (auto simp: snapshot_shows_def)

lemma snapshots_ok_mono:
  "snapshots_ok crc ser_fields de cap d cmds \<Longrightarrow> snapshots_ok crc ser_fields de cap d (cmds @ cs)"
  unfolding snapshots_ok_def length_append
  by (intro conjI; blast intro: snapshot_shows_mono trans_le_add1)

section \<open>Every step keeps it\<close>

lemma durable_process:
  assumes "durable crc ser_fields de cap m cmds" "cmd_ok cmd" "\<And>n. os n"
  shows "\<exists>m'. process_command crc os cmd m = Some m' \<and> durable crc ser_fields de cap m' (cmds @ [cmd])"
proof -
  obtain w d where w: "m_wal m = Some w" "wal_ok crc w (map cmd_bytes cmds)" "m_snapshot_dir m = Some d"
    "snapshots_ok crc ser_fields de cap d cmds"
    using assms(1) by (auto simp: durable_def)
  have m: "matcher_ok crc m" "shows_run cap (m_engine m) cmds" "\<forall>cmd\<in>set cmds. cmd_ok cmd"
    using assms(1) by (simp_all add: durable_def)
  obtain w' where w': "wal_append crc os w cmd = Some (w', Inr (length cmds + 1))"
    "wal_ok crc w' (map cmd_bytes (cmds @ [cmd]))"
    using append_ok [OF w(2), of os cmd] assms(3) by (auto simp: room_def)
  obtain m' where m': "process_command crc os cmd m = Some m'" "matcher_ok crc m'"
    "replay_command (m_engine m) cmd = Some (m_engine m')" "m_snapshot_dir m' = m_snapshot_dir m"
    "m_wal m' = (case m_wal m of None \<Rightarrow> None | Some w \<Rightarrow> map_option fst (wal_append crc os w cmd))"
    using process_command_ok [OF m(1), of os cmd] by blast
  have "shows_run cap (m_engine m') (cmds @ [cmd])" using shows_run_replay [OF m(2) m'(3)] .
  then show ?thesis
    using m' w w' m(3) assms(2) snapshots_ok_mono [OF w(4), of "[cmd]"] by (auto simp: durable_def)
qed

text \<open>A snapshot taken now shows everything that ran.\<close>

lemma snapshot_shows_now:
  assumes "shows_run cap e cmds" "capture crc ser_fields e (length cmds) = Some s"
  shows "snapshot_shows cap s cmds"
proof -
  have e: "engine_ok e" "engine_capacity e = unat cap" and bk: "book_ok (e_book e)"
    using assms(1) by (auto simp: shows_run_def engine_ok_def)
  have s: "all_resting_orders (e_book e) = Some (s_orders s)" "s_wal_record_count s = length cmds"
    using capture_total [OF bk, of crc ser_fields "length cmds"] assms(2) by auto
  have "s_orders s = side_orders (e_book e) Ask @ side_orders (e_book e) Bid"
    using s(1) all_resting_orders_eq [OF bk] by simp
  then have "length (s_orders s) \<le> unat cap" using ob.queue_bound [OF bk] e(2) by simp
  then obtain e0 where "restore_from_orders (s_orders s) cap = Some (Inr e0)" "engine_ok e0"
    "engine_view e0 = engine_view e" "engine_capacity e0 = unat cap"
    using restore_roundtrip [OF e(1) s(1)] by blast
  then show ?thesis
    using assms(1) s(2) by (auto simp: snapshot_shows_def snapshot_restore_def shows_run_def)
qed

lemma snapshots_ok_save:
  assumes "snapshots_ok crc ser_fields de cap d cmds" "snapshot_shows cap s cmds"
    and "verify_checksum crc ser_fields s = Inr ()" "s_wal_record_count s = length cmds"
    and "\<And>x. de (ser x) = Some x" "length cmds < 10 ^ 10"
  shows "snapshots_ok crc ser_fields de cap (fst (save ser fault s d)) cmds"
proof (cases "snd (save ser fault s d)")
  case (Inl e)
  have "p \<in> fst ` set d" if "p \<in> fst ` set (fst (save ser fault s d))" "is_snapshot_file p" for p
    using that Inl
    by (auto simp: save_def save_write_def fs_write_def split: save_fault.splits option.splits)
  then show ?thesis
    using assms(1) load_after_failed_save [OF Inl] unfolding snapshots_ok_def by metis
next
  case (Inr path)
  then have f: "fault = NoFault" by (auto simp: save_def split: save_fault.splits option.splits)
  have names: "\<forall>p\<in>fst ` set d. is_snapshot_file p \<longrightarrow> (\<exists>n\<le> s_wal_record_count s. p = snapshot_name n)"
    using assms(1,4) by (simp add: snapshots_ok_def)
  have "load_latest crc ser_fields de (Inr (Some (fst (save ser NoFault s d)))) = Inr (Some s)"
    using load_saved [where de = de and ser = ser, OF assms(5,3) _ names] assms(4,6) by simp
  moreover have "\<forall>p\<in>fst ` set (fst (save ser NoFault s d)).
      is_snapshot_file p \<longrightarrow> (\<exists>n\<le>length cmds. p = snapshot_name n)"
    using names assms(4) names_save [of _ ser s d] by (metis order_refl)
  ultimately show ?thesis using assms(2) f by (simp add: snapshots_ok_def)
qed

lemma durable_after:
  assumes "durable crc ser_fields de cap m cmds" "\<And>x. de (ser x) = Some x" "length cmds < 10 ^ 10"
  shows "\<exists>m'. after_command crc ser_fields ser fault m = Some m' \<and> durable crc ser_fields de cap m' cmds"
proof -
  obtain w d where w: "m_wal m = Some w" "wal_ok crc w (map cmd_bytes cmds)" "m_snapshot_dir m = Some d"
    "snapshots_ok crc ser_fields de cap d cmds"
    using assms(1) by (auto simp: durable_def)
  have run: "shows_run cap (m_engine m) cmds" and n: "w_record_count w = length cmds"
    using assms(1) w by (auto simp: durable_def wal_ok_def)
  have bk: "book_ok (e_book (m_engine m))" using run by (simp add: shows_run_def engine_ok_def)
  obtain s where s: "capture crc ser_fields (m_engine m) (length cmds) = Some s"
    "verify_checksum crc ser_fields s = Inr ()" "s_wal_record_count s = length cmds"
    using capture_total [OF bk] by blast
  have "snapshots_ok crc ser_fields de cap (fst (save ser fault s d)) cmds"
    using snapshots_ok_save [OF w(4) snapshot_shows_now [OF run s(1)] s(2,3)] assms(2,3) by blast
  then show ?thesis
    using assms(1) w n s(1) by (auto simp: after_command_def durable_def matcher_ok_def Let_def)
qed

lemma durable_restart:
  assumes "durable crc ser_fields de cap m cmds" "m_wal m = Some w" "m_snapshot_dir m = Some d"
    and "\<And>n. os n" "g_data_dir config = Some dd" "g_arena_capacity config = cap"
  shows "\<exists>x. start_engine crc ser_fields de os True (Inr (Some d)) (w_mmap w) config = Some x \<and>
    snd (snd x) = Some d \<and> durable crc ser_fields de cap (matching_start x interval) cmds"
proof -
  have w: "wal_ok crc w (map cmd_bytes cmds)" "snapshots_ok crc ser_fields de cap d cmds"
    "\<forall>cmd\<in>set cmds. cmd_ok cmd"
    using assms(1-3) by (auto simp: durable_def)
  obtain latest where l: "load_latest crc ser_fields de (Inr (Some d)) = Inr latest"
    "\<And>s. latest = Some s \<Longrightarrow> snapshot_shows cap s cmds"
    using w(2) by (auto simp: snapshots_ok_def)
  have "\<exists>e0 k. (case latest of None \<Rightarrow> e0 = MatchingEngine_with_capacity cap \<and> k = 0
      | Some s \<Rightarrow> snapshot_restore s cap = Some (Inr e0) \<and> k = s_wal_record_count s) \<and>
      shows_run cap e0 (take k cmds)"
    using l(2) shows_run_empty by (cases latest) (auto simp: snapshot_shows_def)
  then obtain e0 k where e0: "case latest of None \<Rightarrow> e0 = MatchingEngine_with_capacity cap \<and> k = 0
      | Some s \<Rightarrow> snapshot_restore s cap = Some (Inr e0) \<and> k = s_wal_record_count s"
    "shows_run cap e0 (take k cmds)" by blast
  then have ok: "engine_ok e0" "engine_capacity e0 = unat cap"
    "strip_view (engine_view e0) = run_view cap (take k cmds)" by (simp_all add: shows_run_def)
  obtain e w' where r: "recover_with_wal_size crc ser_fields de os True (Inr (Some d)) (w_mmap w) cap None =
      Some (Inr (e, w'))" "engine_ok e" "wal_ok crc w' (map cmd_bytes cmds)"
    "engine_view e = run_spec (engine_capacity e0) (engine_view e0) (map logged (drop k cmds))"
    "engine_capacity e = engine_capacity e0"
    using recover_from [where os = os, OF l(1) e0(1) ok(1) w(1,3) assms(4)] by blast
  have "shows_run cap e cmds"
    using r(2,4,5) ok(2) run_view_Cons [OF ok(3), of "drop k cmds"] by (simp add: shows_run_def)
  then show ?thesis
    using r(1-3) w assms(5,6)
    by (auto simp: start_engine_def recover_def matching_start_def durable_def matcher_ok_def)
qed

section \<open>The life of the matching thread\<close>

text \<open>
  \<open>serving \<dots> m cmds\<close>: the matching thread is in state \<open>m\<close> after all its lives together applied \<open>cmds\<close>. It
  starts without files; a turn of the loop ends in any way its \<open>save\<close> can; the drain loop applies
  without snapshots; at any point the process may be stopped and started again from its files.
\<close>

inductive serving ::
  "(u8 list \<Rightarrow> u32) \<Rightarrow> (snap_fields \<Rightarrow> u8 list) \<Rightarrow> (Snapshot \<Rightarrow> u8 list) \<Rightarrow> (u8 list \<Rightarrow> Snapshot option) \<Rightarrow>
   (nat \<Rightarrow> bool) \<Rightarrow> GatewayConfig \<Rightarrow> Matcher \<Rightarrow> EngineCommand list \<Rightarrow> bool"
  for crc ser_fields ser de os config where
  fresh: "start_engine crc ser_fields de os True (Inr None) [] config = Some x \<Longrightarrow>
    serving crc ser_fields ser de os config (matching_start x (g_snapshot_interval config)) []"
| turn: "serving crc ser_fields ser de os config m cmds \<Longrightarrow> cmd_ok cmd \<Longrightarrow>
    loop_turn crc ser_fields ser os fault cmd m = Some m' \<Longrightarrow>
    serving crc ser_fields ser de os config m' (cmds @ [cmd])"
| drain: "serving crc ser_fields ser de os config m cmds \<Longrightarrow> cmd_ok cmd \<Longrightarrow>
    process_command crc os cmd m = Some m' \<Longrightarrow>
    serving crc ser_fields ser de os config m' (cmds @ [cmd])"
| restart: "serving crc ser_fields ser de os config m cmds \<Longrightarrow> m_wal m = Some w \<Longrightarrow>
    m_snapshot_dir m = Some d \<Longrightarrow>
    start_engine crc ser_fields de os True (Inr (Some d)) (w_mmap w) config = Some x \<Longrightarrow>
    serving crc ser_fields ser de os config (matching_start x (g_snapshot_interval config)) cmds"

lemma snapshots_ok_empty: "snapshots_ok crc ser_fields de cap [] cmds"
  by (simp add: snapshots_ok_def load_latest_def)

lemma durable_fresh:
  assumes "\<And>n. os n" "g_data_dir config = Some dd"
  shows "\<exists>x. start_engine crc ser_fields de os True (Inr None) [] config = Some x \<and>
    durable crc ser_fields de (g_arena_capacity config) (matching_start x interval) []"
proof -
  let ?cap = "g_arena_capacity config"
  define w where "w = \<lparr>w_mmap = [], w_write_pos = 0, w_mapped_size = 0,
    w_encode_buf = replicate NEW_ORDER_SIZE 0, w_record_count = 0\<rparr>"
  have w: "wal_ok crc w (map cmd_bytes [])" "w_mmap w = []" by (simp_all add: wal_ok_def w_def)
  have l: "load_latest crc ser_fields de (Inr None) = Inr None" by (simp add: load_latest_def)
  have e: "case (None :: Snapshot option) of
      None \<Rightarrow> MatchingEngine_with_capacity ?cap = MatchingEngine_with_capacity ?cap \<and> (0 :: nat) = 0
    | Some s \<Rightarrow> snapshot_restore s ?cap = Some (Inr (MatchingEngine_with_capacity ?cap)) \<and>
        0 = s_wal_record_count s" by simp
  obtain e' w' where "recover crc ser_fields de os True (Inr None) [] ?cap = Some (Inr (e', w'))" "engine_ok e'"
    "wal_ok crc w' []" "engine_view e' = empty_view" "engine_capacity e' = unat ?cap"
    using recover_from [where os = os, OF l e engine_with_capacity(1) w(1) _ assms(1), of None]
      engine_with_capacity(2,3) w(2) by (auto simp: recover_def run_spec_def)
  then show ?thesis
    using assms(2) snapshots_ok_empty
    by (auto simp: start_engine_def matching_start_def durable_def matcher_ok_def shows_run_def
        run_view_def run_spec_def)
qed

lemma serving_durable:
  assumes "serving crc ser_fields ser de os config m cmds"
    and "\<And>n. os n" "\<And>x. de (ser x) = Some x" "g_data_dir config = Some dd" "length cmds < 10 ^ 10"
  shows "durable crc ser_fields de (g_arena_capacity config) m cmds"
  using assms(1,5)
proof (induction rule: serving.induct)
  case (fresh x)
  then show ?case
    using durable_fresh [where os = os, OF assms(2,4), of crc ser_fields de "g_snapshot_interval config"]
    by auto
next
  case (turn m cmds cmd fault m')
  then have "durable crc ser_fields de (g_arena_capacity config) m cmds" by simp
  then obtain m1 where "process_command crc os cmd m = Some m1"
    "durable crc ser_fields de (g_arena_capacity config) m1 (cmds @ [cmd])"
    using durable_process [where os = os, OF _ turn.hyps(2) assms(2)] by blast
  then show ?case
    using durable_after [where de = de and ser = ser, OF _ assms(3) turn.prems, of crc ser_fields _ m1 fault]
      turn.hyps(3) by (auto simp: loop_turn_def)
next
  case (drain m cmds cmd m')
  then show ?case using durable_process [where os = os, OF _ drain.hyps(2) assms(2)] by fastforce
next
  case (restart m cmds w d x)
  then show ?case
    using durable_restart [where os = os, OF _ restart.hyps(2,3) assms(2,4) refl] by fastforce
qed

text \<open>
  C2: No applied command is ever lost. Whatever the sequence of commands, snapshots (failing anywhere)
  and restarts, as long as the system grants space for the log, fewer than \<open>10 ^ 10\<close> commands were
  logged and deserialization inverts serialization: the engine shows the run of all the commands
  ever applied, and a restart from the files at this point succeeds with an engine that has the same
  priority queues, up to timestamps.
\<close>

theorem no_applied_command_lost:
  assumes "serving crc ser_fields ser de os config m cmds"
    and "\<And>n. os n" "\<And>x. de (ser x) = Some x" "g_data_dir config = Some dd" "length cmds < 10 ^ 10"
  shows "\<exists>w d e w'. m_wal m = Some w \<and> w_record_count w = length cmds \<and> m_snapshot_dir m = Some d \<and>
    strip_view (engine_view (m_engine m)) = run_view (g_arena_capacity config) cmds \<and>
    start_engine crc ser_fields de os True (Inr (Some d)) (w_mmap w) config = Some (e, Some w', Some d) \<and>
    strip_view (engine_view e) = strip_view (engine_view (m_engine m)) \<and>
    w_record_count w' = length cmds"
proof -
  have dur: "durable crc ser_fields de (g_arena_capacity config) m cmds"
    using serving_durable [where os = os and de = de and ser = ser, OF assms] .
  then obtain w d where w: "m_wal m = Some w" "m_snapshot_dir m = Some d" "w_record_count w = length cmds"
    by (auto simp: durable_def wal_ok_def)
  obtain x where x: "start_engine crc ser_fields de os True (Inr (Some d)) (w_mmap w) config = Some x"
    "durable crc ser_fields de (g_arena_capacity config) (matching_start x 0) cmds" "snd (snd x) = Some d"
    using durable_restart [where os = os, OF dur w(1,2) assms(2,4) refl] by blast
  obtain e wo dx where x3: "x = (e, wo, dx)" by (cases x)
  have "dx = Some d" "\<exists>w'. wo = Some w' \<and> w_record_count w' = length cmds"
    using x(2,3) unfolding x3 by (auto simp: durable_def matching_start_def wal_ok_def)
  then show ?thesis
    using x w dur unfolding x3 by (auto simp: durable_def shows_run_def matching_start_def)
qed

definition ex_config :: GatewayConfig where
  "ex_config = GatewayConfig_default\<lparr>g_data_dir := Some ''data'', g_arena_capacity := 2,
     g_snapshot_interval := 1\<rparr>"

theorem no_applied_command_lost_witness:
  "\<exists>m w d e w'. serving ex_sum ex_ser_fields ex_ser ex_de (\<lambda>_. True) ex_config m [ex_cmd] \<and>
     m_wal m = Some w \<and> m_snapshot_dir m = Some d \<and>
     start_engine ex_sum ex_ser_fields ex_de (\<lambda>_. True) True (Inr (Some d)) (w_mmap w) ex_config =
       Some (e, Some w', Some d) \<and>
     strip_view (engine_view e) = strip_view (engine_view (m_engine m))"
proof -
  have c: "g_data_dir ex_config = Some ''data''" by (simp add: ex_config_def)
  obtain x where x: "start_engine ex_sum ex_ser_fields ex_de (\<lambda>_. True) True (Inr None) [] ex_config = Some x"
    "durable ex_sum ex_ser_fields ex_de (g_arena_capacity ex_config)
       (matching_start x (g_snapshot_interval ex_config)) []"
    using durable_fresh [where os = "\<lambda>_. True", OF _ c] by blast
  have ok: "cmd_ok ex_cmd" by (simp add: ex_cmd_def cmd_ok_def)
  obtain m1 where m1: "process_command ex_sum (\<lambda>_. True) ex_cmd
      (matching_start x (g_snapshot_interval ex_config)) = Some m1"
    "durable ex_sum ex_ser_fields ex_de (g_arena_capacity ex_config) m1 ([] @ [ex_cmd])"
    using durable_process [where os = "\<lambda>_. True", OF x(2) ok] by blast
  obtain m where "after_command ex_sum ex_ser_fields ex_ser NoFault m1 = Some m"
    using durable_after [where de = ex_de and ser = ex_ser, OF m1(2) ex_de_ser] by auto
  then have "loop_turn ex_sum ex_ser_fields ex_ser (\<lambda>_. True) NoFault ex_cmd
      (matching_start x (g_snapshot_interval ex_config)) = Some m"
    using m1(1) by (simp add: loop_turn_def)
  then have s: "serving ex_sum ex_ser_fields ex_ser ex_de (\<lambda>_. True) ex_config m ([] @ [ex_cmd])"
    using serving.turn [OF serving.fresh [OF x(1)] ok] by blast
  from no_applied_command_lost [where os = "\<lambda>_. True" and de = ex_de and ser = ex_ser, OF s _ ex_de_ser c]
  show ?thesis using s by auto
qed

end
