(* ===== verification/Pipeline.thy ===== *)
theory Pipeline
  imports Gateway
begin

text \<open>
  The two threads of \<open>run\<close> in \<open>src/gateway.rs\<close> over the ring, interleaved in any order. The steps of a
  push and of a pop are those of \<open>RingBuffer\<close>; applying a command to the matching thread's own state is
  one step. The client thread reads, pushes until the ring takes the command, and in the end sets
  \<open>shutdown\<close>; the matching thread polls, and once it finds the ring empty and \<open>shutdown\<close> set, drains the
  ring and stops.

  Shown: commands are applied in the order they were read; none is lost at shutdown; neither thread
  can get stuck, and from every state the run can be completed.
\<close>

section \<open>The threads\<close>

datatype client_pc =
    CL_Read
  | CL_Push EngineCommand
  | CL_Return "GatewayError + unit"

text \<open>The flag tells the drain loop from the main loop of \<open>matching_loop\<close>.\<close>

datatype worker_pc =
    W_Poll bool
  | W_Got bool EngineCommand
  | W_Apply bool EngineCommand
  | W_Check
  | W_Stopped

record Pipe =
  q_sys :: "EngineCommand Sys"
  q_client :: client_pc
  q_stream :: Stream
  q_turn :: nat
  q_shutdown :: bool
  q_worker :: worker_pc
  q_matcher :: Matcher
  q_read :: "EngineCommand list"
  q_done :: "EngineCommand list"

definition after_read :: "turn \<Rightarrow> client_pc" where
  "after_read t = (case t of Closed \<Rightarrow> CL_Return (Inr ()) | Failed e \<Rightarrow> CL_Return (Inl e) | Push cmd \<Rightarrow> CL_Push cmd)"

definition read_cmds :: "turn \<Rightarrow> EngineCommand list" where
  "read_cmds t = (case t of Push cmd \<Rightarrow> [cmd] | _ \<Rightarrow> [])"

inductive client_step :: "(nat \<Rightarrow> u64) \<Rightarrow> Pipe \<Rightarrow> Pipe \<Rightarrow> bool" for now where
  c_read: "q_client q = CL_Read \<Longrightarrow> handle_turn (now (q_turn q)) (q_stream q) = (s, t) \<Longrightarrow>
    client_step now q (q\<lparr>q_stream := s, q_turn := q_turn q + 1, q_client := after_read t,
      q_read := q_read q @ read_cmds t\<rparr>)"
| c_test: "q_client q = CL_Push cmd \<Longrightarrow> y_ppc (q_sys q) = P_Idle \<Longrightarrow>
    push_test (y_ring (q_sys q)) (y_prod (q_sys q)) = (p, full) \<Longrightarrow>
    client_step now q (q\<lparr>q_sys := (q_sys q)\<lparr>y_prod := p, y_ppc := if full then P_Idle else P_Write cmd\<rparr>\<rparr>)"
| c_write: "q_client q = CL_Push cmd \<Longrightarrow> y_ppc (q_sys q) = P_Write v \<Longrightarrow>
    slot_write (y_ring (q_sys q)) (p_cached_head (y_prod (q_sys q))) v = Some r \<Longrightarrow>
    client_step now q (q\<lparr>q_sys := (q_sys q)\<lparr>y_ring := r, y_ppc := P_Publish, y_sent := y_sent (q_sys q) @ [v]\<rparr>\<rparr>)"
| c_publish: "q_client q = CL_Push cmd \<Longrightarrow> y_ppc (q_sys q) = P_Publish \<Longrightarrow>
    push_publish (y_ring (q_sys q)) (y_prod (q_sys q)) = (r, p) \<Longrightarrow>
    client_step now q (q\<lparr>q_sys := (q_sys q)\<lparr>y_ring := r, y_prod := p, y_ppc := P_Idle\<rparr>, q_client := CL_Read\<rparr>)"
| c_finish: "q_client q = CL_Return r \<Longrightarrow> client_step now q (q\<lparr>q_shutdown := True\<rparr>)"

inductive worker_step ::
  "(u8 list \<Rightarrow> u32) \<Rightarrow> (snap_fields \<Rightarrow> u8 list) \<Rightarrow> (Snapshot \<Rightarrow> u8 list) \<Rightarrow> (nat \<Rightarrow> bool) \<Rightarrow> Pipe \<Rightarrow> Pipe \<Rightarrow> bool"
  for crc ser_fields ser os where
  w_test: "q_worker q = W_Poll drain \<Longrightarrow> y_cpc (q_sys q) = C_Idle \<Longrightarrow>
    pop_test (y_ring (q_sys q)) (y_cons (q_sys q)) = (c, is_empty) \<Longrightarrow>
    worker_step crc ser_fields ser os q
      (q\<lparr>q_sys := (q_sys q)\<lparr>y_cons := c, y_cpc := if is_empty then C_Idle else C_Read\<rparr>,
         q_worker := if is_empty then (if drain then W_Stopped else W_Check) else W_Poll drain\<rparr>)"
| w_take: "q_worker q = W_Poll drain \<Longrightarrow> y_cpc (q_sys q) = C_Read \<Longrightarrow>
    slot_read (y_ring (q_sys q)) (c_cached_tail (y_cons (q_sys q))) = Some (r, v) \<Longrightarrow>
    worker_step crc ser_fields ser os q
      (q\<lparr>q_sys := (q_sys q)\<lparr>y_ring := r, y_cpc := C_Publish, y_recv := y_recv (q_sys q) @ [v]\<rparr>,
         q_worker := W_Got drain v\<rparr>)"
| w_publish: "q_worker q = W_Got drain v \<Longrightarrow> y_cpc (q_sys q) = C_Publish \<Longrightarrow>
    pop_publish (y_ring (q_sys q)) (y_cons (q_sys q)) = (r, c) \<Longrightarrow>
    worker_step crc ser_fields ser os q
      (q\<lparr>q_sys := (q_sys q)\<lparr>y_ring := r, y_cons := c, y_cpc := C_Idle\<rparr>, q_worker := W_Apply drain v\<rparr>)"
| w_apply: "q_worker q = W_Apply drain v \<Longrightarrow>
    (if drain then process_command crc os v (q_matcher q)
     else loop_turn crc ser_fields ser os fault v (q_matcher q)) = Some m \<Longrightarrow>
    worker_step crc ser_fields ser os q
      (q\<lparr>q_matcher := m, q_done := q_done q @ [v], q_worker := W_Poll drain\<rparr>)"
| w_check: "q_worker q = W_Check \<Longrightarrow>
    worker_step crc ser_fields ser os q (q\<lparr>q_worker := W_Poll (q_shutdown q)\<rparr>)"

definition pipe_start :: "EngineCommand Ring \<Rightarrow> Stream \<Rightarrow> Matcher \<Rightarrow> Pipe" where
  "pipe_start x s m = \<lparr>q_sys = start x, q_client = CL_Read, q_stream = s, q_turn = 0, q_shutdown = False,
     q_worker = W_Poll False, q_matcher = m, q_read = [], q_done = []\<rparr>"

text \<open>\<open>run\<close> from its start-up on: the ring of the configuration, the connection \<open>s\<close> and the matching state \<open>m\<close>.\<close>

inductive running ::
  "(u8 list \<Rightarrow> u32) \<Rightarrow> (snap_fields \<Rightarrow> u8 list) \<Rightarrow> (Snapshot \<Rightarrow> u8 list) \<Rightarrow> (nat \<Rightarrow> bool) \<Rightarrow> (nat \<Rightarrow> u64) \<Rightarrow>
   GatewayConfig \<Rightarrow> Stream \<Rightarrow> Matcher \<Rightarrow> Pipe \<Rightarrow> bool"
  for crc ser_fields ser os now config s m where
  init: "ring_buffer (g_ring_capacity config) = Some x \<Longrightarrow>
    running crc ser_fields ser os now config s m (pipe_start x s m)"
| client: "running crc ser_fields ser os now config s m q \<Longrightarrow> client_step now q q' \<Longrightarrow>
    running crc ser_fields ser os now config s m q'"
| worker: "running crc ser_fields ser os now config s m q \<Longrightarrow> worker_step crc ser_fields ser os q q' \<Longrightarrow>
    running crc ser_fields ser os now config s m q'"

section \<open>The ring below\<close>

lemma client_sys: "client_step now q q' \<Longrightarrow> q_sys q' = q_sys q \<or> step (q_sys q) (q_sys q')"
  by (cases rule: client_step.cases) (auto intro: step.push_test step.push_write step.push_publish)

lemma worker_sys: "worker_step crc ser_fields ser os q q' \<Longrightarrow> q_sys q' = q_sys q \<or> step (q_sys q) (q_sys q')"
  by (cases rule: worker_step.cases) (auto intro: step.pop_test step.pop_read step.pop_publish)

lemma running_ring:
  "running crc ser_fields ser os now config s m q \<Longrightarrow> reachable (g_ring_capacity config) (q_sys q)"
proof (induction rule: running.induct)
  case (init x)
  then show ?case by (simp add: pipe_start_def reachable.init)
next
  case (client q q')
  then show ?case using client_sys [OF client.hyps(2)] reachable.step by metis
next
  case (worker q q')
  then show ?case using worker_sys [OF worker.hyps(2)] reachable.step by metis
qed

section \<open>Invariants\<close>

text \<open>A command read but not yet in the ring, and one taken out of the ring but not yet applied.\<close>

definition pending :: "Pipe \<Rightarrow> EngineCommand list" where
  "pending q = (case q_client q of
     CL_Push cmd \<Rightarrow> if y_ppc (q_sys q) = P_Publish then [] else [cmd] | _ \<Rightarrow> [])"

definition taken :: "Pipe \<Rightarrow> EngineCommand list" where
  "taken q = (case q_worker q of W_Got _ v \<Rightarrow> [v] | W_Apply _ v \<Rightarrow> [v] | _ \<Rightarrow> [])"

definition draining :: "Pipe \<Rightarrow> bool" where
  "draining q = (case q_worker q of
     W_Poll d \<Rightarrow> d | W_Got d _ \<Rightarrow> d | W_Apply d _ \<Rightarrow> d | W_Check \<Rightarrow> False | W_Stopped \<Rightarrow> True)"

definition client_inv :: "(nat \<Rightarrow> u64) \<Rightarrow> Stream \<Rightarrow> Pipe \<Rightarrow> bool" where
  "client_inv now s q \<longleftrightarrow>
     q_read q = y_sent (q_sys q) @ pending q \<and>
     (case q_client q of
        CL_Push cmd \<Rightarrow> y_ppc (q_sys q) \<in> {P_Idle, P_Write cmd, P_Publish}
      | _ \<Rightarrow> y_ppc (q_sys q) = P_Idle) \<and>
     client_commands now 0 s =
       (case q_client q of
          CL_Return r \<Rightarrow> (q_read q, r)
        | _ \<Rightarrow> (case client_commands now (q_turn q) (q_stream q) of (cs, r) \<Rightarrow> (q_read q @ cs, r)))"

definition worker_inv :: "Pipe \<Rightarrow> bool" where
  "worker_inv q \<longleftrightarrow>
     y_recv (q_sys q) = q_done q @ taken q \<and>
     (case q_worker q of
        W_Poll _ \<Rightarrow> y_cpc (q_sys q) \<noteq> C_Publish
      | W_Got _ _ \<Rightarrow> y_cpc (q_sys q) = C_Publish
      | _ \<Rightarrow> y_cpc (q_sys q) = C_Idle)"

definition shutdown_inv :: "Pipe \<Rightarrow> bool" where
  "shutdown_inv q \<longleftrightarrow>
     (q_shutdown q \<longrightarrow> (\<exists>r. q_client q = CL_Return r)) \<and> (draining q \<longrightarrow> q_shutdown q) \<and>
     (q_worker q = W_Stopped \<longrightarrow> y_recv (q_sys q) = y_sent (q_sys q))"

definition matcher_inv :: "(u8 list \<Rightarrow> u32) \<Rightarrow> Matcher \<Rightarrow> Pipe \<Rightarrow> bool" where
  "matcher_inv crc m q \<longleftrightarrow>
     matcher_ok crc (q_matcher q) \<and> run_cmds (m_engine m) (q_done q) = Some (m_engine (q_matcher q))"

definition pipe_inv :: "(u8 list \<Rightarrow> u32) \<Rightarrow> (nat \<Rightarrow> u64) \<Rightarrow> Stream \<Rightarrow> Matcher \<Rightarrow> Pipe \<Rightarrow> bool" where
  "pipe_inv crc now s m q \<longleftrightarrow> client_inv now s q \<and> worker_inv q \<and> shutdown_inv q \<and> matcher_inv crc m q"

lemmas pipe_invs = pipe_inv_def client_inv_def worker_inv_def shutdown_inv_def matcher_inv_def

lemma run_cmds_snoc: "run_cmds e (cs @ [c]) = do { e \<leftarrow> run_cmds e cs; replay_command e c }"
  by (induction cs arbitrary: e) (auto split: bind_splits)

lemma pipe_inv_start: "matcher_ok crc m \<Longrightarrow> pipe_inv crc now s m (pipe_start x s m)"
  by (cases x) (auto simp: pipe_invs pipe_start_def start_def pending_def taken_def draining_def
      split: prod.splits)

text \<open>The client's steps.\<close>

lemma client_inv_step:
  assumes "client_inv now s q" "client_step now q q'"
  shows "client_inv now s q'"
  using assms(2,1)
proof (cases rule: client_step.cases)
  case (c_read s' t)
  then show ?thesis
    using assms(1)
    by (cases t) (auto simp: client_inv_def pending_def after_read_def read_cmds_def
        client_commands.simps [of now "q_turn q" "q_stream q"] split: prod.splits)
qed (auto simp: client_inv_def pending_def push_test_def push_publish_def Let_def split: if_splits prod.splits)

lemma client_keeps:
  assumes "client_step now q q'"
  shows "worker_inv q \<Longrightarrow> worker_inv q'" "matcher_inv crc m q \<Longrightarrow> matcher_inv crc m q'"
    "shutdown_inv q \<Longrightarrow> shutdown_inv q'"
  using assms
  by (cases rule: client_step.cases;
      auto simp: worker_inv_def matcher_inv_def shutdown_inv_def taken_def draining_def split: worker_pc.splits)+

text \<open>The worker's steps.\<close>

lemma worker_keeps:
  assumes "worker_step crc ser_fields ser os q q'"
  shows "client_inv now s q \<Longrightarrow> client_inv now s q'" "worker_inv q \<Longrightarrow> worker_inv q'"
  using assms
  by (cases rule: worker_step.cases;
      auto simp: client_inv_def worker_inv_def pending_def taken_def split: client_pc.splits)+

lemma matcher_inv_step:
  assumes "worker_step crc ser_fields ser os q q'" "matcher_inv crc m q"
  shows "matcher_inv crc m q'"
  using assms
proof (cases rule: worker_step.cases)
  case (w_apply drain v fault m')
  have ok: "matcher_ok crc (q_matcher q)" using assms(2) by (simp add: matcher_inv_def)
  have "matcher_ok crc m' \<and> replay_command (m_engine (q_matcher q)) v = Some (m_engine m')"
    using w_apply(3) process_command_ok [OF ok, of os v] loop_turn_ok [OF ok, of ser_fields ser os fault v]
    by (cases drain) auto
  then show ?thesis using assms(2) w_apply(1) by (simp add: matcher_inv_def run_cmds_snoc)
qed (auto simp: matcher_inv_def)

lemma drained_all:
  assumes "inv k y" "y_cpc y = C_Idle" "y_ppc y = P_Idle" "snd (pop_test (y_ring y) (y_cons y))"
  shows "y_recv y = y_sent y"
proof -
  have "length (y_recv y) = length (y_sent y)"
    using pop_test_empty [OF assms(1,2)] assms(3,4) by (simp add: published_def)
  moreover have "y_recv y = take (length (y_recv y)) (y_sent y)" using assms(1) by (simp add: inv_def)
  ultimately show ?thesis by simp
qed

lemma shutdown_inv_step:
  assumes "worker_step crc ser_fields ser os q q'" "shutdown_inv q" "client_inv now s q" "inv k (q_sys q)"
  shows "shutdown_inv q'"
  using assms(1)
proof (cases rule: worker_step.cases)
  case (w_test drain c is_empty)
  have "y_recv (q_sys q) = y_sent (q_sys q)" if "is_empty" "drain"
  proof -
    have "y_ppc (q_sys q) = P_Idle"
      using assms(2,3) that(2) w_test(2) by (auto simp: shutdown_inv_def client_inv_def draining_def)
    then show ?thesis using drained_all [OF assms(4) w_test(3)] w_test(4) that(1) by simp
  qed
  then show ?thesis using assms(2) w_test by (auto simp: shutdown_inv_def draining_def)
qed (use assms(2) in \<open>auto simp: shutdown_inv_def draining_def\<close>)

lemma running_inv:
  assumes "running crc ser_fields ser os now config s m q" "matcher_ok crc m"
  shows "pipe_inv crc now s m q"
  using assms
proof (induction rule: running.induct)
  case (init x)
  then show ?case by (simp add: pipe_inv_start)
next
  case (client q q')
  then show ?case
    using client_keeps [OF client.hyps(2)] client_inv_step [OF _ client.hyps(2)] by (auto simp: pipe_inv_def)
next
  case (worker q q')
  obtain k where k: "inv k (q_sys q)" using inv_reachable [OF running_ring [OF worker.hyps(1)]] by blast
  have "pipe_inv crc now s m q" using worker by blast
  then show ?case
    using worker_keeps [OF worker.hyps(2)] matcher_inv_step [OF worker.hyps(2)]
      shutdown_inv_step [OF worker.hyps(2) _ _ k] unfolding pipe_inv_def by blast
qed

section \<open>Progress\<close>

text \<open>
  A push that waits for room: the only point at which a thread has to be let through by the other.
\<close>

definition waiting :: "Pipe \<Rightarrow> bool" where
  "waiting q \<longleftrightarrow> (\<exists>cmd. q_client q = CL_Push cmd) \<and> y_ppc (q_sys q) = P_Idle \<and>
     snd (push_test (y_ring (q_sys q)) (y_prod (q_sys q)))"

definition client_finished :: "Pipe \<Rightarrow> bool" where
  "client_finished q \<longleftrightarrow> (\<exists>r. q_client q = CL_Return r) \<and> q_shutdown q"

text \<open>What is left to do, for the client and for the worker.\<close>

definition client_work :: "Pipe \<Rightarrow> nat" where
  "client_work q =
     (case q_client q of
        CL_Read \<Rightarrow> 5 * length (t_bytes (q_stream q)) + 2
      | CL_Push _ \<Rightarrow> 5 * length (t_bytes (q_stream q)) +
          (case y_ppc (q_sys q) of P_Idle \<Rightarrow> 5 | P_Write _ \<Rightarrow> 4 | P_Publish \<Rightarrow> 3)
      | CL_Return _ \<Rightarrow> if q_shutdown q then 0 else 1)"

definition worker_work :: "Pipe \<Rightarrow> nat" where
  "worker_work q = 8 * (length (q_read q) - length (q_done q)) +
     (case q_worker q of
        W_Poll d \<Rightarrow> if y_cpc (q_sys q) = C_Read then 3 else if d then 4 else 6
      | W_Got _ _ \<Rightarrow> 2
      | W_Apply _ _ \<Rightarrow> 1
      | W_Check \<Rightarrow> if q_shutdown q then 5 else 7
      | W_Stopped \<Rightarrow> 0)"

lemma client_progress:
  assumes "inv k (q_sys q)" "client_inv now s q" "\<not> waiting q" "\<not> client_finished q"
  shows "\<exists>q'. client_step now q q' \<and> client_work q' < client_work q"
proof (cases "q_client q")
  case CL_Read
  obtain s' t where t: "handle_turn (now (q_turn q)) (q_stream q) = (s', t)" by fastforce
  have st: "client_step now q (q\<lparr>q_stream := s', q_turn := q_turn q + 1, q_client := after_read t,
      q_read := q_read q @ read_cmds t\<rparr>)"
    using CL_Read t by (rule client_step.c_read)
  have sh: "length (t_bytes s') < length (t_bytes (q_stream q))" if "t = Push cmd" for cmd
    using handle_turn_shorter [of "now (q_turn q)" "q_stream q" s' cmd] t that by simp
  show ?thesis
    by (intro exI conjI, rule st) (insert sh, cases t, auto simp: client_work_def after_read_def CL_Read split: ppc.split)
next
  case (CL_Push cmd)
  have "y_ppc (q_sys q) \<in> {P_Idle, P_Write cmd, P_Publish}"
    using assms(2) CL_Push by (simp add: client_inv_def)
  then consider "y_ppc (q_sys q) = P_Idle" | "y_ppc (q_sys q) = P_Write cmd" | "y_ppc (q_sys q) = P_Publish" by auto
  then show ?thesis
  proof cases
    case 1
    obtain p where "push_test (y_ring (q_sys q)) (y_prod (q_sys q)) = (p, False)"
      using assms(3) 1 CL_Push by (cases "push_test (y_ring (q_sys q)) (y_prod (q_sys q))") (auto simp: waiting_def)
    from client_step.c_test [OF CL_Push 1 this] show ?thesis
      by (intro exI conjI, assumption) (simp add: client_work_def CL_Push 1)
  next
    case 2
    from client_step.c_write [OF CL_Push 2 producer_slot(2) [OF assms(1) 2]] show ?thesis
      by (intro exI conjI, assumption) (simp add: client_work_def CL_Push 2)
  next
    case 3
    obtain r p where "push_publish (y_ring (q_sys q)) (y_prod (q_sys q)) = (r, p)" by fastforce
    from client_step.c_publish [OF CL_Push 3 this] show ?thesis
      by (intro exI conjI, assumption) (simp add: client_work_def CL_Push 3)
  qed
next
  case (CL_Return r)
  then have "\<not> q_shutdown q" using assms(4) by (simp add: client_finished_def)
  then show ?thesis
    using client_step.c_finish [OF CL_Return, of now] CL_Return
    by (intro exI [of _ "q\<lparr>q_shutdown := True\<rparr>"]) (simp add: client_work_def)
qed

lemma waiting_not_empty:
  assumes "inv k (q_sys q)" "waiting q" "y_cpc (q_sys q) = C_Idle"
  shows "\<not> snd (pop_test (y_ring (q_sys q)) (y_cons (q_sys q)))"
  using push_test_full [OF assms(1)] pop_test_empty [OF assms(1,3)] assms(2,3)
  by (simp add: waiting_def published_def released_def)

lemma undone:
  assumes "inv k (q_sys q)" "client_inv now s q" "worker_inv q" "q_worker q = W_Apply d v"
  shows "length (q_done q) < length (q_read q)"
proof -
  have "length (y_recv (q_sys q)) \<le> length (y_sent (q_sys q))"
    using assms(1) by (simp add: inv_def live_def)
  then show ?thesis using assms(2-4) by (simp add: client_inv_def worker_inv_def taken_def)
qed

lemma worker_client_work:
  assumes "worker_step crc ser_fields ser os q q'"
  shows "client_work q' = client_work q"
proof -
  have "q_client q' = q_client q \<and> q_stream q' = q_stream q \<and> q_shutdown q' = q_shutdown q \<and>
      y_ppc (q_sys q') = y_ppc (q_sys q)"
    using assms by (cases rule: worker_step.cases) simp_all
  then show ?thesis by (simp add: client_work_def cong: client_pc.case_cong)
qed

lemma worker_progress:
  assumes "inv k (q_sys q)" "pipe_inv crc now s m q" "waiting q \<or> client_finished q" "q_worker q \<noteq> W_Stopped"
  shows "\<exists>q'. worker_step crc ser_fields ser os q q' \<and> worker_work q' < worker_work q"
proof (cases "q_worker q")
  case (W_Poll d)
  then consider "y_cpc (q_sys q) = C_Idle" | "y_cpc (q_sys q) = C_Read"
    using assms(2) by (cases "y_cpc (q_sys q)") (auto simp: pipe_invs)
  then show ?thesis
  proof cases
    case 1
    obtain c e where t: "pop_test (y_ring (q_sys q)) (y_cons (q_sys q)) = (c, e)" by fastforce
    have sh: "q_shutdown q" if e
      using waiting_not_empty [OF assms(1) _ 1] assms(3) t that by (auto simp: client_finished_def)
    show ?thesis
      by (intro exI conjI, rule worker_step.w_test [OF W_Poll 1 t])
        (auto simp: worker_work_def W_Poll 1 sh)
  next
    case 2
    from worker_step.w_take [OF W_Poll 2 consumer_slot(2) [OF assms(1) 2]] show ?thesis
      by (intro exI conjI, assumption) (auto simp: worker_work_def W_Poll 2)
  qed
next
  case (W_Got d v)
  then have "y_cpc (q_sys q) = C_Publish" using assms(2) by (simp add: pipe_invs)
  moreover obtain r c where "pop_publish (y_ring (q_sys q)) (y_cons (q_sys q)) = (r, c)" by fastforce
  ultimately have "worker_step crc ser_fields ser os q (q\<lparr>q_sys := (q_sys q)\<lparr>y_ring := r, y_cons := c, y_cpc := C_Idle\<rparr>,
      q_worker := W_Apply d v\<rparr>)" using W_Got by (intro worker_step.w_publish) auto
  then show ?thesis
    by (intro exI conjI, assumption) (auto simp: worker_work_def W_Got)
next
  case (W_Apply d v)
  have ok: "matcher_ok crc (q_matcher q)" using assms(2) by (simp add: pipe_invs)
  obtain m' where "(if d then process_command crc os v (q_matcher q)
      else loop_turn crc ser_fields ser os NoFault v (q_matcher q)) = Some m'"
    using process_command_ok [OF ok, of os v] loop_turn_ok [OF ok, of ser_fields ser os NoFault v]
    by (cases d) auto
  note st = worker_step.w_apply [OF W_Apply this]
  have "length (q_read q) - length (q_done q) = Suc (length (q_read q) - Suc (length (q_done q)))"
    using undone [OF assms(1) _ _ W_Apply, of now s] assms(2) by (simp add: pipe_inv_def)
  then have "worker_work (q\<lparr>q_matcher := m', q_done := q_done q @ [v], q_worker := W_Poll d\<rparr>) < worker_work q"
    by (simp add: worker_work_def W_Apply)
  with st show ?thesis by blast
next
  case W_Check
  have "y_cpc (q_sys q) = C_Idle" using assms(2) W_Check by (simp add: pipe_invs)
  show ?thesis
    by (intro exI conjI, rule worker_step.w_check [OF W_Check])
      (auto simp: worker_work_def W_Check \<open>y_cpc (q_sys q) = C_Idle\<close>)
qed (use assms(4) in simp)

definition pipe_step where
  "pipe_step crc ser_fields ser os now q q' \<longleftrightarrow> client_step now q q' \<or> worker_step crc ser_fields ser os q q'"

lemma running_step:
  "running crc ser_fields ser os now config s m q \<Longrightarrow> pipe_step crc ser_fields ser os now q q' \<Longrightarrow>
   running crc ser_fields ser os now config s m q'"
  by (auto simp: pipe_step_def intro: running.client running.worker)

lemma running_progress:
  assumes "running crc ser_fields ser os now config s m q" "matcher_ok crc m" "q_worker q \<noteq> W_Stopped"
  shows "\<exists>q'. pipe_step crc ser_fields ser os now q q' \<and>
    ((client_work q', worker_work q'), client_work q, worker_work q) \<in> less_than <*lex*> less_than"
proof -
  obtain k where k: "inv k (q_sys q)" using inv_reachable [OF running_ring [OF assms(1)]] by blast
  have i: "pipe_inv crc now s m q" using running_inv [OF assms(1,2)] .
  show ?thesis
  proof (cases "waiting q \<or> client_finished q")
    case True
    then show ?thesis
      using worker_progress [OF k i True assms(3), of ser_fields ser os] worker_client_work
      by (fastforce simp: pipe_step_def)
  next
    case False
    then show ?thesis
      using client_progress [OF k, of now s] i by (auto simp: pipe_step_def pipe_inv_def)
  qed
qed

lemma running_finishes:
  assumes "running crc ser_fields ser os now config s m q" "matcher_ok crc m"
  shows "\<exists>q'. (pipe_step crc ser_fields ser os now)\<^sup>*\<^sup>* q q' \<and> q_worker q' = W_Stopped"
proof -
  have "wf (less_than <*lex*> less_than)" by blast
  then show ?thesis
    using assms(1)
  proof (induction "(client_work q, worker_work q)" arbitrary: q rule: wf_induct_rule)
    case (less q)
    show ?case
    proof (cases "q_worker q = W_Stopped")
      case False
      obtain q1 where q1: "pipe_step crc ser_fields ser os now q q1"
        "((client_work q1, worker_work q1), client_work q, worker_work q) \<in> less_than <*lex*> less_than"
        using running_progress [OF less.prems assms(2) False] by blast
      then obtain q' where "(pipe_step crc ser_fields ser os now)\<^sup>*\<^sup>* q1 q'" "q_worker q' = W_Stopped"
        using less.hyps [OF q1(2) running_step [OF less.prems q1(1)]] by blast
      then show ?thesis using q1(1) by (meson converse_rtranclp_into_rtranclp)
    qed blast
  qed
qed

section \<open>Properties of the running gateway\<close>

lemma running_histories:
  assumes "running crc ser_fields ser os now config s m q" "matcher_ok crc m"
  shows "\<exists>inside. q_read q = q_done q @ taken q @ inside @ pending q \<and>
    length inside \<le> unat (g_ring_capacity config)"
proof -
  obtain inside where "y_sent (q_sys q) = y_recv (q_sys q) @ inside"
    "length inside \<le> unat (g_ring_capacity config)"
    using reachable_fifo [OF running_ring [OF assms(1)]] by blast
  then show ?thesis using running_inv [OF assms] by (auto simp: pipe_invs)
qed

lemma length_pending: "length (pending q) \<le> 1" "length (taken q) \<le> 1"
  by (auto simp: pending_def taken_def split: client_pc.splits worker_pc.splits)

text \<open>
  C17: Commands are applied exactly once, in the order in which the client sent them: at every moment the
  engine is the starting engine after a run of the commands applied so far, and these are a prefix
  of the commands the connection yields.
\<close>

theorem applied_in_order:
  assumes "running crc ser_fields ser os now config s m q" "matcher_ok crc m"
  shows "run_cmds (m_engine m) (q_done q) = Some (m_engine (q_matcher q)) \<and>
    (\<exists>rest. fst (client_commands now 0 s) = q_done q @ rest)"
proof -
  obtain inside where "q_read q = q_done q @ taken q @ inside @ pending q"
    using running_histories [OF assms] by blast
  then show ?thesis
    using running_inv [OF assms] by (auto simp: pipe_invs split: client_pc.splits prod.splits)
qed

definition ex_gateway :: "GatewayConfig" where
  "ex_gateway = GatewayConfig_default\<lparr>g_ring_capacity := 2, g_arena_capacity := 4\<rparr>"

definition ex_stream :: Stream where
  "ex_stream = \<lparr>t_bytes = cmd_bytes ex_cmd @ cmd_bytes (CancelOrder 1), t_end = UnexpectedEof\<rparr>"

definition ex_matcher :: Matcher where
  "ex_matcher = matching_start (MatchingEngine_with_capacity 4, None, None) 10000"

lemma ex_matcher_ok: "matcher_ok crc ex_matcher"
  using engine_with_capacity(1) by (simp add: matcher_ok_def ex_matcher_def matching_start_def)

lemma ex_commands: "client_commands (\<lambda>_. 9) 0 ex_stream = ([stamp 9 ex_cmd, CancelOrder 1], Inr ())"
proof -
  have "client_commands (\<lambda>_. 9) 0 ex_stream = (case client_commands (\<lambda>_. 9) (0 + length [ex_cmd, CancelOrder 1])
      (ex_stream\<lparr>t_bytes := []\<rparr>) of (cs, r) \<Rightarrow> (stamped (\<lambda>_. 9) 0 [ex_cmd, CancelOrder 1] @ cs, r))"
    by (subst client_commands_frames [of "[ex_cmd, CancelOrder 1]" _ "[]"])
      (simp_all add: ex_stream_def cmd_ok_def ex_cmd_def)
  moreover have "client_commands (\<lambda>_. 9) 2 (ex_stream\<lparr>t_bytes := []\<rparr>) = ([], Inr ())"
    by (simp add: client_commands.simps [of _ 2] handle_turn_def read_exact_def read_error_def ex_stream_def)
  ultimately show ?thesis by (simp add: stamped_def stamp_def eval_nat_numeral)
qed

text \<open>A completed run, which the progress result provides.\<close>

lemma ex_completes:
  "\<exists>q. running crc ser_fields ser os now ex_gateway s ex_matcher q \<and> q_worker q = W_Stopped"
proof -
  have "ring_buffer (2 :: usize) \<noteq> (None :: EngineCommand Ring option)"
    by (simp add: ring_buffer_def) code_simp
  then obtain x :: "EngineCommand Ring" where "ring_buffer (g_ring_capacity ex_gateway) = Some x"
    by (auto simp: ex_gateway_def)
  then have r: "running crc ser_fields ser os now ex_gateway s ex_matcher (pipe_start x s ex_matcher)"
    by (rule running.init)
  obtain q where q: "(pipe_step crc ser_fields ser os now)\<^sup>*\<^sup>* (pipe_start x s ex_matcher) q"
    "q_worker q = W_Stopped"
    using running_finishes [OF r ex_matcher_ok] by blast
  from q(1) have "running crc ser_fields ser os now ex_gateway s ex_matcher q"
    by (induction rule: rtranclp_induct) (auto intro: r running_step)
  then show ?thesis using q(2) by blast
qed

theorem applied_in_order_witness:
  "\<exists>q. running ex_crc ex_ser_fields ex_ser (\<lambda>_. True) (\<lambda>_. 9) ex_gateway ex_stream ex_matcher q \<and>
     run_cmds (MatchingEngine_with_capacity 4) (q_done q) = Some (m_engine (q_matcher q)) \<and>
     (\<exists>rest. [stamp 9 ex_cmd, CancelOrder 1] = q_done q @ rest)"
proof -
  obtain q where r: "running ex_crc ex_ser_fields ex_ser (\<lambda>_. True) (\<lambda>_. 9) ex_gateway ex_stream ex_matcher q"
    using ex_completes by blast
  from applied_in_order [OF r ex_matcher_ok] r show ?thesis
    by (auto simp: ex_commands ex_matcher_def matching_start_def)
qed

text \<open>
  C6: Nothing is lost at shutdown: when the matching thread has stopped, the client thread has returned,
  every command the connection yielded, however it ended, has been applied, and the engine is the
  starting engine after all of them.
\<close>

theorem shutdown_loses_nothing:
  assumes "running crc ser_fields ser os now config s m q" "matcher_ok crc m" "q_worker q = W_Stopped"
  shows "\<exists>r. client_commands now 0 s = (q_done q, r) \<and> q_client q = CL_Return r \<and>
    run_cmds (m_engine m) (fst (client_commands now 0 s)) = Some (m_engine (q_matcher q))"
  using running_inv [OF assms(1,2)] assms(3)
  by (auto simp: pipe_invs draining_def taken_def pending_def)

theorem shutdown_loses_nothing_witness:
  "\<exists>q. running ex_crc ex_ser_fields ex_ser (\<lambda>_. True) (\<lambda>_. 9) ex_gateway ex_stream ex_matcher q \<and>
     q_done q = [stamp 9 ex_cmd, CancelOrder 1] \<and> q_client q = CL_Return (Inr ())"
proof -
  obtain q where r: "running ex_crc ex_ser_fields ex_ser (\<lambda>_. True) (\<lambda>_. 9) ex_gateway ex_stream ex_matcher q"
    "q_worker q = W_Stopped" using ex_completes by blast
  from shutdown_loses_nothing [OF r(1) ex_matcher_ok r(2)] r(1) show ?thesis by (auto simp: ex_commands)
qed

text \<open>
  C19: The backlog is bounded: commands read and not yet applied are never more than the capacity of the
  ring and two.
\<close>

theorem backlog_bounded:
  assumes "running crc ser_fields ser os now config s m q" "matcher_ok crc m"
  shows "\<exists>backlog. q_read q = q_done q @ backlog \<and> length backlog \<le> unat (g_ring_capacity config) + 2"
proof -
  obtain inside where "q_read q = q_done q @ taken q @ inside @ pending q"
    "length inside \<le> unat (g_ring_capacity config)"
    using running_histories [OF assms] by blast
  then show ?thesis
    using length_pending [of q] by (intro exI [of _ "taken q @ inside @ pending q"]) simp
qed

theorem backlog_bounded_witness:
  "\<exists>q backlog. running ex_crc ex_ser_fields ex_ser (\<lambda>_. True) (\<lambda>_. 9) ex_gateway ex_stream ex_matcher q \<and>
     q_read q = q_done q @ backlog \<and> length backlog \<le> 4"
proof -
  obtain q where r: "running ex_crc ex_ser_fields ex_ser (\<lambda>_. True) (\<lambda>_. 9) ex_gateway ex_stream ex_matcher q"
    using ex_completes by blast
  from backlog_bounded [OF r ex_matcher_ok] r show ?thesis by (auto simp: ex_gateway_def)
qed

text \<open>
  C18: No deadlock and no trap: from every state of a run, whatever the threads are in the middle of, the
  run can be completed, that is, some continuation stops the matching thread.
\<close>

theorem run_can_complete:
  assumes "running crc ser_fields ser os now config s m q" "matcher_ok crc m"
  shows "\<exists>q'. (pipe_step crc ser_fields ser os now)\<^sup>*\<^sup>* q q' \<and> q_worker q' = W_Stopped"
  using assms by (rule running_finishes)

theorem run_can_complete_witness:
  "\<exists>x q'. ring_buffer 2 = Some x \<and>
     (pipe_step ex_crc ex_ser_fields ex_ser (\<lambda>_. True) (\<lambda>_. 9))\<^sup>*\<^sup>* (pipe_start x ex_stream ex_matcher) q' \<and>
     q_worker q' = W_Stopped"
proof -
  have "ring_buffer (2 :: usize) \<noteq> (None :: EngineCommand Ring option)"
    by (simp add: ring_buffer_def) code_simp
  then obtain x :: "EngineCommand Ring" where x: "ring_buffer 2 = Some x" by blast
  then have "running ex_crc ex_ser_fields ex_ser (\<lambda>_. True) (\<lambda>_. 9) ex_gateway ex_stream ex_matcher
      (pipe_start x ex_stream ex_matcher)" by (intro running.init) (simp add: ex_gateway_def)
  from run_can_complete [OF this ex_matcher_ok] x show ?thesis by blast
qed

end
