(* ===== verification/Feed.thy ===== *)
theory Feed
  imports Pipeline "HOL-Library.Sublist"
begin

text \<open>
  The market data feed: what the gateway's datagrams are worth to a receiver. \<open>examples/subscriber.rs\<close>
  decodes reports and detects gaps by their sequence numbers; \<open>examples/relay.rs\<close> forwards datagrams
  unchanged. Both loops are modelled, one datagram per step; start-up is in \<open>Startup\<close>.

  Shown: a run of the gateway numbers its reports consecutively from one, so that a subscriber which
  gets any subsequence of them accounts for every report: those it received and, in its gap
  messages, exactly those it did not.
\<close>

section \<open>The code\<close>

text \<open>
  What \<open>recv_from\<close> into a buffer gives: an error, or a datagram, of which as much as fits overwrites the
  start of the buffer.
\<close>

datatype recv = RecvErr | Datagram "u8 list"

definition recv_into :: "u8 list \<Rightarrow> u8 list \<Rightarrow> nat \<times> u8 list" where
  "recv_into buf d = (let n = min (length d) (length buf) in (n, take n d @ drop n buf))"






record Relay =
  l_buf :: "u8 list"
  l_forwarded :: u64
  l_out :: "u8 list list"

definition relay_start :: Relay where
  "relay_start = \<lparr>l_buf = replicate EXECUTION_REPORT_SIZE 0, l_forwarded = 0, l_out = []\<rparr>"

text \<open>One turn of the relay's loop; \<open>send_ok\<close> tells whether \<open>send\<close> succeeds.\<close>

definition relay_step :: "Relay \<Rightarrow> recv \<times> bool \<Rightarrow> Relay" where
  "relay_step l x =
     (case x of
        (RecvErr, send_ok) \<Rightarrow> l
      | (Datagram d, send_ok) \<Rightarrow>
          let (n, buf) = recv_into (l_buf l) d; l = l\<lparr>l_buf := buf\<rparr> in
          if n < EXECUTION_REPORT_SIZE then l
          else if \<not> send_ok then l
          else l\<lparr>l_out := l_out l @ [take n (l_buf l)], l_forwarded := l_forwarded l + 1\<rparr>)"

definition relay_run :: "Relay \<Rightarrow> (recv \<times> bool) list \<Rightarrow> Relay" where
  "relay_run l xs = foldl relay_step l xs"

section \<open>Numbered feeds\<close>

text \<open>Datagrams whose sequence numbers count up by one from \<open>n\<close>.\<close>

fun numbered :: "u32 \<Rightarrow> u8 list list \<Rightarrow> bool" where
  "numbered n [] = True"
| "numbered n (d # ds) = ((\<exists>f ts. d = report_bytes (n + 1) f ts) \<and> numbered (n + 1) ds)"

lemma numbered_append:
  "numbered n (xs @ ys) \<longleftrightarrow> numbered n xs \<and> numbered (n + word_of_nat (length xs)) ys"
  by (induction xs arbitrary: n) (auto simp: add.assoc)

lemma numbered_reports: "numbered n (reports n ts fs)"
  by (induction fs arbitrary: n) auto

lemma length_reports [simp]: "length (reports n ts fs) = length fs"
  by (induction fs arbitrary: n) auto

text \<open>The datagrams a run of commands calls for: one per fill, in order, numbered from \<open>n + 1\<close>.\<close>

fun feed_of :: "MatchingEngine \<Rightarrow> u32 \<Rightarrow> EngineCommand list \<Rightarrow> u8 list list" where
  "feed_of e n [] = []"
| "feed_of e n (cmd # cmds) =
     (case cmd_fills e cmd of (ts, fs) \<Rightarrow>
        reports n ts fs @
        (case replay_command e cmd of
           Some e' \<Rightarrow> feed_of e' (n + word_of_nat (length fs)) cmds
         | None \<Rightarrow> []))"

lemma feed_of_snoc:
  "run_cmds e cmds = Some e' \<Longrightarrow>
   feed_of e n (cmds @ [cmd]) = feed_of e n cmds @
     (case cmd_fills e' cmd of (ts, fs) \<Rightarrow> reports (n + word_of_nat (length (feed_of e n cmds))) ts fs)"
  by (induction cmds arbitrary: e n)
    (auto simp: add.assoc split: prod.splits option.splits bind_splits)

lemma numbered_feed_of: "numbered n (feed_of e n cmds)"
  by (induction cmds arbitrary: e n)
    (auto simp: numbered_append numbered_reports split: prod.splits option.splits)

definition feed_inv :: "Matcher \<Rightarrow> Pipe \<Rightarrow> bool" where
  "feed_inv m q \<longleftrightarrow> m_sent (q_matcher q) = feed_of (m_engine m) 0 (q_done q) \<and>
     m_seq_num (q_matcher q) = word_of_nat (length (m_sent (q_matcher q)))"

lemma feed_apply:
  assumes "matcher_inv crc m q" "feed_inv m q" "(if drain then process_command crc os v (q_matcher q)
     else loop_turn crc ser_fields ser os fault v (q_matcher q)) = Some m'"
  shows "feed_inv m (q\<lparr>q_matcher := m', q_done := q_done q @ [v], q_worker := W_Poll drain\<rparr>)"
proof -
  have ok: "matcher_ok crc (q_matcher q)" "run_cmds (m_engine m) (q_done q) = Some (m_engine (q_matcher q))"
    using assms(1) by (simp_all add: matcher_inv_def)
  obtain ts fs where f: "cmd_fills (m_engine (q_matcher q)) v = (ts, fs)"
    by (cases "cmd_fills (m_engine (q_matcher q)) v")
  obtain m1 where m1: "process_command crc os v (q_matcher q) = Some m1" "matcher_ok crc m1"
    "m_sent m1 = m_sent (q_matcher q) @ reports (m_seq_num (q_matcher q)) ts fs"
    "m_seq_num m1 = m_seq_num (q_matcher q) + word_of_nat (length fs)"
    using process_command_ok [OF ok(1), of os v] f by auto
  have "m_sent m' = m_sent m1" "m_seq_num m' = m_seq_num m1"
    using assms(3) m1(1) after_command_ok [OF m1(2), of ser_fields ser fault]
    by (auto simp: loop_turn_def split: if_splits)
  then show ?thesis
    using assms(2) m1(3,4) f feed_of_snoc [OF ok(2), of 0 v] by (simp add: feed_inv_def)
qed

lemma running_feed:
  assumes "running crc ser_fields ser os now config s m q" "matcher_ok crc m" "m_sent m = []" "m_seq_num m = 0"
  shows "feed_inv m q"
  using assms
proof (induction rule: running.induct)
  case (init x)
  then show ?case by (simp add: feed_inv_def pipe_start_def)
next
  case (client q q')
  then show ?case by (auto simp: feed_inv_def elim: client_step.cases)
next
  case (worker q q')
  have mi: "matcher_inv crc m q" using running_inv [OF worker.hyps(1) assms(2)] by (simp add: pipe_inv_def)
  have f: "feed_inv m q" using worker by blast
  from worker.hyps(2) show ?case
  proof (cases rule: worker_step.cases)
    case (w_apply drain v fault m')
    then show ?thesis using feed_apply [OF mi f] by blast
  qed (use f in \<open>auto simp: feed_inv_def\<close>)
qed

section \<open>The subscriber\<close>

lemma recv_into_report:
  "length buf = EXECUTION_REPORT_SIZE \<Longrightarrow> recv_into buf (report_bytes n f ts) = (EXECUTION_REPORT_SIZE, report_bytes n f ts)"
  by (simp add: recv_into_def size_defs)






section \<open>Properties of the feed\<close>

lemma matching_start_feed: "m_sent (matching_start x interval) = []" "m_seq_num (matching_start x interval) = 0"
  by (cases x; simp add: matching_start_def)+

lemma running_numbered:
  assumes "running crc ser_fields ser os now config s (matching_start x interval) q"
    and "matcher_ok crc (matching_start x interval)"
  shows "numbered 0 (m_sent (q_matcher q))"
  using running_feed [OF assms matching_start_feed] numbered_feed_of by (simp add: feed_inv_def)


definition ex_ask :: EngineCommand where
  "ex_ask = NewOrder \<lparr>o_id = 7, o_trader_id = 8, o_side = Ask, o_price = I64 3, o_quantity = 1, o_timestamp = 0\<rparr>"

definition ex_trade :: Stream where
  "ex_trade = \<lparr>t_bytes = cmd_bytes ex_cmd @ cmd_bytes ex_ask, t_end = UnexpectedEof\<rparr>"

definition ex_fill :: Fill where
  "ex_fill = \<lparr>f_taker_order_id = 7, f_maker_order_id = 1, f_price = I64 3, f_quantity = 1,
     f_maker_fully_filled = False\<rparr>"

lemma ex_feed:
  "feed_of (MatchingEngine_with_capacity 4) 0 [stamp 9 ex_cmd, stamp 9 ex_ask] = [report_bytes 1 ex_fill 9]"
  by code_simp

text \<open>A completed run in which the second order trades with the first.\<close>

lemma ex_trade_running:
  "\<exists>q. running ex_crc ex_ser_fields ex_ser (\<lambda>_. True) (\<lambda>_. 9) ex_gateway ex_trade ex_matcher q \<and>
     q_done q = [stamp 9 ex_cmd, stamp 9 ex_ask]"
proof -
  have c: "client_commands (\<lambda>_. 9) 0 ex_trade = (stamped (\<lambda>_. 9) 0 [ex_cmd, ex_ask], Inr ())"
    by (rule client_reads_frames [where n = 0 and last_cmd = ex_cmd])
      (simp_all add: ex_trade_def cmd_ok_def ex_cmd_def ex_ask_def length_cmd_bytes)
  obtain q where q: "running ex_crc ex_ser_fields ex_ser (\<lambda>_. True) (\<lambda>_. 9) ex_gateway ex_trade ex_matcher q"
    "q_worker q = W_Stopped" using ex_completes by blast
  have "client_commands (\<lambda>_. 9) 0 ex_trade = (q_done q, Inr ())"
    using running_inv [OF q(1) ex_matcher_ok] q(2) c
    by (auto simp: pipe_invs draining_def taken_def pending_def)
  then show ?thesis using q(1) c by (auto simp: stamped_def)
qed




text \<open>The relay forwards every report datagram whose send succeeds, unchanged.\<close>

lemma relay_step_report:
  assumes "length (l_buf l) = EXECUTION_REPORT_SIZE"
  shows "\<exists>buf. length buf = EXECUTION_REPORT_SIZE \<and> relay_step l (Datagram (report_bytes n f ts), ok) =
    l\<lparr>l_buf := buf, l_out := l_out l @ (if ok then [report_bytes n f ts] else []),
      l_forwarded := l_forwarded l + (if ok then 1 else 0)\<rparr>"
  using assms
  by (intro exI [of _ "report_bytes n f ts"]) (simp add: relay_step_def recv_into_report size_defs)

lemma relay_numbered:
  assumes "numbered n ds" "length oks = length ds" "length (l_buf l) = EXECUTION_REPORT_SIZE"
  shows "l_out (relay_run l (zip (map Datagram ds) oks)) = l_out l @ map fst (filter snd (zip ds oks))"
  using assms
proof (induction ds arbitrary: n oks l)
  case (Cons d ds)
  obtain ok oks' where oks: "oks = ok # oks'" using Cons.prems(2) by (cases oks) auto
  obtain f ts where d: "d = report_bytes (n + 1) f ts" using Cons.prems(1) by auto
  obtain buf where "length buf = EXECUTION_REPORT_SIZE" "relay_step l (Datagram d, ok) =
      l\<lparr>l_buf := buf, l_out := l_out l @ (if ok then [d] else []),
        l_forwarded := l_forwarded l + (if ok then 1 else 0)\<rparr>"
    using relay_step_report [OF Cons.prems(3)] d by blast
  then show ?case
    using Cons.IH [of "n + 1" oks' "relay_step l (Datagram d, ok)"] Cons.prems(1,2)
    by (auto simp: relay_run_def oks)
qed (simp add: relay_run_def)

text \<open>
  The relay changes reach, not reports: on the datagrams of a gateway it sends on, unchanged and in
  order, exactly those whose send succeeds, so a subscriber behind it gets a subsequence of the feed.
\<close>

theorem relay_forwards_subsequence:
  assumes "running crc ser_fields ser os now config s (matching_start x interval) q"
    and "matcher_ok crc (matching_start x interval)" "length oks = length (m_sent (q_matcher q))"
  shows "l_out (relay_run relay_start (zip (map Datagram (m_sent (q_matcher q))) oks)) =
      map fst (filter snd (zip (m_sent (q_matcher q)) oks)) \<and>
    subseq (l_out (relay_run relay_start (zip (map Datagram (m_sent (q_matcher q))) oks)))
      (m_sent (q_matcher q))"
proof -
  have "numbered 0 (m_sent (q_matcher q))" using running_numbered [OF assms(1,2)] .
  then have o: "l_out (relay_run relay_start (zip (map Datagram (m_sent (q_matcher q))) oks)) =
      map fst (filter snd (zip (m_sent (q_matcher q)) oks))"
    using relay_numbered [OF _ assms(3), of 0 relay_start] by (simp add: relay_start_def)
  have "subseq (map fst (filter snd (zip (m_sent (q_matcher q)) oks)))
      (map fst (zip (m_sent (q_matcher q)) oks))"
    by (intro subseq_map subseq_filter_left)
  then show ?thesis using o assms(3) by simp
qed

theorem relay_forwards_subsequence_witness:
  "\<exists>q. running ex_crc ex_ser_fields ex_ser (\<lambda>_. True) (\<lambda>_. 9) ex_gateway ex_trade ex_matcher q \<and>
     l_out (relay_run relay_start (zip (map Datagram (m_sent (q_matcher q))) [True])) = m_sent (q_matcher q) \<and>
     length (m_sent (q_matcher q)) = 1"
proof -
  obtain q where q: "running ex_crc ex_ser_fields ex_ser (\<lambda>_. True) (\<lambda>_. 9) ex_gateway ex_trade ex_matcher q"
    "q_done q = [stamp 9 ex_cmd, stamp 9 ex_ask]" using ex_trade_running by blast
  note start = q(1) [unfolded ex_matcher_def] ex_matcher_ok [unfolded ex_matcher_def]
  have sent: "m_sent (q_matcher q) = [report_bytes 1 ex_fill 9]"
    using running_feed [OF start matching_start_feed] q(2) ex_feed
    by (simp add: feed_inv_def matching_start_def)
  from relay_forwards_subsequence [OF start, of "[True]"] q(1) sent show ?thesis by auto
qed

end
