(* ===== verification/Fuzz.thy ===== *)
theory Fuzz
  imports Recovery
begin

text \<open>
  \<open>fuzz/fuzz_targets\<close>: the properties the fuzz targets check on random inputs, as functions that tell
  whether a target passes on an input, and what is true of every input. The decoder target always
  passes. Of the log target, every assertion holds for every file but one, which a file with a
  cut-off last record violates. The snapshot target's expectation, that recovery never fails on a
  snapshot file, is refuted by a snapshot whose checksum is good and which cannot be restored.
\<close>

section \<open>The targets\<close>

definition fuzz_message :: "u8 list \<Rightarrow> bool" where
  "fuzz_message data =
     (case decode_message data of
        Inr (NewOrder order) \<Rightarrow>
          (case encode_new_order (replicate NEW_ORDER_SIZE 0) order of
             (buf, Inr n) \<Rightarrow> n = NEW_ORDER_SIZE \<and> decode_message (take n buf) = Inr (NewOrder order)
           | (buf, Inl e) \<Rightarrow> False)
      | Inr (CancelOrder order_id) \<Rightarrow>
          (case encode_cancel_order (replicate CANCEL_ORDER_SIZE 0) order_id of
             (buf, Inr n) \<Rightarrow> n = CANCEL_ORDER_SIZE \<and> decode_message (take n buf) = Inr (CancelOrder order_id)
           | (buf, Inl e) \<Rightarrow> False)
      | Inl e \<Rightarrow> True)"

definition fuzz_report :: "u8 list \<Rightarrow> bool" where
  "fuzz_report data =
     (case decode_execution_report data of
        Inr report \<Rightarrow> EXECUTION_REPORT_SIZE \<le> length data \<and>
          decode_execution_report (take EXECUTION_REPORT_SIZE data) = Inr report
      | Inl e \<Rightarrow> True)"

definition fuzz_protocol_decode :: "u8 list \<Rightarrow> bool" where
  "fuzz_protocol_decode data = (fuzz_message data \<and> fuzz_report data)"

text \<open>
  The log target: recovery from \<open>data\<close> alone as \<open>wal.bin\<close>, with a map of \<open>2 ^ 16\<close> bytes. The file a
  recovery leaves behind is the map of the log it opened.
\<close>

definition fuzz_recover ::
  "(u8 list \<Rightarrow> u32) \<Rightarrow> u8 list \<Rightarrow> (RecoveryError + MatchingEngine \<times> Wal) option" where
  "fuzz_recover crc data =
     recover_with_wal_size crc (\<lambda>_. []) (\<lambda>_. None) (\<lambda>_. True) True (Inr None) data 1024 (Some (2 ^ 16))"

definition left_behind :: "(u8 list \<Rightarrow> u32) \<Rightarrow> u8 list \<Rightarrow> u8 list" where
  "left_behind crc data =
     (case open_with_size crc (\<lambda>_. True) data (2 ^ 16) of Some (Inr w) \<Rightarrow> w_mmap w | _ \<Rightarrow> data)"

definition count_assert :: "u8 list \<Rightarrow> Wal \<Rightarrow> bool" where
  "count_assert data wal = (w_record_count wal \<le> length data div 24 + 1)"

definition write_pos_assert :: "u8 list \<Rightarrow> Wal \<Rightarrow> bool" where
  "write_pos_assert data wal = (w_write_pos wal \<le> max (length data) 8)"

definition fuzz_wal_recover :: "(u8 list \<Rightarrow> u32) \<Rightarrow> u8 list \<Rightarrow> bool" where
  "fuzz_wal_recover crc data =
     (case fuzz_recover crc data of
        None \<Rightarrow> False
      | Some (Inr (engine, wal)) \<Rightarrow>
          count_assert data wal \<and> write_pos_assert data wal \<and>
          (case fuzz_recover crc (left_behind crc data) of
             Some (Inr (engine2, wal2)) \<Rightarrow>
               w_record_count wal2 = w_record_count wal \<and>
               all_resting_orders (e_book engine2) = all_resting_orders (e_book engine)
           | _ \<Rightarrow> False)
      | Some (Inl (RWal (WProtocol first))) \<Rightarrow>
          fuzz_recover crc (left_behind crc data) = Some (Inl (RWal (WProtocol first)))
      | Some (Inl _) \<Rightarrow> False)"

text \<open>The snapshot target: recovery from \<open>data\<close> as the only snapshot, without a log.\<close>

definition fuzz_snapshot_load ::
  "(u8 list \<Rightarrow> u32) \<Rightarrow> (snap_fields \<Rightarrow> u8 list) \<Rightarrow> (u8 list \<Rightarrow> Snapshot option) \<Rightarrow> u8 list \<Rightarrow> bool" where
  "fuzz_snapshot_load crc ser_fields de data =
     (case recover_with_wal_size crc ser_fields de (\<lambda>_. True) True (Inr (Some [(''snapshot_0000000001.bin'', data)])) [] 1024
             (Some (2 ^ 16)) of
        Some (Inr (engine, wal)) \<Rightarrow> w_record_count wal = 0
      | _ \<Rightarrow> False)"

section \<open>Replay of any log\<close>

fun decode_all :: "u8 list list \<Rightarrow> ProtocolError + EngineCommand list" where
  "decode_all [] = Inr []"
| "decode_all (p # ps) =
     and_then (decode_message p) (\<lambda>cmd. and_then (decode_all ps) (\<lambda>cmds. Inr (cmd # cmds)))"

lemma replay_loop_any:
  assumes "engine_ok e" "iter_at crc it ps" "i_start_record it = 0"
  shows "\<exists>e'. replay_loop crc it e n = Some (e', case decode_all ps of
      Inl err \<Rightarrow> Inl (WProtocol err) | Inr cmds \<Rightarrow> Inr (None, n + length ps)) \<and>
    (\<forall>cmds. decode_all ps = Inr cmds \<longrightarrow> run_cmds e cmds = Some e')"
  using assms
proof (induction ps arbitrary: it e n)
  case Nil
  then have "wal_next crc it = Some (it, None)" by (intro wal_next_Nil)
  then show ?case by (subst replay_loop.simps) simp
next
  case (Cons p ps)
  obtain it' where it': "iter_at crc it' ps" "i_start_record it' = 0"
    "wal_next crc it = Some (it', Some (case decode_message p of
        Inr cmd \<Rightarrow> Inr (i_current_record it + 1, cmd) | Inl e \<Rightarrow> Inl (WProtocol e)))"
    using wal_next_Cons [OF Cons.prems(2)] Cons.prems(3) by auto
  show ?case
  proof (cases "decode_message p")
    case (Inl err)
    then show ?thesis using it'(3) by (simp add: replay_loop.simps [of crc it])
  next
    case (Inr cmd)
    obtain e1 where e1: "replay_command e cmd = Some e1" "engine_ok e1"
      using replay_command_ok [OF Cons.prems(1)] by blast
    obtain e' where "replay_loop crc it' e1 (n + 1) = Some (e', case decode_all ps of
        Inl err \<Rightarrow> Inl (WProtocol err) | Inr cmds \<Rightarrow> Inr (None, n + 1 + length ps))"
      "\<forall>cmds. decode_all ps = Inr cmds \<longrightarrow> run_cmds e1 cmds = Some e'"
      using Cons.IH [OF e1(2) it'(1,2)] by blast
    then show ?thesis
      using it'(3) Inr e1(1)
      by (cases "decode_all ps") (auto simp: replay_loop.simps [of crc it])
  qed
qed

lemma fuzz_recover_opened:
  assumes "open_with_size crc (\<lambda>_. True) data (2 ^ 16) = Some (Inr w)" "wal_ok crc w ps"
  shows "case decode_all ps of
      Inl err \<Rightarrow> fuzz_recover crc data = Some (Inl (RWal (WProtocol err)))
    | Inr cmds \<Rightarrow> \<exists>e. run_cmds (MatchingEngine_with_capacity 1024) cmds = Some e \<and>
        fuzz_recover crc data = Some (Inr (e, w))"
proof -
  let ?e = "MatchingEngine_with_capacity 1024"
  have "i_start_record (iter_from w 0) = 0" by (simp add: iter_from_def)
  then obtain e' where "replay_loop crc (iter_from w 0) ?e 0 = Some (e', case decode_all ps of
      Inl err \<Rightarrow> Inl (WProtocol err) | Inr cmds \<Rightarrow> Inr (None, 0 + length ps))"
    "\<forall>cmds. decode_all ps = Inr cmds \<longrightarrow> run_cmds ?e cmds = Some e'"
    using replay_loop_any [OF engine_with_capacity(1) iter_at_from [OF assms(2)]] by blast
  then show ?thesis
    using assms(1)
    by (cases "decode_all ps")
      (simp_all add: fuzz_recover_def recover_with_wal_size_def load_latest_def)
qed

lemma reopened:
  assumes "open_with_size crc (\<lambda>_. True) data (2 ^ 16) = Some (Inr w)" "wal_ok crc w ps"
  shows "\<exists>w'. open_with_size crc (\<lambda>_. True) (left_behind crc data) (2 ^ 16) = Some (Inr w') \<and> wal_ok crc w' ps"
  using open_wal_ok [OF assms(2), of "\<lambda>_. True" "2 ^ 16"] assms(1) by (simp add: left_behind_def)

section \<open>The assertions of the log target\<close>

lemma decode_length: "decode_message p = Inr cmd \<Longrightarrow> 16 \<le> length p"
  by (auto simp: decode_message_def decode_new_order_def decode_cancel_order_def and_then_Inr size_defs
      split: if_splits)

lemma record_length: "record_ok p pad \<Longrightarrow> 16 \<le> length p \<Longrightarrow> 24 \<le> length (record_form crc p pad)"
  by (simp add: record_form_def)

lemma log_length: "log_bytes crc bs ps \<Longrightarrow> \<forall>p\<in>set ps. 16 \<le> length p \<Longrightarrow> 24 * length ps \<le> length bs"
proof (induction ps arbitrary: bs)
  case (Cons p ps)
  then obtain pad rest where "record_ok p pad" "bs = record_form crc p pad @ rest" "log_bytes crc rest ps"
    by auto
  then show ?case using Cons.IH [of rest] Cons.prems(2) record_length [of p pad crc] by auto
qed simp

lemma decode_all_lengths: "decode_all ps = Inr cmds \<Longrightarrow> \<forall>p\<in>set ps. 16 \<le> length p"
  by (induction ps arbitrary: cmds) (auto simp: and_then_Inr dest: decode_length)

lemma log_bytes_snoc:
  "log_bytes crc bs (ps @ [p]) \<Longrightarrow>
   \<exists>bs1 pad. log_bytes crc bs1 ps \<and> record_ok p pad \<and> bs = bs1 @ record_form crc p pad"
proof (induction ps arbitrary: bs)
  case (Cons x ps)
  then obtain pad rest where r: "record_ok x pad" "bs = record_form crc x pad @ rest"
    "log_bytes crc rest (ps @ [p])" by auto
  then obtain bs1 pad' where "log_bytes crc bs1 ps" "record_ok p pad'" "rest = bs1 @ record_form crc p pad'"
    using Cons.IH by blast
  then show ?case using r(1,2) by (intro exI [of _ "record_form crc x pad @ bs1"] exI [of _ pad']) auto
qed auto

text \<open>A record cannot begin in the zeros behind the file, since its length is not zero.\<close>

lemma record_starts_inside:
  assumes "data @ replicate z 0 = bs1 @ record_form crc p pad @ rest" "record_ok p pad"
  shows "length bs1 < length data"
proof (rule ccontr)
  assume "\<not> length bs1 < length data"
  then have "drop (length bs1) (data @ replicate z 0) = replicate (z - (length bs1 - length data)) 0" by simp
  then have "take 4 (record_form crc p pad @ rest) = replicate 4 0"
    using assms(1) by (simp add: record_form_def) (metis append_eq_conv_conj f32.length_enc length_replicate take_replicate)
  then have "u32_to_le_bytes (word_of_nat (length p)) = replicate 4 0" by (simp add: record_form_def)
  then have "u32_from_le_bytes (u32_to_le_bytes (word_of_nat (length p))) = 0" using u32_zero_bytes by metis
  then have "(word_of_nat (length p) :: u32) = 0" by simp
  then show False
    using assms(2) unat_word_of_nat [of "length p", where 'a = 32] by (simp add: record_ok_def)
qed

lemma count_bound:
  assumes "open_with_size crc (\<lambda>_. True) data n = Some (Inr w)" "wal_ok crc w ps" "decode_all ps = Inr cmds"
  shows "count_assert data w"
proof (cases ps rule: rev_cases)
  case Nil
  then show ?thesis using assms(2) by (simp add: count_assert_def wal_ok_def)
next
  case (snoc qs p)
  obtain w' bs' rest z' where o: "open_with_size crc (\<lambda>_. True) data n = Some (Inr w')"
    "initial_map data n = bs' @ rest" "w_write_pos w' = length bs'" "w_mmap w' = bs' @ replicate z' 0"
    using open_scan [of "\<lambda>_. True" data n crc] by blast
  obtain bs z where b: "log_bytes crc bs ps" "w_mmap w = bs @ replicate z 0" "w_write_pos w = length bs"
    using assms(2) by (auto simp: wal_ok_def)
  have "w' = w" using o(1) assms(1) by simp
  then have "bs' = bs" using o(3,4) b(2,3) by (metis append_eq_conv_conj)
  then have im: "initial_map data n = bs @ rest" using o(2) by simp
  obtain bs1 pad where r: "log_bytes crc bs1 qs" "record_ok p pad" "bs = bs1 @ record_form crc p pad"
    using log_bytes_snoc b(1) snoc by blast
  obtain z' where "initial_map data n = data @ replicate z' 0" using initial_map_prefix by blast
  then have "length bs1 < length data"
    using record_starts_inside [of data z' bs1 crc p pad rest] r(2,3) im by simp
  moreover have "24 * length qs \<le> length bs1"
    using log_length [OF r(1)] decode_all_lengths [OF assms(3)] snoc by simp
  ultimately show ?thesis using assms(2) snoc by (simp add: count_assert_def wal_ok_def)
qed

lemma read_u32_take: "n \<le> length buf \<Longrightarrow> a + 4 \<le> n \<Longrightarrow> read_u32 (take n buf) a = read_u32 buf a"
  by (simp add: read_u32_def get_range_def drop_take)

section \<open>Properties of the fuzz targets\<close>

text \<open>
  The decoder target passes on every input: what decodes re-encodes to a message of the canonical
  size that decodes to the same command, and an execution report depends on its first 48 bytes only.
\<close>

theorem fuzz_protocol_decode_passes: "fuzz_protocol_decode data"
proof -
  have "fuzz_message data"
  proof (cases "decode_message data")
    case (Inr cmd)
    then have q: "cmd_ok cmd" and t: "logged cmd = cmd"
      by (auto simp: decode_message_def decode_new_order_def and_then_Inr cmd_ok_def logged_def split: if_splits)
    from decode_cmd_bytes [OF q] t Inr show ?thesis
      by (cases cmd)
        (simp_all add: fuzz_message_def encode_new_order_bytes encode_cancel_order_bytes cmd_bytes_def size_defs)
  qed (simp add: fuzz_message_def)
  moreover have "fuzz_report data"
    by (auto simp: fuzz_report_def decode_execution_report_def read_take read_u32_take size_defs split: sum.split)
  ultimately show ?thesis by (simp add: fuzz_protocol_decode_def)
qed

text \<open>
  C34: Recovery of an arbitrary log file, whatever the checksum function: it returns (no panic, no endless
  loop); the only error is the decoding error of a record with a valid checksum; the number of
  records is at most one more than the file's length over 24; and recovering again from the file it
  leaves gives the same count and the same resting orders, or the same error.
\<close>

theorem wal_recover_any_file:
  "case fuzz_recover crc data of
     None \<Rightarrow> False
   | Some (Inr (engine, wal)) \<Rightarrow> count_assert data wal \<and>
       (\<exists>wal2. fuzz_recover crc (left_behind crc data) = Some (Inr (engine, wal2)) \<and>
          w_record_count wal2 = w_record_count wal)
   | Some (Inl err) \<Rightarrow> (\<exists>first. err = RWal (WProtocol first)) \<and>
       fuzz_recover crc (left_behind crc data) = Some (Inl err)"
proof -
  obtain w ps where w: "open_with_size crc (\<lambda>_. True) data (2 ^ 16) = Some (Inr w)" "wal_ok crc w ps"
    using open_scan [of "\<lambda>_. True" data "2 ^ 16" crc] by blast
  obtain w2 where w2: "open_with_size crc (\<lambda>_. True) (left_behind crc data) (2 ^ 16) = Some (Inr w2)"
    "wal_ok crc w2 ps" using reopened [OF w] by blast
  show ?thesis
    using fuzz_recover_opened [OF w] fuzz_recover_opened [OF w2] count_bound [OF w] w(2) w2(2)
    by (cases "decode_all ps") (auto simp: wal_ok_def)
qed

text \<open>
  The remaining assertion of the log target, \<open>write_pos \<le> max(len, 8)\<close>, does not hold for every file:
  a file that ends inside a record, in bytes that were zero, is completed by the zeros with which
  it is extended before it is mapped. Here a cancel record is cut after 17 of its 24 bytes.
\<close>

theorem write_pos_assertion_fails:
  "\<not> fuzz_wal_recover crc (take 17 (record_form crc (cancel_order_bytes 1) []))"
proof -
  let ?p = "cancel_order_bytes 1"
  let ?data = "take 17 (record_form crc ?p [])"
  have ok: "record_ok ?p []" using record_ok_cmd [of "CancelOrder 1"] by (simp add: cmd_bytes_def)
  have rl: "length (record_form crc ?p []) = 24" by (simp add: record_form_def)
  have le: "u64_to_le_bytes 1 = [1, 0, 0, 0, 0, 0, 0, 0]" by code_simp
  have split: "record_form crc ?p [] = ?data @ replicate 7 0"
  proof -
    have "drop 17 (record_form crc ?p []) = replicate 7 0"
      by (simp add: record_form_def cancel_order_bytes_def le eval_nat_numeral)
    then show ?thesis by (metis append_take_drop_id)
  qed
  have "set_len ?data (2 ^ 16) = ?data @ replicate (7 + (2 ^ 16 - 24)) 0"
    by (simp add: set_len_def rl)
  then have sl: "set_len ?data (2 ^ 16) = record_form crc ?p [] @ replicate (2 ^ 16 - 24) 0"
    by (subst split) (simp only: replicate_add append_assoc)
  let ?full = "record_form crc ?p [] @ replicate (2 ^ 16 - 24) 0"
  have "open_with_size crc (\<lambda>_. True) ?data (2 ^ 16) = open_with_size crc (\<lambda>_. True) ?full (2 ^ 16)"
    using sl rl by (simp add: open_with_size_def)
  then obtain w where w: "open_with_size crc (\<lambda>_. True) ?data (2 ^ 16) = Some (Inr w)" "wal_ok crc w [?p]"
    using open_exact [OF log_bytes_single [OF ok, of crc], of "\<lambda>_. True" "2 ^ 16 - 24" "2 ^ 16"] by auto
  have "w_write_pos w = 24"
    using w(2) length_record_form [of ?p _ crc] align_up_eq [of 24] by (auto simp: wal_ok_def HEADER_SIZE_def)
  moreover have "decode_all [?p] = Inr [CancelOrder 1]"
    using decode_message_bytes(2) [of 1 "[]"] by simp
  ultimately show ?thesis
    using fuzz_recover_opened [OF w] rl by (auto simp: fuzz_wal_recover_def write_pos_assert_def)
qed

section \<open>The snapshot target\<close>

lemma load_only:
  assumes "is_snapshot_file path"
  shows "load_latest crc ser_fields de (Inr (Some [(path, data)])) =
    Inr (case de data of Some s \<Rightarrow> if verify_checksum crc ser_fields s = Inr () then Some s else None | None \<Rightarrow> None)"
  using assms by (simp add: load_latest_def load_from_file_def split: option.split)

lemma recover_without_log:
  assumes "load_latest crc ser_fields de dir = Inr latest" "os (2 ^ 16)"
    and "(case latest of Some s \<Rightarrow> snapshot_restore s cap | None \<Rightarrow> Some (Inr (MatchingEngine_with_capacity cap))) = Some r"
  shows "\<exists>w. recover_with_wal_size crc ser_fields de os True dir [] cap (Some (2 ^ 16)) =
    Some (case r of Inr e \<Rightarrow> Inr (e, w) | Inl e \<Rightarrow> Inl (RSnapshot e)) \<and> w_record_count w = 0"
proof -
  obtain w where w: "open_with_size crc os [] (2 ^ 16) = Some (Inr w)" "wal_ok crc w []"
    using open_exact [of crc "[]" "[]" os 0 "2 ^ 16"] assms(2) by auto
  have "wal_next crc (iter_from w k) = Some (iter_from w k, None)" for k using wal_next_Nil iter_at_from [OF w(2)] by blast
  then have "replay_loop crc (iter_from w k) e n = Some (e, Inr (None, n))" for e n k by (subst replay_loop.simps) simp
  moreover have "w_record_count w = 0" using w(2) by (simp add: wal_ok_def)
  ultimately show ?thesis
    using assms(1,3) w(1) by (cases latest; cases r) (auto simp: recover_with_wal_size_def)
qed

text \<open>
  C37: The snapshot target does not hold on every input. It passes exactly when the file is rejected, by the
  deserializer or by the checksum, or when its orders can be restored: a snapshot that is read and verifies but
  cannot be restored (more orders than the arena holds, or an order twice) ends recovery with an
  error, and neither an older snapshot nor the log alone is tried.
\<close>

theorem fuzz_snapshot_load_iff:
  "fuzz_snapshot_load crc ser_fields de data \<longleftrightarrow>
     (\<forall>s. de data = Some s \<and> verify_checksum crc ser_fields s = Inr () \<longrightarrow> (\<exists>e. snapshot_restore s 1024 = Some (Inr e)))"
proof -
  have "is_snapshot_file ''snapshot_0000000001.bin''" by code_simp
  note load = load_only [OF this, of crc ser_fields de data]
  show ?thesis
  proof (cases "\<exists>s. de data = Some s \<and> verify_checksum crc ser_fields s = Inr ()")
    case False
    then have "load_latest crc ser_fields de (Inr (Some [(''snapshot_0000000001.bin'', data)])) = Inr None"
      using load by (auto split: option.splits)
    from recover_without_log [OF this, of "\<lambda>_. True" 1024] False show ?thesis by (auto simp: fuzz_snapshot_load_def)
  next
    case True
    then obtain s where s: "de data = Some s" "verify_checksum crc ser_fields s = Inr ()" by blast
    then have l: "load_latest crc ser_fields de (Inr (Some [(''snapshot_0000000001.bin'', data)])) = Inr (Some s)"
      using load by simp
    show ?thesis
    proof (cases "snapshot_restore s 1024")
      case None
      then show ?thesis using s l by (simp add: fuzz_snapshot_load_def recover_with_wal_size_def)
    next
      case (Some r)
      then show ?thesis using recover_without_log [OF l, of "\<lambda>_. True" 1024 r] s by (cases r) (auto simp: fuzz_snapshot_load_def)
    qed
  qed
qed

lemma restore_twice:
  assumes "o_quantity x \<noteq> 0" "0 < cap"
  shows "restore_from_orders [x, x] cap = Some (Inl (Book (DuplicateOrderId (o_id x))))"
proof -
  let ?b = "e_book (MatchingEngine_with_capacity cap)"
  have b: "book_ok ?b" "side_orders ?b s = []" "book_capacity ?b = unat cap" for s
    using engine_with_capacity [of cap] by (simp_all add: engine_ok_def engine_view_def fun_eq_iff)
  then have "resting_ids ?b = {}" using resting_ids_side_orders [OF b(1)] by simp
  moreover have "0 < unat cap" using assms(2) by (simp add: word_less_nat_alt)
  ultimately obtain b' where b': "insert_order ?b x = Some (b', Inr ())" "book_ok b'"
    "depth b' = depth_upd (depth ?b) (o_side x) (o_price x) (\<lambda>q. q @ [x])"
    using insert_order_depth [OF b(1) assms(1)] order_count_ids(1) [OF b(1)] b(3) by auto
  have "x \<in> set (depth b' (o_side x) (o_price x))" unfolding b'(3) by (simp add: depth_upd_def)
  then have "o_id x \<in> resting_ids b'" by (auto simp: resting_ids_def)
  then show ?thesis using b'(1) insert_order_errors(1) [OF b'(2)] by (simp add: restore_from_orders_def)
qed

definition ex_twice :: Snapshot where
  "ex_twice = (let x = \<lparr>o_id = 1, o_trader_id = 1, o_side = Bid, o_price = I64 3, o_quantity = 1, o_timestamp = 0\<rparr> in
     \<lparr>s_wal_record_count = 1, s_orders = [x, x], s_best_bid = Some (I64 3), s_best_ask = None,
      s_checksum = compute_checksum ex_sum ex_ser_fields 1 (Some (I64 3)) None [x, x]\<rparr>)"

theorem fuzz_snapshot_load_iff_witness:
  "\<not> fuzz_snapshot_load ex_sum ex_ser_fields ex_de (ex_ser ex_twice) \<and> fuzz_snapshot_load ex_sum ex_ser_fields ex_de []"
proof -
  have "verify_checksum ex_sum ex_ser_fields ex_twice = Inr ()" by (simp add: verify_checksum_def ex_twice_def Let_def)
  moreover have "restore_from_orders (s_orders ex_twice) 1024 = Some (Inl (Book (DuplicateOrderId 1)))"
    by (simp add: ex_twice_def Let_def restore_twice)
  then have "snapshot_restore ex_twice 1024 \<noteq> Some (Inr e)" for e by (simp add: snapshot_restore_def)
  moreover have "ex_de [] = None" by code_simp
  ultimately show ?thesis by (simp add: fuzz_snapshot_load_iff ex_de_ser)
qed

end
