(* ===== verification/AllocTrack.thy ===== *)
theory AllocTrack
  imports Prelude
begin

text \<open>
  \<open>src/alloc_track.rs\<close>: the counting allocator. The statics are a record, and the allocator hooks and the
  two control functions act on it; what \<open>System\<close> does with the memory does not touch the counters and is
  left out. The operations of one thread are modelled, as the load generator's direct mode uses them.

  Shown: the statistics are those of the calls between start and stop, whatever was counted before.
\<close>

record Tracker =
  TRACKING :: bool
  ALLOC_COUNT :: u64
  DEALLOC_COUNT :: u64
  ALLOC_BYTES :: u64

record AllocStats =
  alloc_count :: u64
  dealloc_count :: u64
  alloc_bytes :: u64

definition track_alloc :: "usize \<Rightarrow> Tracker \<Rightarrow> Tracker" where
  "track_alloc layout_size t =
     (if TRACKING t
      then t\<lparr>ALLOC_COUNT := ALLOC_COUNT t + 1, ALLOC_BYTES := ALLOC_BYTES t + layout_size\<rparr>
      else t)"

definition track_dealloc :: "Tracker \<Rightarrow> Tracker" where
  "track_dealloc t = (if TRACKING t then t\<lparr>DEALLOC_COUNT := DEALLOC_COUNT t + 1\<rparr> else t)"

definition start_tracking :: "Tracker \<Rightarrow> Tracker" where
  "start_tracking t = t\<lparr>ALLOC_COUNT := 0, DEALLOC_COUNT := 0, ALLOC_BYTES := 0, TRACKING := True\<rparr>"

definition stop_tracking :: "Tracker \<Rightarrow> Tracker \<times> AllocStats" where
  "stop_tracking t =
     (let t = t\<lparr>TRACKING := False\<rparr>
      in (t, \<lparr>alloc_count = ALLOC_COUNT t, dealloc_count = DEALLOC_COUNT t, alloc_bytes = ALLOC_BYTES t\<rparr>))"

text \<open>The calls a program makes: an allocation with its size, or a deallocation.\<close>

datatype heap_call = Alloc usize | Dealloc

fun heap_run :: "heap_call list \<Rightarrow> Tracker \<Rightarrow> Tracker" where
  "heap_run [] t = t"
| "heap_run (Alloc n # cs) t = heap_run cs (track_alloc n t)"
| "heap_run (Dealloc # cs) t = heap_run cs (track_dealloc t)"

fun alloc_sizes :: "heap_call list \<Rightarrow> usize list" where
  "alloc_sizes [] = []"
| "alloc_sizes (Alloc n # cs) = n # alloc_sizes cs"
| "alloc_sizes (Dealloc # cs) = alloc_sizes cs"

lemma heap_run_tracking:
  "TRACKING t \<Longrightarrow> heap_run cs t =
    t\<lparr>ALLOC_COUNT := ALLOC_COUNT t + word_of_nat (length (alloc_sizes cs)),
      DEALLOC_COUNT := DEALLOC_COUNT t + word_of_nat (length cs - length (alloc_sizes cs)),
      ALLOC_BYTES := ALLOC_BYTES t + sum_list (alloc_sizes cs)\<rparr>"
proof (induction cs arbitrary: t)
  case (Cons c cs)
  have "length (alloc_sizes cs) \<le> length cs" by (induction cs rule: alloc_sizes.induct) auto
  then show ?case using Cons
    by (cases c) (simp_all add: track_alloc_def track_dealloc_def Suc_diff_le algebra_simps)
qed simp

lemma heap_run_off: "\<not> TRACKING t \<Longrightarrow> heap_run cs t = t"
  by (induction cs t rule: heap_run.induct) (auto simp: track_alloc_def track_dealloc_def)

text \<open>
  The allocation statistics are exact, modulo \<open>2 ^ 64\<close>: they count the allocations, their bytes and the
  deallocations between the start and the stop, and nothing from before; after the stop the counters
  no longer move.
\<close>

theorem tracked_between:
  "stop_tracking (heap_run during (start_tracking (heap_run earlier t))) =
     (t', st) \<Longrightarrow>
   alloc_count st = word_of_nat (length (alloc_sizes during)) \<and>
   dealloc_count st = word_of_nat (length during - length (alloc_sizes during)) \<and>
   alloc_bytes st = sum_list (alloc_sizes during) \<and> heap_run later t' = t'"
  by (auto simp: stop_tracking_def start_tracking_def heap_run_tracking heap_run_off)

theorem tracked_between_witness:
  "\<exists>t' st. stop_tracking (heap_run [Alloc 16, Dealloc, Alloc 8] (start_tracking (heap_run [Alloc 4]
       \<lparr>TRACKING = True, ALLOC_COUNT = 0, DEALLOC_COUNT = 0, ALLOC_BYTES = 0\<rparr>))) = (t', st) \<and>
     alloc_count st = 2 \<and> dealloc_count st = 1 \<and> alloc_bytes st = 24"
proof -
  let ?r = "stop_tracking (heap_run [Alloc 16, Dealloc, Alloc 8] (start_tracking (heap_run [Alloc 4]
       \<lparr>TRACKING = True, ALLOC_COUNT = 0, DEALLOC_COUNT = 0, ALLOC_BYTES = 0\<rparr>)))"
  obtain t' st where r: "?r = (t', st)" by (cases ?r)
  from tracked_between [OF r] r show ?thesis by simp
qed

end
