(* ===== verification/RingOrdering.thy ===== *)
theory RingOrdering
  imports RingBuffer
begin

text \<open>
  The ring of \<open>src/ring.rs\<close> on weak memory. Its cursors are atomics whose orderings the build configuration
  picks (\<open>STORE_ORDER\<close>, \<open>LOAD_ORDER\<close>); its slots are plain memory, on which unordered accesses are a data
  race. The machine is the usual operational one for release and acquire: the stores to a cursor form a
  list; a load may return any store not older than what its thread has seen; a release store carries the
  view of its thread, and an acquire load that returns it takes that view over. A view counts the slot
  writes and slot reads known to have happened, and the newest stores seen. A slot access whose latest
  conflicting access is not in the view of the accessing thread sets \<open>w_race\<close>. \<open>SeqCst\<close> is treated as
  release and acquire, which only adds behaviours.

  The \<open>shutdown\<close> flag of \<open>src/gateway.rs\<close> (a release store by the pushing thread after its last push, an
  acquire load by the popping thread) is part of the machine.

  Shown: the ring is free of data races exactly when the orderings are not relaxed, for every capacity, with
  or without cursor caching; it is then first in first out; a popping thread that has seen \<open>shutdown\<close> and
  finds the ring empty has received everything; and the interleavings of \<open>RingBuffer\<close> are among its runs.
\<close>

section \<open>The code\<close>

datatype Ordering = Relaxed | Release | Acquire | SeqCst

record Cfg =
  ring_relaxed_ordering :: bool
  ring_seqcst :: bool
  ring_no_cursor_cache :: bool

text \<open>The \<open>compile_error!\<close> in front of the orderings: which builds there are.\<close>

definition compiles :: "bool \<Rightarrow> bool \<Rightarrow> Cfg \<Rightarrow> bool" where
  "compiles loom ring_allow_unsound cfg = (\<not> (ring_relaxed_ordering cfg \<and> \<not> loom \<and> \<not> ring_allow_unsound))"

definition STORE_ORDER :: "Cfg \<Rightarrow> Ordering" where
  "STORE_ORDER cfg = (if ring_relaxed_ordering cfg then Relaxed else if ring_seqcst cfg then SeqCst else Release)"

definition LOAD_ORDER :: "Cfg \<Rightarrow> Ordering" where
  "LOAD_ORDER cfg = (if ring_relaxed_ordering cfg then Relaxed else if ring_seqcst cfg then SeqCst else Acquire)"

text \<open>The tests at the start of \<open>push\<close> and \<open>pop\<close>, given what the load of the other cursor returns.\<close>

definition reloads_tail :: "Cfg \<Rightarrow> 'a RingBufferInner \<Rightarrow> Producer \<Rightarrow> bool" where
  "reloads_tail cfg r p \<longleftrightarrow>
     ring_no_cursor_cache cfg \<or> p_cached_head p - p_cached_tail p = rb_capacity r"

definition push_test_cfg :: "Cfg \<Rightarrow> usize \<Rightarrow> 'a RingBufferInner \<Rightarrow> Producer \<Rightarrow> Producer \<times> bool" where
  "push_test_cfg cfg tail r p =
     (if reloads_tail cfg r p then
        let p = p\<lparr>p_cached_tail := tail\<rparr>
        in (p, p_cached_head p - p_cached_tail p = rb_capacity r)
      else (p, False))"

definition reloads_head :: "Cfg \<Rightarrow> Consumer \<Rightarrow> bool" where
  "reloads_head cfg c \<longleftrightarrow> ring_no_cursor_cache cfg \<or> c_cached_tail c = c_cached_head c"

definition pop_test_cfg :: "Cfg \<Rightarrow> usize \<Rightarrow> Consumer \<Rightarrow> Consumer \<times> bool" where
  "pop_test_cfg cfg head c =
     (if reloads_head cfg c then
        let c = c\<lparr>c_cached_head := head\<rparr>
        in (c, c_cached_tail c = c_cached_head c)
      else (c, False))"

section \<open>The machine\<close>

definition releases :: "Ordering \<Rightarrow> bool" where
  "releases x \<longleftrightarrow> x = Release \<or> x = SeqCst"

definition acquires :: "Ordering \<Rightarrow> bool" where
  "acquires x \<longleftrightarrow> x = Acquire \<or> x = SeqCst"

record View =
  k_writes :: nat
  k_reads :: nat
  k_head :: nat
  k_tail :: nat

definition no_view :: View where
  "no_view = \<lparr>k_writes = 0, k_reads = 0, k_head = 0, k_tail = 0\<rparr>"

definition view_join :: "View \<Rightarrow> View \<Rightarrow> View" where
  "view_join a b = \<lparr>k_writes = max (k_writes a) (k_writes b), k_reads = max (k_reads a) (k_reads b),
     k_head = max (k_head a) (k_head b), k_tail = max (k_tail a) (k_tail b)\<rparr>"

record Msg =
  g_value :: usize
  g_view :: View

definition store_msg :: "Ordering \<Rightarrow> usize \<Rightarrow> View \<Rightarrow> Msg" where
  "store_msg ord x v = \<lparr>g_value = x, g_view = if releases ord then v else no_view\<rparr>"

definition load_view :: "Ordering \<Rightarrow> Msg \<Rightarrow> View \<Rightarrow> View" where
  "load_view ord g v = (if acquires ord then view_join v (g_view g) else v)"

text \<open>
  The threads and the ring as in \<open>RingBuffer\<close>, whose cursors hold the newest stores; all stores to the
  two cursors; the views; for every slot the number of its last write and of its last read; and the flag
  with the view it was stored with, and whether the popping thread has seen it.
\<close>

record 'a Weak =
  w_sys :: "'a Sys"
  w_heads :: "Msg list"
  w_tails :: "Msg list"
  w_pview :: View
  w_cview :: View
  w_written :: "nat list"
  w_taken :: "nat list"
  w_race :: bool
  w_shutdown :: "View option"
  w_stopping :: bool

abbreviation w_ring :: "'a Weak \<Rightarrow> 'a RingBufferInner" where "w_ring w \<equiv> y_ring (w_sys w)"
abbreviation w_prod :: "'a Weak \<Rightarrow> Producer" where "w_prod w \<equiv> y_prod (w_sys w)"
abbreviation w_cons :: "'a Weak \<Rightarrow> Consumer" where "w_cons w \<equiv> y_cons (w_sys w)"

definition push_slot :: "'a Weak \<Rightarrow> nat" where "push_slot w = slot_index (w_ring w) (p_cached_head (w_prod w))"
definition pop_slot :: "'a Weak \<Rightarrow> nat" where "pop_slot w = slot_index (w_ring w) (c_cached_tail (w_cons w))"

inductive weak_step :: "Cfg \<Rightarrow> 'a Weak \<Rightarrow> 'a Weak \<Rightarrow> bool" for cfg where
  p_test: "y_ppc (w_sys w) = P_Idle \<Longrightarrow> w_shutdown w = None \<Longrightarrow>
    k_tail (w_pview w) \<le> i \<Longrightarrow> i < length (w_tails w) \<Longrightarrow>
    push_test_cfg cfg (g_value (w_tails w ! i)) (w_ring w) (w_prod w) = (p, full) \<Longrightarrow>
    weak_step cfg w (w\<lparr>
      w_sys := (w_sys w)\<lparr>y_prod := p, y_ppc := if full then P_Idle else P_Write v\<rparr>,
      w_pview := if reloads_tail cfg (w_ring w) (w_prod w)
        then (let u = load_view (LOAD_ORDER cfg) (w_tails w ! i) (w_pview w) in u\<lparr>k_tail := max i (k_tail u)\<rparr>)
        else w_pview w\<rparr>)"
| p_write: "y_ppc (w_sys w) = P_Write v \<Longrightarrow>
    slot_write (w_ring w) (p_cached_head (w_prod w)) v = Some r \<Longrightarrow>
    weak_step cfg w (w\<lparr>
      w_sys := (w_sys w)\<lparr>y_ring := r, y_ppc := P_Publish, y_sent := y_sent (w_sys w) @ [v]\<rparr>,
      w_race := w_race w \<or> w_taken w ! push_slot w > k_reads (w_pview w),
      w_written := (w_written w)[push_slot w := k_writes (w_pview w) + 1],
      w_pview := (w_pview w)\<lparr>k_writes := k_writes (w_pview w) + 1\<rparr>\<rparr>)"
| p_publish: "y_ppc (w_sys w) = P_Publish \<Longrightarrow> push_publish (w_ring w) (w_prod w) = (r, p) \<Longrightarrow>
    u = (w_pview w)\<lparr>k_head := length (w_heads w)\<rparr> \<Longrightarrow>
    weak_step cfg w (w\<lparr>
      w_sys := (w_sys w)\<lparr>y_ring := r, y_prod := p, y_ppc := P_Idle\<rparr>,
      w_pview := u, w_heads := w_heads w @ [store_msg (STORE_ORDER cfg) (rb_head r) u]\<rparr>)"
| c_test: "y_cpc (w_sys w) = C_Idle \<Longrightarrow> k_head (w_cview w) \<le> i \<Longrightarrow> i < length (w_heads w) \<Longrightarrow>
    pop_test_cfg cfg (g_value (w_heads w ! i)) (w_cons w) = (c, is_empty) \<Longrightarrow>
    weak_step cfg w (w\<lparr>
      w_sys := (w_sys w)\<lparr>y_cons := c, y_cpc := if is_empty then C_Idle else C_Read\<rparr>,
      w_cview := if reloads_head cfg (w_cons w)
        then (let u = load_view (LOAD_ORDER cfg) (w_heads w ! i) (w_cview w) in u\<lparr>k_head := max i (k_head u)\<rparr>)
        else w_cview w\<rparr>)"
| c_read: "y_cpc (w_sys w) = C_Read \<Longrightarrow>
    slot_read (w_ring w) (c_cached_tail (w_cons w)) = Some (r, v) \<Longrightarrow>
    weak_step cfg w (w\<lparr>
      w_sys := (w_sys w)\<lparr>y_ring := r, y_cpc := C_Publish, y_recv := y_recv (w_sys w) @ [v]\<rparr>,
      w_race := w_race w \<or> w_written w ! pop_slot w > k_writes (w_cview w),
      w_taken := (w_taken w)[pop_slot w := k_reads (w_cview w) + 1],
      w_cview := (w_cview w)\<lparr>k_reads := k_reads (w_cview w) + 1\<rparr>\<rparr>)"
| c_publish: "y_cpc (w_sys w) = C_Publish \<Longrightarrow> pop_publish (w_ring w) (w_cons w) = (r, c) \<Longrightarrow>
    u = (w_cview w)\<lparr>k_tail := length (w_tails w)\<rparr> \<Longrightarrow>
    weak_step cfg w (w\<lparr>
      w_sys := (w_sys w)\<lparr>y_ring := r, y_cons := c, y_cpc := C_Idle\<rparr>,
      w_cview := u, w_tails := w_tails w @ [store_msg (STORE_ORDER cfg) (rb_tail r) u]\<rparr>)"
| shutdown_store: "y_ppc (w_sys w) = P_Idle \<Longrightarrow>
    weak_step cfg w (w\<lparr>w_shutdown := Some (w_pview w)\<rparr>)"
| shutdown_load: "y_cpc (w_sys w) = C_Idle \<Longrightarrow> w_shutdown w = Some u \<Longrightarrow>
    weak_step cfg w (w\<lparr>w_cview := view_join (w_cview w) u, w_stopping := True\<rparr>)"

definition weak_start :: "'a Ring \<Rightarrow> 'a Weak" where
  "weak_start x = \<lparr>w_sys = start x,
     w_heads = [\<lparr>g_value = 0, g_view = no_view\<rparr>], w_tails = [\<lparr>g_value = 0, g_view = no_view\<rparr>],
     w_pview = no_view, w_cview = no_view,
     w_written = replicate (length (rb_buffer (fst x))) 0, w_taken = replicate (length (rb_buffer (fst x))) 0,
     w_race = False, w_shutdown = None, w_stopping = False\<rparr>"

inductive weak_reachable :: "Cfg \<Rightarrow> usize \<Rightarrow> 'a Weak \<Rightarrow> bool" for cfg capacity where
  init: "ring_buffer capacity = Some x \<Longrightarrow> weak_reachable cfg capacity (weak_start x)"
| step: "weak_reachable cfg capacity w \<Longrightarrow> weak_step cfg w w' \<Longrightarrow> weak_reachable cfg capacity w'"

section \<open>Views, stores and slots\<close>

definition view_le :: "View \<Rightarrow> View \<Rightarrow> bool" where
  "view_le a b \<longleftrightarrow> k_writes a \<le> k_writes b \<and> k_reads a \<le> k_reads b \<and> k_head a \<le> k_head b \<and> k_tail a \<le> k_tail b"

lemma view_le_simps [simp]: "view_le v v" "view_le no_view v"
  by (simp_all add: view_le_def no_view_def)

lemma view_le_trans: "view_le a b \<Longrightarrow> view_le b c \<Longrightarrow> view_le a c"
  by (auto simp: view_le_def)

lemma view_join_le: "view_le (view_join a b) c \<longleftrightarrow> view_le a c \<and> view_le b c"
  by (auto simp: view_le_def view_join_def)

lemma view_join_sel [simp]:
  "k_writes (view_join a b) = max (k_writes a) (k_writes b)" "k_reads (view_join a b) = max (k_reads a) (k_reads b)"
  "k_head (view_join a b) = max (k_head a) (k_head b)" "k_tail (view_join a b) = max (k_tail a) (k_tail b)"
  by (simp_all add: view_join_def)

text \<open>
  The stores to a cursor that has been advanced \<open>n\<close> times: the value of each is its position, and whoever
  takes over its view knows of at least as many accesses of the kind \<open>f\<close>.
\<close>

definition stores_ok :: "(View \<Rightarrow> nat) \<Rightarrow> Msg list \<Rightarrow> nat \<Rightarrow> bool" where
  "stores_ok f gs n \<longleftrightarrow> length gs = Suc n \<and> (\<forall>i\<le>n. g_value (gs ! i) = word_of_nat i \<and> i \<le> f (g_view (gs ! i)))"

lemma stores_ok_snoc:
  "stores_ok f gs n \<Longrightarrow> g_value g = word_of_nat (Suc n) \<Longrightarrow> Suc n \<le> f (g_view g) \<Longrightarrow> stores_ok f (gs @ [g]) (Suc n)"
  by (auto simp: stores_ok_def nth_append le_Suc_eq)

text \<open>The numbers of the last accesses to \<open>n\<close> slots, when access \<open>j\<close> goes to slot \<open>j mod n\<close> and \<open>m\<close> have been made.\<close>

definition marks_ok :: "nat list \<Rightarrow> nat \<Rightarrow> nat \<Rightarrow> bool" where
  "marks_ok ms n m \<longleftrightarrow> length ms = n \<and> (\<forall>i<n. ms ! i = 0 \<or> (\<exists>j<m. ms ! i = Suc j \<and> j mod n = i))"

lemma marks_ok_upd:
  assumes "marks_ok ms n m"
  shows "marks_ok (ms[m mod n := Suc m]) n (Suc m)"
proof -
  have "(ms[m mod n := Suc m]) ! i = 0 \<or> (\<exists>j<Suc m. (ms[m mod n := Suc m]) ! i = Suc j \<and> j mod n = i)" if "i < n" for i
  proof (cases "i = m mod n")
    case False
    then have "(ms[m mod n := Suc m]) ! i = ms ! i" by simp
    then show ?thesis using assms that by (auto simp: marks_ok_def less_Suc_eq)
  qed (use assms that in \<open>auto simp: marks_ok_def\<close>)
  then show ?thesis using assms by (simp add: marks_ok_def)
qed

lemma marks_okD: "marks_ok ms n m \<Longrightarrow> 0 < n \<Longrightarrow> ms ! (x mod n) = 0 \<or> (\<exists>j<m. ms ! (x mod n) = Suc j \<and> j mod n = x mod n)"
  by (simp add: marks_ok_def)

lemma same_slot:
  fixes i j n :: nat
  assumes "i mod n = j mod n" "i < j"
  shows "i + n \<le> j"
  using assms mod_window [of i j n] by force

lemma marks_ok_older:
  assumes "marks_ok ms n m" "0 < n" "m \<le> x" "ms ! (x mod n) \<noteq> 0"
  shows "ms ! (x mod n) + n \<le> Suc x"
proof -
  obtain j where "j < m" "ms ! (x mod n) = Suc j" "j mod n = x mod n"
    using marks_okD [OF assms(1,2), of x] assms(4) by blast
  then show ?thesis using same_slot [of j n x] assms(3) by simp
qed

lemma marks_ok_current:
  assumes "marks_ok ms n m" "0 < n" "m \<le> x + n"
  shows "ms ! (x mod n) \<le> Suc x"
proof (rule ccontr)
  assume late: "\<not> ?thesis"
  then obtain j where "j < m" "ms ! (x mod n) = Suc j" "j mod n = x mod n"
    using marks_okD [OF assms(1,2), of x] by (metis Suc_le_mono le0)
  then show False using same_slot [of x n j] late assms(3) by simp
qed

section \<open>The invariant\<close>

text \<open>Everything that has happened, as a view.\<close>

definition all_seen :: "'a Sys \<Rightarrow> View" where
  "all_seen y = \<lparr>k_writes = length (y_sent y), k_reads = length (y_recv y), k_head = published y, k_tail = released y\<rparr>"

definition views_ok :: "'a Weak \<Rightarrow> bool" where
  "views_ok w \<longleftrightarrow> (\<forall>u\<in>{w_pview w, w_cview w} \<union> g_view ` set (w_heads w) \<union> g_view ` set (w_tails w) \<union> set_option (w_shutdown w).
     view_le u (all_seen (w_sys w)))"

definition producer_ok :: "nat \<Rightarrow> 'a Weak \<Rightarrow> bool" where
  "producer_ok k w \<longleftrightarrow> k_writes (w_pview w) = length (y_sent (w_sys w)) \<and> k_head (w_pview w) = published (w_sys w) \<and>
     (\<exists>ct. p_cached_tail (w_prod w) = word_of_nat ct \<and> ct \<le> k_tail (w_pview w) \<and> ct \<le> k_reads (w_pview w) \<and>
        length (y_sent (w_sys w)) \<le> ct + 2 ^ k \<and>
        ((\<exists>v. y_ppc (w_sys w) = P_Write v) \<longrightarrow> length (y_sent (w_sys w)) < ct + 2 ^ k))"

definition consumer_ok :: "'a Weak \<Rightarrow> bool" where
  "consumer_ok w \<longleftrightarrow> k_reads (w_cview w) = length (y_recv (w_sys w)) \<and> k_tail (w_cview w) = released (w_sys w) \<and>
     (\<exists>ch. c_cached_head (w_cons w) = word_of_nat ch \<and> ch \<le> k_head (w_cview w) \<and> ch \<le> k_writes (w_cview w) \<and>
        length (y_recv (w_sys w)) \<le> ch \<and> (y_cpc (w_sys w) = C_Read \<longrightarrow> length (y_recv (w_sys w)) < ch))"

definition memory_ok :: "nat \<Rightarrow> 'a Weak \<Rightarrow> bool" where
  "memory_ok k w \<longleftrightarrow> stores_ok k_writes (w_heads w) (published (w_sys w)) \<and>
     stores_ok k_reads (w_tails w) (released (w_sys w)) \<and>
     marks_ok (w_written w) (2 ^ k) (length (y_sent (w_sys w))) \<and>
     marks_ok (w_taken w) (2 ^ k) (length (y_recv (w_sys w)))"

definition shutdown_ok :: "'a Weak \<Rightarrow> bool" where
  "shutdown_ok w \<longleftrightarrow> (case w_shutdown w of
     None \<Rightarrow> \<not> w_stopping w
   | Some u \<Rightarrow> y_ppc (w_sys w) = P_Idle \<and> k_head u = published (w_sys w) \<and>
       (w_stopping w \<longrightarrow> k_head (w_cview w) = published (w_sys w)))"

definition weak_inv :: "nat \<Rightarrow> 'a Weak \<Rightarrow> bool" where
  "weak_inv k w \<longleftrightarrow> inv k (w_sys w) \<and> views_ok w \<and> producer_ok k w \<and> consumer_ok w \<and> memory_ok k w \<and>
     shutdown_ok w \<and> \<not> w_race w"

lemmas weak_invs = weak_inv_def producer_ok_def consumer_ok_def memory_ok_def shutdown_ok_def

lemma weak_inv_start:
  assumes "ring_buffer capacity = Some x"
  shows "\<exists>k. weak_inv k (weak_start x) \<and> capacity = 2 ^ k"
proof -
  obtain k where k: "inv k (start x)" "capacity = 2 ^ k" using inv_start [OF assms] by blast
  have x: "length (rb_buffer (fst x)) = 2 ^ k"
    using k(1) by (cases x) (simp add: inv_def live_def start_def)
  have "producer_ok k (weak_start x)" "consumer_ok (weak_start x)" "shutdown_ok (weak_start x)" "views_ok (weak_start x)"
    using assms
    by (auto simp: ring_buffer_def weak_start_def start_def producer_ok_def consumer_ok_def shutdown_ok_def views_ok_def
        published_def released_def split: if_splits) (simp_all add: no_view_def)
  moreover have "memory_ok k (weak_start x)"
    by (cases x) (use x in \<open>simp add: memory_ok_def weak_start_def start_def stores_ok_def marks_ok_def published_def released_def\<close>)
  ultimately show ?thesis using k by (auto simp: weak_inv_def weak_start_def)
qed

section \<open>Every step keeps the invariant\<close>

lemma inv_cached_tail:
  assumes "inv k y" "y_ppc y = P_Idle" "p_cached_head p = p_cached_head (y_prod y)" "p_cached_tail p = word_of_nat ct"
    and "ct \<le> released y" "length (y_sent y) \<le> ct + 2 ^ k" "\<not> full \<Longrightarrow> length (y_sent y) < ct + 2 ^ k"
  shows "inv k (y\<lparr>y_prod := p, y_ppc := if full then P_Idle else P_Write v\<rparr>)"
  using assms by (auto simp: inv_def published_def released_def)

lemma inv_cached_head:
  assumes "inv k y" "y_cpc y = C_Idle" "c_cached_tail c = c_cached_tail (y_cons y)" "c_cached_head c = word_of_nat ch"
    and "ch \<le> published y" "length (y_recv y) \<le> ch" "\<not> is_empty \<Longrightarrow> length (y_recv y) < ch"
  shows "inv k (y\<lparr>y_cons := c, y_cpc := if is_empty then C_Idle else C_Read\<rparr>)"
  using assms by (auto simp: inv_def published_def released_def)

text \<open>What a load of a cursor gives a thread, with orderings that are not relaxed.\<close>

definition sound :: "Cfg \<Rightarrow> bool" where
  "sound cfg \<longleftrightarrow> \<not> ring_relaxed_ordering cfg"

lemma sound_orders: "sound cfg \<Longrightarrow> releases (STORE_ORDER cfg)" "sound cfg \<Longrightarrow> acquires (LOAD_ORDER cfg)"
  by (simp_all add: sound_def STORE_ORDER_def LOAD_ORDER_def releases_def acquires_def)

lemma push_test_at:
  assumes "push_test_cfg cfg (word_of_nat j) (y_ring y) (y_prod y) = (p, full)" "inv k y" "y_ppc y = P_Idle"
    and "p_cached_tail (y_prod y) = word_of_nat ct" "ct \<le> j" "j \<le> released y" "length (y_sent y) \<le> ct + 2 ^ k"
  defines "ct' \<equiv> if reloads_tail cfg (y_ring y) (y_prod y) then j else ct"
  shows "p_cached_head p = p_cached_head (y_prod y)" "p_cached_tail p = word_of_nat ct'"
    "length (y_sent y) \<le> ct' + 2 ^ k" "\<not> full \<Longrightarrow> length (y_sent y) < ct' + 2 ^ k"
proof -
  let ?m = "length (y_sent y)"
  have i: "k < 64" "rb_capacity (y_ring y) = 2 ^ k" "p_cached_head (y_prod y) = word_of_nat ?m" "released y \<le> ?m"
    using assms(2,3) by (auto simp: inv_def live_def published_def released_def)
  have t: "(word_of_nat ?m - word_of_nat x :: u64) = 2 ^ k \<longleftrightarrow> ?m = x + 2 ^ k" if "ct \<le> x" "x \<le> released y" for x
    using that i(1,4) assms(7) by (intro full_test) auto
  show "p_cached_head p = p_cached_head (y_prod y)" "p_cached_tail p = word_of_nat ct'"
    "?m \<le> ct' + 2 ^ k" "\<not> full \<Longrightarrow> ?m < ct' + 2 ^ k"
    using assms(1,4-7) i(2,3) t [of ct] t [of j]
    by (auto simp: push_test_cfg_def reloads_tail_def ct'_def Let_def split: if_splits)
qed

lemma pop_test_at:
  assumes "pop_test_cfg cfg (word_of_nat j) (y_cons y) = (c, is_empty)" "inv k y" "y_cpc y = C_Idle"
    and "c_cached_head (y_cons y) = word_of_nat ch" "ch \<le> j" "j \<le> published y" "length (y_recv y) \<le> ch"
  defines "ch' \<equiv> if reloads_head cfg (y_cons y) then j else ch"
  shows "c_cached_tail c = c_cached_tail (y_cons y)" "c_cached_head c = word_of_nat ch'"
    "length (y_recv y) \<le> ch'" "\<not> is_empty \<Longrightarrow> length (y_recv y) < ch'" "is_empty \<Longrightarrow> length (y_recv y) = j"
proof -
  let ?n = "length (y_recv y)"
  have i: "k < 64" "c_cached_tail (y_cons y) = word_of_nat ?n" "published y \<le> ?n + 2 ^ k"
    using assms(2,3) by (auto simp: inv_def live_def published_def released_def)
  have t: "(word_of_nat ?n :: u64) = word_of_nat x \<longleftrightarrow> ?n = x" if "?n \<le> x" "x \<le> published y" for x
    using that i(3) pow_less_64 [OF i(1)] by (intro cursor_eq) linarith+
  show "c_cached_tail c = c_cached_tail (y_cons y)" "c_cached_head c = word_of_nat ch'"
    "?n \<le> ch'" "\<not> is_empty \<Longrightarrow> ?n < ch'" "is_empty \<Longrightarrow> ?n = j"
    using assms(1,4-7) i(2) t [of ch] t [of j]
    by (auto simp: pop_test_cfg_def reloads_head_def ch'_def Let_def split: if_splits)
qed

lemma stores_okD:
  assumes "stores_ok f gs n" "i < length gs"
  shows "i \<le> n" "g_value (gs ! i) = word_of_nat i" "i \<le> f (g_view (gs ! i))" "gs ! i \<in> set gs"
  using assms by (auto simp: stores_ok_def)

lemma weak_p_test:
  assumes "weak_inv k w" "sound cfg" "y_ppc (w_sys w) = P_Idle" "w_shutdown w = None"
    and i: "k_tail (w_pview w) \<le> i" "i < length (w_tails w)"
    and test: "push_test_cfg cfg (g_value (w_tails w ! i)) (w_ring w) (w_prod w) = (p, full)"
  shows "weak_inv k (w\<lparr>
      w_sys := (w_sys w)\<lparr>y_prod := p, y_ppc := if full then P_Idle else P_Write v\<rparr>,
      w_pview := if reloads_tail cfg (w_ring w) (w_prod w)
        then (let u = load_view (LOAD_ORDER cfg) (w_tails w ! i) (w_pview w) in u\<lparr>k_tail := max i (k_tail u)\<rparr>)
        else w_pview w\<rparr>)"
    (is "weak_inv k (w\<lparr>w_sys := ?y, w_pview := ?u\<rparr>)")
proof -
  have tails: "stores_ok k_reads (w_tails w) (released (w_sys w))" using assms(1) by (simp add: weak_invs)
  note msg = stores_okD [OF tails i(2)]
  obtain ct where ct: "p_cached_tail (w_prod w) = word_of_nat ct" "ct \<le> k_tail (w_pview w)" "ct \<le> k_reads (w_pview w)"
    "length (y_sent (w_sys w)) \<le> ct + 2 ^ k" using assms(1) by (auto simp: weak_invs)
  have y: "inv k (w_sys w)" using assms(1) by (simp add: weak_inv_def)
  define ct' where "ct' = (if reloads_tail cfg (w_ring w) (w_prod w) then i else ct)"
  have ct'_le: "ct' \<le> released (w_sys w)" using msg(1) ct(2) i(1) by (simp add: ct'_def)
  note t = push_test_at [OF test [unfolded msg(2)] y assms(3) ct(1) _ msg(1) ct(4), folded ct'_def]
  have le: "ct \<le> i" using ct(2) i(1) by simp
  have inv': "inv k ?y" using t(1,2,3,4) [OF le] ct'_le by (intro inv_cached_tail [OF y assms(3)]) auto
  have seen: "all_seen ?y = all_seen (w_sys w)" "published ?y = published (w_sys w)" "released ?y = released (w_sys w)"
    using assms(3) by (simp_all add: all_seen_def published_def released_def)
  have "view_le (w_pview w) (all_seen (w_sys w))" "view_le (g_view (w_tails w ! i)) (all_seen (w_sys w))"
    using assms(1) msg(4) by (auto simp: weak_inv_def views_ok_def)
  then have u: "view_le ?u (all_seen (w_sys w))" "k_writes ?u = k_writes (w_pview w)" "k_head ?u = k_head (w_pview w)"
    "ct' \<le> k_tail ?u" "ct' \<le> k_reads ?u"
    using msg(1,3) ct(2,3) sound_orders(2) [OF assms(2)] assms(1) i(1)
    by (auto simp: load_view_def Let_def view_le_def ct'_def all_seen_def weak_invs)
  have "views_ok (w\<lparr>w_sys := ?y, w_pview := ?u\<rparr>)"
    using assms(1,4) seen(1) u(1) by (auto simp: weak_inv_def views_ok_def)
  moreover have "producer_ok k (w\<lparr>w_sys := ?y, w_pview := ?u\<rparr>)"
    using assms(1) seen u(2-5) t(2,3,4) [OF le] by (auto simp: weak_invs)
  ultimately show ?thesis using assms(1,4) inv' seen by (auto simp: weak_invs)
qed

lemma weak_p_write:
  assumes "weak_inv k w" "y_ppc (w_sys w) = P_Write v" "slot_write (w_ring w) (p_cached_head (w_prod w)) v = Some r"
  shows "weak_inv k (w\<lparr>
      w_sys := (w_sys w)\<lparr>y_ring := r, y_ppc := P_Publish, y_sent := y_sent (w_sys w) @ [v]\<rparr>,
      w_race := w_race w \<or> w_taken w ! push_slot w > k_reads (w_pview w),
      w_written := (w_written w)[push_slot w := k_writes (w_pview w) + 1],
      w_pview := (w_pview w)\<lparr>k_writes := k_writes (w_pview w) + 1\<rparr>\<rparr>)"
    (is "weak_inv k (w\<lparr>w_sys := ?y, w_race := ?race, w_written := ?ms, w_pview := ?u\<rparr>)")
proof -
  let ?m = "length (y_sent (w_sys w))"
  have y: "inv k (w_sys w)" using assms(1) by (simp add: weak_inv_def)
  obtain ct where ct: "p_cached_tail (w_prod w) = word_of_nat ct" "ct \<le> k_tail (w_pview w)" "ct \<le> k_reads (w_pview w)"
    "?m < ct + 2 ^ k" using assms(1,2) by (auto simp: weak_invs)
  have slot: "push_slot w = ?m mod 2 ^ k" using producer_slot(1) [OF y assms(2)] by (simp add: push_slot_def)
  have marks: "marks_ok (w_taken w) (2 ^ k) (length (y_recv (w_sys w)))" "length (y_recv (w_sys w)) \<le> ?m"
    using assms(1) y by (auto simp: weak_invs inv_def live_def)
  then have "\<not> ?race"
    using assms(1) marks_ok_older [OF marks(1) _ marks(2)] ct(3,4) by (fastforce simp: weak_inv_def slot)
  moreover have "marks_ok ?ms (2 ^ k) (Suc ?m)"
    using assms(1) marks_ok_upd [of "w_written w" "2 ^ k" ?m] by (simp add: weak_invs slot)
  moreover have seen: "published ?y = published (w_sys w)" "released ?y = released (w_sys w)" "view_le (all_seen (w_sys w)) (all_seen ?y)"
    using assms(2) by (simp_all add: published_def released_def all_seen_def view_le_def)
  moreover have "view_le ?u (all_seen ?y)"
    using assms(1) seen by (auto simp: weak_invs views_ok_def view_le_def all_seen_def)
  moreover have "inv k ?y" by (rule inv_push_write [OF y assms(2,3)])
  ultimately show ?thesis
    using assms(1,2) ct by (auto simp: weak_invs views_ok_def intro: view_le_trans split: option.splits)
qed

lemma weak_p_publish:
  assumes "weak_inv k w" "sound cfg" "y_ppc (w_sys w) = P_Publish" "push_publish (w_ring w) (w_prod w) = (r, p)"
    and u: "u = (w_pview w)\<lparr>k_head := length (w_heads w)\<rparr>"
  shows "weak_inv k (w\<lparr>w_sys := (w_sys w)\<lparr>y_ring := r, y_prod := p, y_ppc := P_Idle\<rparr>,
      w_pview := u, w_heads := w_heads w @ [store_msg (STORE_ORDER cfg) (rb_head r) u]\<rparr>)"
    (is "weak_inv k (w\<lparr>w_sys := ?y, w_pview := u, w_heads := w_heads w @ [?g]\<rparr>)")
proof -
  let ?m = "length (y_sent (w_sys w))"
  have y: "inv k (w_sys w)" using assms(1) by (simp add: weak_inv_def)
  then have m: "published (w_sys w) + 1 = ?m" using assms(3) by (cases ?m) (auto simp: inv_def published_def)
  have inv': "inv k ?y" by (rule inv_push_publish [OF y assms(3,4)])
  have pub: "published ?y = ?m" by (simp add: published_def)
  then have head: "rb_head r = word_of_nat ?m" using inv' by (simp add: inv_def)
  have rel: "released ?y = released (w_sys w)" by (simp add: released_def)
  have heads: "stores_ok k_writes (w_heads w) (published (w_sys w))" using assms(1) by (simp add: weak_invs)
  have up: "k_writes u = ?m" "k_head u = ?m" "k_tail u = k_tail (w_pview w)" "k_reads u = k_reads (w_pview w)"
    using assms(1) heads m by (auto simp: u weak_invs stores_ok_def)
  have g: "g_view ?g = u" "g_value ?g = word_of_nat ?m" using sound_orders(1) [OF assms(2)] head by (simp_all add: store_msg_def)
  have "Suc (published (w_sys w)) = ?m" using m by simp
  then have "stores_ok k_writes (w_heads w @ [?g]) ?m"
    using stores_ok_snoc [OF heads, of ?g] g up(1) by (simp del: of_nat_Suc)
  moreover have seen: "view_le (all_seen (w_sys w)) (all_seen ?y)"
    using m pub rel by (simp add: view_le_def all_seen_def)
  moreover have "view_le u (all_seen ?y)"
    using assms(1) pub rel up by (auto simp: weak_invs views_ok_def view_le_def all_seen_def)
  moreover have "p_cached_tail p = p_cached_tail (w_prod w)" using assms(4) by (auto simp: push_publish_def)
  moreover have "w_shutdown w = None" using assms(1,3) by (auto simp: weak_invs split: option.splits)
  ultimately show ?thesis
    using assms(1) inv' pub rel up g(1) m by (auto simp: weak_invs views_ok_def intro: view_le_trans)
qed

lemma weak_c_test:
  assumes "weak_inv k w" "sound cfg" "y_cpc (w_sys w) = C_Idle"
    and i: "k_head (w_cview w) \<le> i" "i < length (w_heads w)"
    and test: "pop_test_cfg cfg (g_value (w_heads w ! i)) (w_cons w) = (c, is_empty)"
  shows "weak_inv k (w\<lparr>
      w_sys := (w_sys w)\<lparr>y_cons := c, y_cpc := if is_empty then C_Idle else C_Read\<rparr>,
      w_cview := if reloads_head cfg (w_cons w)
        then (let u = load_view (LOAD_ORDER cfg) (w_heads w ! i) (w_cview w) in u\<lparr>k_head := max i (k_head u)\<rparr>)
        else w_cview w\<rparr>)"
    (is "weak_inv k (w\<lparr>w_sys := ?y, w_cview := ?u\<rparr>)")
    and "is_empty \<Longrightarrow> length (y_recv (w_sys w)) = i"
proof -
  have heads: "stores_ok k_writes (w_heads w) (published (w_sys w))" using assms(1) by (simp add: weak_invs)
  note msg = stores_okD [OF heads i(2)]
  obtain ch where ch: "c_cached_head (w_cons w) = word_of_nat ch" "ch \<le> k_head (w_cview w)" "ch \<le> k_writes (w_cview w)"
    "length (y_recv (w_sys w)) \<le> ch" using assms(1) by (auto simp: weak_invs)
  have y: "inv k (w_sys w)" using assms(1) by (simp add: weak_inv_def)
  define ch' where "ch' = (if reloads_head cfg (w_cons w) then i else ch)"
  have ch'_le: "ch' \<le> published (w_sys w)" using msg(1) ch(2) i(1) by (simp add: ch'_def)
  have le: "ch \<le> i" using ch(2) i(1) by simp
  note t = pop_test_at [OF test [unfolded msg(2)] y assms(3) ch(1) le msg(1) ch(4), folded ch'_def]
  show "is_empty \<Longrightarrow> length (y_recv (w_sys w)) = i" by (rule t(5))
  have inv': "inv k ?y" using t(1-4) ch'_le by (intro inv_cached_head [OF y assms(3)]) auto
  have seen: "all_seen ?y = all_seen (w_sys w)" "published ?y = published (w_sys w)" "released ?y = released (w_sys w)"
    using assms(3) by (simp_all add: all_seen_def published_def released_def)
  have "view_le (w_cview w) (all_seen (w_sys w))" "view_le (g_view (w_heads w ! i)) (all_seen (w_sys w))"
    using assms(1) msg(4) by (auto simp: weak_inv_def views_ok_def)
  then have u: "view_le ?u (all_seen (w_sys w))" "k_reads ?u = k_reads (w_cview w)" "k_tail ?u = k_tail (w_cview w)"
    "ch' \<le> k_head ?u" "ch' \<le> k_writes ?u" "k_head (w_cview w) \<le> k_head ?u"
    using msg(1,3) ch(2,3) sound_orders(2) [OF assms(2)] assms(1) i(1)
    by (auto simp: load_view_def Let_def view_le_def ch'_def all_seen_def weak_invs)
  have "views_ok (w\<lparr>w_sys := ?y, w_cview := ?u\<rparr>)"
    using assms(1) seen(1) u(1) by (auto simp: weak_inv_def views_ok_def)
  moreover have "consumer_ok (w\<lparr>w_sys := ?y, w_cview := ?u\<rparr>)"
    using assms(1) seen u(2-5) t(2-4) by (auto simp: weak_invs)
  moreover have "k_head ?u \<le> published (w_sys w)" using u(1) by (simp add: view_le_def all_seen_def)
  then have "shutdown_ok (w\<lparr>w_sys := ?y, w_cview := ?u\<rparr>)"
    using assms(1) seen u(6) by (auto simp: weak_invs split: option.splits)
  ultimately show "weak_inv k (w\<lparr>w_sys := ?y, w_cview := ?u\<rparr>)"
    using assms(1) inv' seen by (auto simp: weak_inv_def producer_ok_def memory_ok_def)
qed

lemma weak_c_read:
  assumes "weak_inv k w" "y_cpc (w_sys w) = C_Read" "slot_read (w_ring w) (c_cached_tail (w_cons w)) = Some (r, v)"
  shows "weak_inv k (w\<lparr>
      w_sys := (w_sys w)\<lparr>y_ring := r, y_cpc := C_Publish, y_recv := y_recv (w_sys w) @ [v]\<rparr>,
      w_race := w_race w \<or> w_written w ! pop_slot w > k_writes (w_cview w),
      w_taken := (w_taken w)[pop_slot w := k_reads (w_cview w) + 1],
      w_cview := (w_cview w)\<lparr>k_reads := k_reads (w_cview w) + 1\<rparr>\<rparr>)"
    (is "weak_inv k (w\<lparr>w_sys := ?y, w_race := ?race, w_taken := ?ms, w_cview := ?u\<rparr>)")
proof -
  let ?n = "length (y_recv (w_sys w))"
  have y: "inv k (w_sys w)" using assms(1) by (simp add: weak_inv_def)
  obtain ch where ch: "c_cached_head (w_cons w) = word_of_nat ch" "ch \<le> k_head (w_cview w)" "ch \<le> k_writes (w_cview w)"
    "?n < ch" using assms(1,2) by (auto simp: weak_invs)
  have slot: "pop_slot w = ?n mod 2 ^ k" using consumer_slot(1) [OF y assms(2)] by (simp add: pop_slot_def)
  have marks: "marks_ok (w_written w) (2 ^ k) (length (y_sent (w_sys w)))" "length (y_sent (w_sys w)) \<le> ?n + 2 ^ k"
    using assms(1) y by (auto simp: weak_invs inv_def live_def)
  then have "\<not> ?race"
    using assms(1) marks_ok_current [OF marks(1) _ marks(2)] ch(3,4) by (fastforce simp: weak_inv_def slot)
  moreover have "marks_ok ?ms (2 ^ k) (Suc ?n)"
    using assms(1) marks_ok_upd [of "w_taken w" "2 ^ k" ?n] by (simp add: weak_invs slot)
  moreover have seen: "published ?y = published (w_sys w)" "released ?y = released (w_sys w)" "view_le (all_seen (w_sys w)) (all_seen ?y)"
    using assms(2) by (simp_all add: published_def released_def all_seen_def view_le_def)
  moreover have "view_le ?u (all_seen ?y)"
    using assms(1) seen by (auto simp: weak_invs views_ok_def view_le_def all_seen_def)
  moreover have "inv k ?y" by (rule inv_pop_read [OF y assms(2,3)])
  ultimately show ?thesis
    using assms(1,2) ch by (auto simp: weak_invs views_ok_def intro: view_le_trans split: option.splits)
qed

lemma weak_c_publish:
  assumes "weak_inv k w" "sound cfg" "y_cpc (w_sys w) = C_Publish" "pop_publish (w_ring w) (w_cons w) = (r, c)"
    and u: "u = (w_cview w)\<lparr>k_tail := length (w_tails w)\<rparr>"
  shows "weak_inv k (w\<lparr>w_sys := (w_sys w)\<lparr>y_ring := r, y_cons := c, y_cpc := C_Idle\<rparr>,
      w_cview := u, w_tails := w_tails w @ [store_msg (STORE_ORDER cfg) (rb_tail r) u]\<rparr>)"
    (is "weak_inv k (w\<lparr>w_sys := ?y, w_cview := u, w_tails := w_tails w @ [?g]\<rparr>)")
proof -
  let ?n = "length (y_recv (w_sys w))"
  have y: "inv k (w_sys w)" using assms(1) by (simp add: weak_inv_def)
  then have n: "released (w_sys w) + 1 = ?n" using assms(3) by (cases ?n) (auto simp: inv_def released_def)
  have inv': "inv k ?y" by (rule inv_pop_publish [OF y assms(3,4)])
  have rel: "released ?y = ?n" by (simp add: released_def)
  then have tail: "rb_tail r = word_of_nat ?n" using inv' by (simp add: inv_def)
  have pub: "published ?y = published (w_sys w)" by (simp add: published_def)
  have tails: "stores_ok k_reads (w_tails w) (released (w_sys w))" using assms(1) by (simp add: weak_invs)
  have up: "k_reads u = ?n" "k_tail u = ?n" "k_head u = k_head (w_cview w)" "k_writes u = k_writes (w_cview w)"
    using assms(1) tails n by (auto simp: u weak_invs stores_ok_def)
  have g: "g_view ?g = u" "g_value ?g = word_of_nat ?n" using sound_orders(1) [OF assms(2)] tail by (simp_all add: store_msg_def)
  have "Suc (released (w_sys w)) = ?n" using n by simp
  then have "stores_ok k_reads (w_tails w @ [?g]) ?n"
    using stores_ok_snoc [OF tails, of ?g] g up(1) by (simp del: of_nat_Suc)
  moreover have seen: "view_le (all_seen (w_sys w)) (all_seen ?y)"
    using n pub rel by (simp add: view_le_def all_seen_def)
  moreover have "view_le u (all_seen ?y)"
    using assms(1) pub rel up by (auto simp: weak_invs views_ok_def view_le_def all_seen_def)
  moreover have "c_cached_head c = c_cached_head (w_cons w)" using assms(4) by (auto simp: pop_publish_def)
  ultimately show ?thesis
    using assms(1) inv' pub rel up g(1) n by (auto simp: weak_invs views_ok_def intro: view_le_trans split: option.splits)
qed

lemma weak_shutdown:
  assumes "weak_inv k w"
  shows "y_ppc (w_sys w) = P_Idle \<Longrightarrow> weak_inv k (w\<lparr>w_shutdown := Some (w_pview w)\<rparr>)"
    "w_shutdown w = Some u \<Longrightarrow> weak_inv k (w\<lparr>w_cview := view_join (w_cview w) u, w_stopping := True\<rparr>)"
proof -
  have le: "view_le v (all_seen (w_sys w))" if "v \<in> {w_pview w, w_cview w} \<union> set_option (w_shutdown w)" for v
    using assms that by (auto simp: weak_inv_def views_ok_def)
  show "y_ppc (w_sys w) = P_Idle \<Longrightarrow> weak_inv k (w\<lparr>w_shutdown := Some (w_pview w)\<rparr>)"
    using assms by (auto simp: weak_invs views_ok_def split: option.splits)
  show "weak_inv k (w\<lparr>w_cview := view_join (w_cview w) u, w_stopping := True\<rparr>)" if "w_shutdown w = Some u"
  proof -
    let ?v = "view_join (w_cview w) u"
    have v: "view_le ?v (all_seen (w_sys w))" using le [of u] le [of "w_cview w"] that by (simp add: view_join_le)
    have u: "k_reads u \<le> k_reads (w_cview w)" "k_tail u \<le> k_tail (w_cview w)" "k_head u = published (w_sys w)"
      "k_head (w_cview w) \<le> published (w_sys w)"
      using le [of u] le [of "w_cview w"] that assms by (auto simp: view_le_def all_seen_def weak_invs)
    have "consumer_ok (w\<lparr>w_cview := ?v, w_stopping := True\<rparr>)"
      using assms u(1,2) by (fastforce simp: weak_invs max_absorb1)
    moreover have "views_ok (w\<lparr>w_cview := ?v, w_stopping := True\<rparr>)"
      using assms v by (simp add: weak_inv_def views_ok_def)
    moreover have "shutdown_ok (w\<lparr>w_cview := ?v, w_stopping := True\<rparr>)"
      using assms u(3,4) that by (simp add: weak_inv_def shutdown_ok_def)
    ultimately show ?thesis using assms by (simp add: weak_inv_def producer_ok_def memory_ok_def)
  qed
qed

lemma weak_inv_step: "weak_step cfg w w' \<Longrightarrow> sound cfg \<Longrightarrow> weak_inv k w \<Longrightarrow> weak_inv k w'"
  by (cases rule: weak_step.cases)
    (auto intro: weak_p_test weak_p_write [unfolded Suc_eq_plus1 [symmetric]] weak_p_publish weak_c_test
        weak_c_read [unfolded Suc_eq_plus1 [symmetric]] weak_c_publish weak_shutdown)

lemma weak_inv_reachable:
  assumes "weak_reachable cfg capacity w" "sound cfg"
  shows "\<exists>k. weak_inv k w \<and> capacity = 2 ^ k"
  using assms(1)
proof (induction rule: weak_reachable.induct)
  case (init x)
  then show ?case by (rule weak_inv_start)
next
  case (step w w')
  then show ?case using weak_inv_step assms(2) by blast
qed

section \<open>Relaxed orderings race\<close>

text \<open>A fresh ring: one value is pushed, and the popping thread sees the cursor but not the slot behind it.\<close>

lemma weak_step_to: "weak_step cfg w u \<Longrightarrow> u = w' \<Longrightarrow> weak_step cfg w w'"
  by simp

lemma relaxed_races:
  fixes x :: "'a Ring" and v :: 'a
  assumes "ring_buffer capacity = Some x" "ring_relaxed_ordering cfg"
  shows "\<exists>w :: 'a Weak. weak_reachable cfg capacity w \<and> w_race w"
proof -
  let ?r = "\<lparr>rb_buffer = replicate (unat capacity) None, rb_capacity = capacity, rb_mask = capacity - 1, rb_head = 0, rb_tail = 0\<rparr>"
  have cap: "0 < unat capacity" "0 \<noteq> capacity"
    and x: "x = (?r, \<lparr>p_cached_head = 0, p_cached_tail = 0\<rparr>, \<lparr>c_cached_tail = 0, c_cached_head = 0\<rparr>)"
    using assms(1) by (auto simp: ring_buffer_def unat_gt_0 split: if_splits)
  have ord: "\<not> releases (STORE_ORDER cfg)" "\<not> acquires (LOAD_ORDER cfg)"
    using assms(2) by (simp_all add: STORE_ORDER_def LOAD_ORDER_def releases_def acquires_def)
  define w1 where "w1 = (weak_start x)\<lparr>w_sys := (start x)\<lparr>y_ppc := P_Write v\<rparr>\<rparr>"
  define r2 where "r2 = ?r\<lparr>rb_buffer := (replicate (unat capacity) None)[0 := Some v]\<rparr>"
  define w2 where "w2 = w1\<lparr>w_sys := (w_sys w1)\<lparr>y_ring := r2, y_ppc := P_Publish, y_sent := [v]\<rparr>,
    w_written := (replicate (unat capacity) 0)[0 := 1], w_pview := no_view\<lparr>k_writes := 1\<rparr>\<rparr>"
  define w3 where "w3 = w2\<lparr>w_sys := (w_sys w2)\<lparr>y_ring := r2\<lparr>rb_head := 1\<rparr>,
      y_prod := \<lparr>p_cached_head = 1, p_cached_tail = 0\<rparr>, y_ppc := P_Idle\<rparr>,
    w_pview := no_view\<lparr>k_writes := 1, k_head := 1\<rparr>,
    w_heads := [\<lparr>g_value = 0, g_view = no_view\<rparr>, \<lparr>g_value = 1, g_view = no_view\<rparr>]\<rparr>"
  define w4 where "w4 = w3\<lparr>w_sys := (w_sys w3)\<lparr>y_cons := \<lparr>c_cached_tail = 0, c_cached_head = 1\<rparr>, y_cpc := C_Read\<rparr>,
    w_cview := no_view\<lparr>k_head := 1\<rparr>\<rparr>"
  note states = w4_def w3_def w2_def w1_def weak_start_def start_def x no_view_def
  have s1: "weak_step cfg (weak_start x) w1"
    by (rule weak_step_to [OF weak_step.p_test [where i = 0 and p = "fst (snd x)" and full = False and v = v]])
      (use cap(2) ord in \<open>auto simp: states push_test_cfg_def load_view_def Let_def\<close>)
  have s2: "weak_step cfg w1 w2"
    by (rule weak_step_to [OF weak_step.p_write [where v = v and r = r2]])
      (use cap(1) in \<open>auto simp: states r2_def slot_write_def slot_index_def push_slot_def\<close>)
  have s3: "weak_step cfg w2 w3"
    by (rule weak_step_to [OF weak_step.p_publish [where r = "r2\<lparr>rb_head := 1\<rparr>"
        and p = "\<lparr>p_cached_head = 1, p_cached_tail = 0\<rparr>" and u = "no_view\<lparr>k_writes := 1, k_head := 1\<rparr>"]])
      (use ord in \<open>auto simp: states push_publish_def store_msg_def\<close>)
  have s4: "weak_step cfg w3 w4"
    by (rule weak_step_to [OF weak_step.c_test [where i = 1 and c = "\<lparr>c_cached_tail = 0, c_cached_head = 1\<rparr>" and is_empty = False]])
      (use ord in \<open>auto simp: states pop_test_cfg_def reloads_head_def load_view_def Let_def\<close>)
  have reach: "weak_reachable cfg capacity w4"
    by (intro weak_reachable.step [OF _ s4] weak_reachable.step [OF _ s3] weak_reachable.step [OF _ s2]
        weak_reachable.step [OF _ s1] weak_reachable.init [OF assms(1)])
  have read: "slot_read (w_ring w4) (c_cached_tail (w_cons w4)) =
      Some (r2\<lparr>rb_head := 1, rb_buffer := (replicate (unat capacity) None)[0 := None]\<rparr>, v)" "y_cpc (w_sys w4) = C_Read"
    "w_written w4 ! pop_slot w4 > k_writes (w_cview w4)"
    using cap(1) by (auto simp: states r2_def slot_read_def slot_index_def pop_slot_def list_update_overwrite)
  show ?thesis
    by (intro exI conjI, rule weak_reachable.step [OF reach weak_step.c_read [OF read(2,1)]]) (simp add: read(3))
qed

section \<open>Interleavings are runs\<close>

lemma newest_stores:
  assumes "weak_inv k w"
  shows "k_tail (w_pview w) \<le> released (w_sys w)" "released (w_sys w) < length (w_tails w)"
    "g_value (w_tails w ! released (w_sys w)) = rb_tail (w_ring w)"
    "k_head (w_cview w) \<le> published (w_sys w)" "published (w_sys w) < length (w_heads w)"
    "g_value (w_heads w ! published (w_sys w)) = rb_head (w_ring w)"
  using assms by (auto simp: weak_invs views_ok_def view_le_def all_seen_def stores_ok_def inv_def)

lemma cached_tests:
  assumes "\<not> ring_no_cursor_cache cfg"
  shows "push_test_cfg cfg (rb_tail r) r p = push_test r p" "pop_test_cfg cfg (rb_head r) c = pop_test r c"
  using assms by (simp_all add: push_test_cfg_def push_test_def reloads_tail_def pop_test_cfg_def pop_test_def reloads_head_def)

lemma weak_step_ex:
  "weak_step cfg w u \<Longrightarrow> w_sys u = y \<Longrightarrow> w_shutdown u = None \<Longrightarrow> \<exists>w'. weak_step cfg w w' \<and> w_sys w' = y \<and> w_shutdown w' = None"
  by blast

lemma interleaving_step:
  assumes "step (w_sys w) y'" "weak_inv k w" "w_shutdown w = None" "\<not> ring_no_cursor_cache cfg"
  shows "\<exists>w'. weak_step cfg w w' \<and> w_sys w' = y' \<and> w_shutdown w' = None"
  using assms(1)
proof (cases rule: step.cases)
  case (push_test p full v)
  then show ?thesis
    using newest_stores(1-3) [OF assms(2)] assms(3)
    by (intro weak_step_ex [OF weak_step.p_test [where i = "released (w_sys w)" and p = p and full = full and v = v]])
      (simp_all add: cached_tests(1) [OF assms(4)])
next
  case (push_write v r)
  then show ?thesis using assms(3) by (intro weak_step_ex [OF weak_step.p_write [where v = v and r = r]]) simp_all
next
  case (push_publish r p)
  then show ?thesis
    using assms(3) by (intro weak_step_ex [OF weak_step.p_publish [where p = p and r = r, OF _ _ refl]]) simp_all
next
  case (pop_test c is_empty)
  then show ?thesis
    using newest_stores(4-6) [OF assms(2)] assms(3)
    by (intro weak_step_ex [OF weak_step.c_test [where i = "published (w_sys w)" and c = c and is_empty = is_empty]])
      (simp_all add: cached_tests(2) [OF assms(4)])
next
  case (pop_read r v)
  then show ?thesis using assms(3) by (intro weak_step_ex [OF weak_step.c_read [where v = v and r = r]]) simp_all
next
  case (pop_publish r c)
  then show ?thesis
    using assms(3) by (intro weak_step_ex [OF weak_step.c_publish [where c = c and r = r, OF _ _ refl]]) simp_all
qed

lemma interleaving_reachable:
  assumes "reachable capacity y" "sound cfg" "\<not> ring_no_cursor_cache cfg"
  shows "\<exists>w. weak_reachable cfg capacity w \<and> w_sys w = y \<and> w_shutdown w = None"
  using assms(1)
proof (induction rule: reachable.induct)
  case (init x)
  then show ?case using weak_reachable.init by (fastforce simp: weak_start_def)
next
  case (step y y')
  then obtain w where w: "weak_reachable cfg capacity w" "w_sys w = y" "w_shutdown w = None" by blast
  moreover obtain k where "weak_inv k w" using weak_inv_reachable [OF w(1) assms(2)] by blast
  ultimately show ?case
    using interleaving_step [of w y' k cfg] step.hyps(2) assms(3) weak_reachable.step by blast
qed

lemma race_free_relaxed:
  assumes "ring_buffer capacity = Some (x :: 'a Ring)"
  shows "(\<forall>w :: 'a Weak. weak_reachable cfg capacity w \<longrightarrow> \<not> w_race w) \<longleftrightarrow> \<not> ring_relaxed_ordering cfg"
proof
  show "\<not> ring_relaxed_ordering cfg" if "\<forall>w :: 'a Weak. weak_reachable cfg capacity w \<longrightarrow> \<not> w_race w"
    using relaxed_races [OF assms] that by blast
  show "\<forall>w :: 'a Weak. weak_reachable cfg capacity w \<longrightarrow> \<not> w_race w" if "\<not> ring_relaxed_ordering cfg"
    using weak_inv_reachable [where cfg = cfg] that unfolding sound_def weak_inv_def by blast
qed

section \<open>Properties\<close>

text \<open>
  C5: The ring has a data race on a slot in some execution exactly when the cursor accesses are \<open>Relaxed\<close>:
  \<open>Release\<close> stores with \<open>Acquire\<close> loads order every pair of conflicting slot accesses, whatever the
  capacity, with or without cursor caching, and the comment that calls \<open>ring_relaxed_ordering\<close> unsound is right.
\<close>

theorem race_free_iff:
  assumes "ring_buffer capacity = Some (x :: 'a Ring)"
  shows "(\<forall>w :: 'a Weak. weak_reachable cfg capacity w \<longrightarrow> \<not> w_race w) \<longleftrightarrow> \<not> ring_relaxed_ordering cfg"
  using assms by (rule race_free_relaxed)

definition default_cfg :: Cfg where
  "default_cfg = \<lparr>ring_relaxed_ordering = False, ring_seqcst = False, ring_no_cursor_cache = False\<rparr>"

theorem race_free_iff_witness:
  "\<not> (\<exists>w :: nat Weak. weak_reachable default_cfg 2 w \<and> w_race w) \<and>
   (\<exists>w :: nat Weak. weak_reachable (default_cfg\<lparr>ring_relaxed_ordering := True\<rparr>) 2 w \<and> w_race w)"
  using race_free_iff [OF ring_buffer_2, of default_cfg]
    race_free_iff [OF ring_buffer_2, of "default_cfg\<lparr>ring_relaxed_ordering := True\<rparr>"]
  by (auto simp: default_cfg_def)

text \<open>
  On weak memory too, with any ordering but \<open>Relaxed\<close>: a thread about to access a slot finds it as the
  \<open>unsafe\<close> block needs it, and the values come out in the order they went in, none lost or doubled,
  never more than the capacity inside.
\<close>

theorem weak_memory_safe:
  assumes "weak_reachable cfg capacity w" "\<not> ring_relaxed_ordering cfg"
  shows "(\<forall>v. y_ppc (w_sys w) = P_Write v \<longrightarrow> slot_write (w_ring w) (p_cached_head (w_prod w)) v \<noteq> None) \<and>
    (y_cpc (w_sys w) = C_Read \<longrightarrow> slot_read (w_ring w) (c_cached_tail (w_cons w)) \<noteq> None) \<and>
    (\<exists>inside. y_sent (w_sys w) = y_recv (w_sys w) @ inside \<and> length inside \<le> unat capacity)"
proof -
  obtain k where k: "inv k (w_sys w)" "capacity = 2 ^ k"
    using weak_inv_reachable [OF assms(1)] assms(2) by (auto simp: sound_def weak_inv_def)
  show ?thesis using producer_slot(2) [OF k(1)] consumer_slot(2) [OF k(1)] inv_fifo [OF k] by fastforce
qed

text \<open>The compile-time guard refuses exactly the builds with a data race, other than those that ask for it.\<close>

theorem guard_refuses_races:
  assumes "ring_buffer capacity = Some (x :: 'a Ring)"
  shows "compiles loom allow cfg \<longleftrightarrow> \<not> (\<exists>w :: 'a Weak. weak_reachable cfg capacity w \<and> w_race w) \<or> loom \<or> allow"
  using race_free_relaxed [OF assms, of cfg] by (auto simp: compiles_def)

lemma ex_racing_weak: "\<exists>w. weak_reachable default_cfg 2 w \<and> w_sys w = ex_racing"
  using interleaving_reachable [OF ex_racing_reachable, of default_cfg] by (auto simp: default_cfg_def sound_def)

theorem weak_memory_safe_witness:
  "\<exists>w :: nat Weak. weak_reachable default_cfg 2 w \<and> w_sys w = ex_racing \<and>
     slot_write (w_ring w) (p_cached_head (w_prod w)) 8 \<noteq> None \<and> slot_read (w_ring w) (c_cached_tail (w_cons w)) \<noteq> None"
proof -
  obtain w where w: "weak_reachable default_cfg 2 w" "w_sys w = ex_racing" using ex_racing_weak by blast
  moreover have "y_ppc (w_sys w) = P_Write 8" "y_cpc (w_sys w) = C_Read" by (simp_all add: w(2) ex_racing_def)
  ultimately show ?thesis using weak_memory_safe [OF w(1)] by (auto simp: default_cfg_def)
qed

text \<open>
  C14: Shutdown on weak memory: once the popping thread has seen the flag, which the pushing thread stores with
  \<open>Release\<close> after its last push, a pop that reports an empty ring, whichever store of the cursor it may
  still read, means that every value pushed has been received.
\<close>

theorem drain_complete:
  assumes "weak_reachable cfg capacity w" "\<not> ring_relaxed_ordering cfg" "w_stopping w" "y_cpc (w_sys w) = C_Idle"
    and "k_head (w_cview w) \<le> i" "i < length (w_heads w)"
    and "pop_test_cfg cfg (g_value (w_heads w ! i)) (w_cons w) = (c, True)"
  shows "y_recv (w_sys w) = y_sent (w_sys w)"
proof -
  obtain k where k: "weak_inv k w" "capacity = 2 ^ k"
    using weak_inv_reachable [OF assms(1)] assms(2) by (auto simp: sound_def)
  have all: "k_head (w_cview w) = published (w_sys w)" "y_ppc (w_sys w) = P_Idle"
    using k(1) assms(3) by (auto simp: weak_invs split: option.splits)
  have "length (y_recv (w_sys w)) = i"
    using weak_c_test(2) [OF k(1) _ assms(4-7)] assms(2) by (simp add: sound_def)
  moreover have "published (w_sys w) = length (y_sent (w_sys w))" using all(2) by (simp add: published_def)
  ultimately have "length (y_sent (w_sys w)) \<le> length (y_recv (w_sys w))" using assms(5) all(1) by simp
  moreover obtain inside where "y_sent (w_sys w) = y_recv (w_sys w) @ inside"
    using inv_fifo [OF _ k(2)] k(1) unfolding weak_inv_def by blast
  ultimately show ?thesis by simp
qed

definition ex_drained :: "'a \<Rightarrow> 'a Sys" where
  "ex_drained v = \<lparr>y_ring = \<lparr>rb_buffer = [None, None], rb_capacity = 2, rb_mask = 1, rb_head = 1, rb_tail = 1\<rparr>,
     y_prod = \<lparr>p_cached_head = 1, p_cached_tail = 0\<rparr>, y_cons = \<lparr>c_cached_tail = 1, c_cached_head = 1\<rparr>,
     y_ppc = P_Idle, y_cpc = C_Idle, y_sent = [v], y_recv = [v]\<rparr>"

lemma ex_drained_reachable: "reachable 2 (ex_drained v)"
proof -
  let ?x = "(\<lparr>rb_buffer = [None, None], rb_capacity = 2, rb_mask = 1, rb_head = 0, rb_tail = 0\<rparr>,
      \<lparr>p_cached_head = 0, p_cached_tail = 0\<rparr>, \<lparr>c_cached_tail = 0, c_cached_head = 0\<rparr>) :: 'a Ring"
  let ?y0 = "start ?x"
  let ?y1 = "?y0\<lparr>y_ring := (y_ring ?y0)\<lparr>rb_buffer := [Some v, None], rb_head := 1\<rparr>,
      y_prod := \<lparr>p_cached_head = 1, p_cached_tail = 0\<rparr>, y_sent := [v]\<rparr>"
  have "is_power_of_two 2" by code_simp
  moreover have "replicate 2 None = [None, None :: 'a option]" by (simp add: numeral_2_eq_2)
  ultimately have "ring_buffer 2 = Some ?x" by (simp add: ring_buffer_def)
  then have r0: "reachable 2 ?y0" by (rule reachable.init)
  obtain k where i0: "inv k ?y0" using inv_reachable [OF r0] by blast
  have p: "push (y_ring ?y0) (y_prod ?y0) v = Some (y_ring ?y1, y_prod ?y1, Inr ())"
    by (simp add: start_def push_def push_test_def slot_write_def slot_index_def push_publish_def)
  have r1: "reachable 2 ?y1"
    using push_steps [where Q = "reachable 2", OF i0 _ reachable_closed r0, of v] p by (auto simp: start_def)
  obtain k where i1: "inv k ?y1" using inv_reachable [OF r1] by blast
  have "pop (y_ring ?y1) (y_cons ?y1) = Some (y_ring (ex_drained v), y_cons (ex_drained v), Some v)"
    by (simp add: start_def ex_drained_def pop_def pop_test_def slot_read_def slot_index_def pop_publish_def)
  then show ?thesis
    using pop_steps [where Q = "reachable 2", OF i1 _ reachable_closed r1] by (auto simp: start_def ex_drained_def)
qed

lemma ex_drained_weak: "\<exists>w. weak_reachable default_cfg 2 w \<and> w_sys w = ex_drained v \<and> w_shutdown w = None"
  using interleaving_reachable [OF ex_drained_reachable, of default_cfg] by (simp add: sound_def default_cfg_def)

theorem drain_complete_witness:
  "\<exists>w c. weak_reachable default_cfg 2 w \<and> w_stopping w \<and> y_sent (w_sys w) = [7 :: nat] \<and>
     pop_test_cfg default_cfg (g_value (w_heads w ! 1)) (w_cons w) = (c, True) \<and> y_recv (w_sys w) = y_sent (w_sys w)"
proof -
  have sound: "sound default_cfg" by (simp add: sound_def default_cfg_def)
  obtain w where w: "weak_reachable default_cfg 2 w" "w_sys w = ex_drained (7 :: nat)"
    using ex_drained_weak [of "7 :: nat"] by blast
  let ?w = "w\<lparr>w_shutdown := Some (w_pview w), w_cview := view_join (w_cview w) (w_pview w), w_stopping := True\<rparr>"
  have idle: "y_ppc (w_sys w) = P_Idle" "y_cpc (w_sys w) = C_Idle" by (simp_all add: w(2) ex_drained_def)
  have r: "weak_reachable default_cfg 2 (w\<lparr>w_shutdown := Some (w_pview w)\<rparr>)"
    using weak_reachable.step [OF w(1) weak_step.shutdown_store [OF idle(1)]] .
  have r: "weak_reachable default_cfg 2 ?w"
    using weak_reachable.step [OF r weak_step.shutdown_load [where u = "w_pview w"]] idle(2) by simp
  obtain k where "weak_inv k ?w" using weak_inv_reachable [OF r sound] by blast
  note st = newest_stores [OF this]
  have pub: "published (w_sys w) = 1" by (simp add: w(2) ex_drained_def published_def)
  have t: "pop_test_cfg default_cfg (g_value (w_heads w ! 1)) (w_cons w) = (w_cons w, True)"
    using st(6) pub by (simp add: w(2) ex_drained_def pop_test_cfg_def reloads_head_def)
  have "y_recv (w_sys ?w) = y_sent (w_sys ?w)"
    using drain_complete [OF r, of 1 "w_cons w"] st(4,5) pub idle(2) t by (simp add: default_cfg_def)
  then show ?thesis using r t w(2) by (intro exI [of _ ?w] exI [of _ "w_cons w"]) (simp add: ex_drained_def)
qed

text \<open>
  Nothing is lost by reasoning about interleavings: every state the threads of \<open>RingBuffer\<close> can reach is one
  of the weak machine with the orderings of a default or \<open>ring_seqcst\<close> build.
\<close>

theorem interleavings_included:
  assumes "reachable capacity y" "\<not> ring_relaxed_ordering cfg" "\<not> ring_no_cursor_cache cfg"
  shows "\<exists>w. weak_reachable cfg capacity w \<and> w_sys w = y"
  using interleaving_reachable [of capacity y cfg] assms by (auto simp: sound_def)

theorem interleavings_included_witness: "\<exists>w. weak_reachable default_cfg 2 w \<and> w_sys w = ex_racing"
  using interleavings_included [OF ex_racing_reachable, of default_cfg] by (simp add: default_cfg_def)

end
