(* ===== verification/Testing.thy ===== *)
theory Testing
  imports Prelude
begin

text \<open>
  The vocabulary of the unit tests that \<open>src/\<close> carries in its \<open>mod tests\<close> blocks, and how they are run here.
  A test is a value of type \<open>unit option\<close>: \<open>Some ()\<close> when it passes, \<open>None\<close> when an \<open>assert!\<close> fails, an
  \<open>unwrap\<close> or \<open>unwrap_err\<close> panics, or the code under test does. The theories \<open>BookTests\<close>, \<open>EngineTests\<close>,
  \<open>ProtocolTests\<close>, \<open>WalTests\<close>, \<open>SnapshotTests\<close>, \<open>RecoveryTests\<close>, \<open>GatewayTests\<close>, \<open>RingTests\<close> and \<open>Metrics\<close> translate the tests and show that they pass on the model.
\<close>

definition assert :: "bool \<Rightarrow> unit option" where
  "assert P = (if P then Some () else None)"

text \<open>\<open>unwrap\<close> and \<open>unwrap_err\<close> on the result of a call that changes a state.\<close>

definition unwrap :: "('s \<times> ('e + 'a)) option \<Rightarrow> ('s \<times> 'a) option" where
  "unwrap m = do { (s, r) \<leftarrow> m; case r of Inl _ \<Rightarrow> None | Inr x \<Rightarrow> Some (s, x) }"

definition unwrap_err :: "('s \<times> ('e + 'a)) option \<Rightarrow> ('s \<times> 'e) option" where
  "unwrap_err m = do { (s, r) \<leftarrow> m; case r of Inl e \<Rightarrow> Some (s, e) | Inr _ \<Rightarrow> None }"

text \<open>The same on a plain \<open>Result\<close>.\<close>

definition unwrap_res :: "'e + 'a \<Rightarrow> 'a option" where
  "unwrap_res r = (case r of Inl _ \<Rightarrow> None | Inr x \<Rightarrow> Some x)"

text \<open>What is asked of \<open>xs[i]\<close>, whose index panics when it is out of range.\<close>

definition holds_at :: "'a list \<Rightarrow> nat \<Rightarrow> ('a \<Rightarrow> bool) \<Rightarrow> bool" where
  "holds_at xs i P = (case vec_get xs i of None \<Rightarrow> False | Some x \<Rightarrow> P x)"

text \<open>A list of tests passes; a test marked \<open>should_panic\<close> passes when the call does not return.\<close>

definition all_pass :: "unit option list \<Rightarrow> bool" where
  "all_pass ts = list_all (\<lambda>t. t = Some ()) ts"

definition should_panic :: "'a option \<Rightarrow> unit option" where
  "should_panic m = (case m of None \<Rightarrow> Some () | Some _ \<Rightarrow> None)"

lemma all_pass_simps [simp]: "all_pass []" "all_pass (t # ts) \<longleftrightarrow> t = Some () \<and> all_pass ts"
  by (simp_all add: all_pass_def)

lemma assert_Some [simp]: "assert P = Some () \<longleftrightarrow> P"
  by (simp add: assert_def)

lemma assert_bind [simp]: "assert P \<bind> f = Some x \<longleftrightarrow> P \<and> f () = Some x"
  by (simp add: assert_def)

lemma unwrap_simps [simp]:
  "unwrap (Some (s, Inr x)) = Some (s, x)" "unwrap_err (Some (s, Inl e)) = Some (s, e)" "unwrap_res (Inr x) = Some x"
  by (simp_all add: unwrap_def unwrap_err_def unwrap_res_def)

section \<open>Running a test over a specification\<close>

text \<open>
  \<open>runs A f\<close>: the rest \<open>f\<close> of a test passes from every state in which \<open>A\<close> holds. \<open>A\<close> says what the component under
  test holds in terms of its specification, so that a test is run call by call on the specification: a
  call from \<open>A\<close> returns \<open>r\<close> and ends in \<open>A'\<close>.
\<close>

named_theorems run_rules \<open>the rules that take a test one statement further\<close>

definition runs :: "('s \<Rightarrow> bool) \<Rightarrow> ('s \<Rightarrow> unit option) \<Rightarrow> bool" where
  "runs A f \<longleftrightarrow> (\<forall>s. A s \<longrightarrow> f s = Some ())"

definition calls :: "('s \<Rightarrow> bool) \<Rightarrow> ('s \<Rightarrow> ('s \<times> 'r) option) \<Rightarrow> ('s \<Rightarrow> bool) \<Rightarrow> 'r \<Rightarrow> bool" where
  "calls A call A' r \<longleftrightarrow> (\<forall>s. A s \<longrightarrow> (\<exists>s'. call s = Some (s', r) \<and> A' s'))"

lemma run_start: "A s \<Longrightarrow> runs A f \<Longrightarrow> Let s f = Some ()"
  by (simp add: runs_def)

lemma run_end [run_rules]: "runs A (\<lambda>_. Some ())"
  by (simp add: runs_def)

lemma run_assert [run_rules]: "P \<Longrightarrow> runs A f \<Longrightarrow> runs A (\<lambda>s. assert P \<bind> (\<lambda>_. f s))"
  by (simp add: runs_def)

lemma run_let [run_rules]: "runs A (\<lambda>s. f s x) \<Longrightarrow> runs A (\<lambda>s. Let x (f s))"
  by simp

lemma run_value: "m = Some x \<Longrightarrow> runs A (\<lambda>s. f s x) \<Longrightarrow> runs A (\<lambda>s. m \<bind> (\<lambda>x. f s x))"
  by simp

lemma run_observe: "(\<And>s. A s \<Longrightarrow> g s = x) \<Longrightarrow> x = v \<Longrightarrow> runs A f \<Longrightarrow> runs A (\<lambda>s. assert (g s = v) \<bind> (\<lambda>_. f s))"
  by (simp add: runs_def)

lemma run_unwrap:
  "calls A call A' r \<Longrightarrow> r = Inr x \<Longrightarrow> runs A' (\<lambda>s. f s x) \<Longrightarrow> runs A (\<lambda>s. unwrap (call s) \<bind> (\<lambda>(s, x). f s x))"
  by (fastforce simp: runs_def calls_def)

lemma run_unwrap_err:
  "calls A call A' r \<Longrightarrow> r = Inl e \<Longrightarrow> runs A' (\<lambda>s. f s e) \<Longrightarrow> runs A (\<lambda>s. unwrap_err (call s) \<bind> (\<lambda>(s, e). f s e))"
  by (fastforce simp: runs_def calls_def)

definition is_ok :: "'e + 'a \<Rightarrow> bool" where
  "is_ok r = (case r of Inl _ \<Rightarrow> False | Inr _ \<Rightarrow> True)"

lemma is_ok_projr: "is_ok r \<Longrightarrow> r = Inr (projr r)"
  by (cases r) (simp_all add: is_ok_def)

lemma is_err_projl: "\<not> is_ok r \<Longrightarrow> r = Inl (projl r)"
  by (cases r) (simp_all add: is_ok_def)

end
