(* ===== verification/RingTests.thy ===== *)
theory RingTests
  imports RingOrdering Testing "HOL-Library.Sublist"
begin

text \<open>
  The unit tests of \<open>src/ring.rs\<close>. Those with one thread are evaluated on the model. Those with two
  threads are shown to pass in every execution of the weak memory machine of \<open>RingOrdering\<close> in which the
  pushing thread has pushed its values in order and the popping thread has received as many as it waits
  for.
\<close>

section \<open>The single-threaded tests of \<open>src/ring.rs\<close>\<close>

text \<open>\<open>for i in is { p.push(i).unwrap() }\<close> and \<open>for i in is { assert_eq!(c.pop().unwrap(), i) }\<close>.\<close>

fun push_each :: "'a Ring \<Rightarrow> 'a list \<Rightarrow> 'a Ring option" where
  "push_each s [] = Some s"
| "push_each s (i # is) = do { (s, _) \<leftarrow> unwrap (ring_enq s i); push_each s is }"

definition pop_ok :: "'a Ring \<Rightarrow> ('a Ring \<times> 'a) option" where
  "pop_ok s = do { (s, r) \<leftarrow> ring_deq s; v \<leftarrow> r; Some (s, v) }"

fun pop_each :: "u64 Ring \<Rightarrow> u64 list \<Rightarrow> u64 Ring option" where
  "pop_each s [] = Some s"
| "pop_each s (i # is) = do { (s, v) \<leftarrow> pop_ok s; assert (v = i); pop_each s is }"

definition range_u64 :: "nat \<Rightarrow> nat \<Rightarrow> u64 list" where
  "range_u64 a b = map word_of_nat [a..<b]"

definition push_pop_single :: "unit option" where
  "push_pop_single = do {
     s \<leftarrow> (ring_buffer 4 :: u64 Ring option);
     (s, _) \<leftarrow> unwrap (ring_enq s 42);
     (s, v) \<leftarrow> pop_ok s;
     assert (v = 42)
   }"

definition push_pop_fifo :: "unit option" where
  "push_pop_fifo = do {
     s \<leftarrow> (ring_buffer 8 :: u64 Ring option);
     s \<leftarrow> push_each s (range_u64 0 8);
     s \<leftarrow> pop_each s (range_u64 0 8);
     Some ()
   }"

definition full_returns_error :: "unit option" where
  "full_returns_error = do {
     s \<leftarrow> (ring_buffer 4 :: u64 Ring option);
     s \<leftarrow> push_each s (range_u64 0 4);
     (s, err) \<leftarrow> unwrap_err (ring_enq s 99);
     assert (err = 99)
   }"

definition empty_returns_error :: "unit option" where
  "empty_returns_error = do {
     s \<leftarrow> (ring_buffer 4 :: u64 Ring option);
     (s, r) \<leftarrow> ring_deq s;
     assert (r = None)
   }"

fun push_pop_each :: "u64 Ring \<Rightarrow> u64 list \<Rightarrow> u64 Ring option" where
  "push_pop_each s [] = Some s"
| "push_pop_each s (i # is) = do {
     (s, _) \<leftarrow> unwrap (ring_enq s i);
     (s, v) \<leftarrow> pop_ok s;
     assert (v = i);
     push_pop_each s is
   }"

definition wraparound :: "unit option" where
  "wraparound = do {
     s \<leftarrow> (ring_buffer 4 :: u64 Ring option);
     s \<leftarrow> push_pop_each s (range_u64 0 100);
     Some ()
   }"

definition fill_then_drain :: "unit option" where
  "fill_then_drain = do {
     s \<leftarrow> (ring_buffer 8 :: u64 Ring option);
     s \<leftarrow> push_each s (range_u64 0 8);
     (s, r) \<leftarrow> ring_enq s 99;
     assert (\<not> is_ok r);
     s \<leftarrow> pop_each s (range_u64 0 8);
     (s, r) \<leftarrow> ring_deq s;
     assert (r = None);
     s \<leftarrow> push_each s (range_u64 100 108);
     s \<leftarrow> pop_each s (range_u64 100 108);
     Some ()
   }"

definition ring_capacity :: "'a Ring \<Rightarrow> usize" where
  "ring_capacity s = rb_capacity (fst s)"

definition capacity_accessor :: "unit option" where
  "capacity_accessor = do {
     s \<leftarrow> (ring_buffer 16 :: u64 Ring option);
     assert (ring_capacity s = 16)
   }"

definition zero_capacity_panics :: "unit option" where
  "zero_capacity_panics = should_panic (ring_buffer 0 :: u64 Ring option)"

definition non_power_of_two_panics :: "unit option" where
  "non_power_of_two_panics = should_panic (ring_buffer 3 :: u64 Ring option)"

text \<open>\<open>DropCounter\<close> counts the values dropped: here, those that dropping the ring drops.\<close>

definition drop_remaining_items :: "unit option" where
  "drop_remaining_items = do {
     s \<leftarrow> (ring_buffer 4 :: unit Ring option);
     (s, _) \<leftarrow> unwrap (ring_enq s ());
     (s, _) \<leftarrow> unwrap (ring_enq s ());
     (s, _) \<leftarrow> unwrap (ring_enq s ());
     (_, dropped) \<leftarrow> ring_drop (fst s);
     assert (length dropped = 3)
   }"

lemma single_thread_tests:
  "all_pass [push_pop_single, push_pop_fifo, full_returns_error, empty_returns_error, fill_then_drain, capacity_accessor,
     zero_capacity_panics, non_power_of_two_panics]"
  "drop_remaining_items = Some ()" "wraparound = Some ()"
  by code_simp+

section \<open>The tests with two threads\<close>

text \<open>What is pushed and what is asserted of the values received in \<open>concurrent_push_pop\<close>, \<open>concurrent_backpressure\<close>
  and \<open>concurrent_order_struct\<close>.\<close>

definition check_received :: "u64 \<Rightarrow> u64 list \<Rightarrow> unit option" where
  "check_received n received = do {
     let expected = range_u64 0 (unat n);
     assert (received = expected)
   }"

text \<open>\<open>(i as i64) % m\<close>, whose sign is that of the dividend.\<close>

definition rem_i64 :: "u64 \<Rightarrow> int \<Rightarrow> u64" where
  "rem_i64 i m = word_of_int (sgn (sint i) * (\<bar>sint i\<bar> mod m))"

record Payload48 =
  d_id :: u64
  d_trader_id :: u64
  d_price :: i64
  d_quantity :: u64
  d_timestamp :: u64
  d_side :: u8

definition make_payload :: "u64 \<Rightarrow> Payload48" where
  "make_payload i = \<lparr>d_id = i, d_trader_id = i mod 100, d_price = I64 (10000 + rem_i64 i 500), d_quantity = (i mod 1000) + 1,
     d_timestamp = i * 1000, d_side = ucast (i mod 2)\<rparr>"

fun check_payloads :: "u64 \<Rightarrow> Payload48 list \<Rightarrow> unit option" where
  "check_payloads i [] = Some ()"
| "check_payloads i (order # received) = do {
     assert (d_id order = i);
     assert (d_trader_id order = i mod 100);
     assert (d_side order = ucast (i mod 2));
     assert (d_price order = I64 (10000 + rem_i64 i 500));
     assert (d_quantity order = (i mod 1000) + 1);
     assert (d_timestamp order = i * 1000);
     check_payloads (i + 1) received
   }"

lemma check_payloads_made: "check_payloads (word_of_nat a) (map make_payload (range_u64 a b)) = Some ()"
proof (induction "b - a" arbitrary: a)
  case (Suc n)
  then have "range_u64 a b = word_of_nat a # range_u64 (Suc a) b" "n = b - Suc a" by (simp_all add: range_u64_def upt_rec)
  moreover have "(word_of_nat a :: u64) + 1 = word_of_nat (Suc a)" by (simp add: add.commute)
  ultimately show ?case using Suc.hyps(1) [of "Suc a"] by (simp add: make_payload_def del: of_nat_Suc)
qed (simp add: range_u64_def)

lemma received_all:
  assumes "weak_reachable cfg capacity w" "\<not> ring_relaxed_ordering cfg"
    and "prefix (y_sent (w_sys w)) vs" "length (y_recv (w_sys w)) = length vs"
  shows "y_recv (w_sys w) = vs"
proof -
  obtain k where "weak_inv k w" "capacity = 2 ^ k" using weak_inv_reachable [OF assms(1)] assms(2) by (auto simp: sound_def)
  then obtain inside where "y_sent (w_sys w) = y_recv (w_sys w) @ inside" using inv_fifo by (fastforce simp: weak_inv_def)
  then show ?thesis using assms(3,4) by (auto simp: prefix_def)
qed

section \<open>Properties\<close>

text \<open>
  Every single-threaded unit test of the ring passes on the model, among them the two that must panic, the
  one that wraps around a ring of four slots, and the one that drops what is left inside.
\<close>

theorem ring_unit_tests_pass:
  "all_pass [push_pop_single, push_pop_fifo, full_returns_error, empty_returns_error, fill_then_drain, capacity_accessor,
     zero_capacity_panics, non_power_of_two_panics] \<and> drop_remaining_items = Some () \<and> wraparound = Some ()"
  by (intro conjI single_thread_tests)

text \<open>
  The two-threaded tests pass in every execution on weak memory, at every capacity: if the values pushed so
  far are the first ones of the test, in order, and the popping thread has received as many as the test
  waits for, then its assertions on what it received hold.
\<close>

theorem concurrent_tests_pass:
  assumes "weak_reachable cfg capacity (w :: u64 Weak)" "weak_reachable cfg capacity (w' :: Payload48 Weak)" "\<not> ring_relaxed_ordering cfg"
    and "prefix (y_sent (w_sys w)) (range_u64 0 (unat n))" "length (y_recv (w_sys w)) = unat n"
    and "prefix (y_sent (w_sys w')) (map make_payload (range_u64 0 n'))" "length (y_recv (w_sys w')) = n'"
  shows "check_received n (y_recv (w_sys w)) = Some () \<and> check_payloads 0 (y_recv (w_sys w')) = Some ()"
proof -
  have "y_recv (w_sys w) = range_u64 0 (unat n)" using assms(5) by (intro received_all [OF assms(1,3,4)]) (simp add: range_u64_def)
  moreover have "y_recv (w_sys w') = map make_payload (range_u64 0 n')"
    using assms(7) by (intro received_all [OF assms(2,3,6)]) (simp add: range_u64_def)
  ultimately show ?thesis using check_payloads_made [of 0 n'] by (simp add: check_received_def)
qed

theorem concurrent_tests_pass_witness:
  "\<exists>w w'. weak_reachable default_cfg 2 w \<and> weak_reachable default_cfg 2 w' \<and> length (y_recv (w_sys w)) = 1 \<and>
     check_received 1 (y_recv (w_sys w)) = Some () \<and> check_payloads 0 (y_recv (w_sys w')) = Some ()"
proof -
  obtain w where w: "weak_reachable default_cfg 2 w" "w_sys w = ex_drained (0 :: u64)" using ex_drained_weak [of "0 :: u64"] by blast
  obtain w' where w': "weak_reachable default_cfg 2 w'" "w_sys w' = ex_drained (make_payload 0)"
    using ex_drained_weak [of "make_payload 0"] by blast
  have "\<not> ring_relaxed_ordering default_cfg" "y_sent (w_sys w) = [0]" "y_recv (w_sys w) = [0]"
    "y_sent (w_sys w') = [make_payload 0]" "y_recv (w_sys w') = [make_payload 0]"
    by (simp_all add: default_cfg_def w(2) w'(2) ex_drained_def)
  then have "check_received 1 (y_recv (w_sys w)) = Some () \<and> check_payloads 0 (y_recv (w_sys w')) = Some ()"
    and "length (y_recv (w_sys w)) = 1"
    by (intro concurrent_tests_pass [OF w(1) w'(1), where n = 1 and n' = 1], simp_all add: range_u64_def)
  then show ?thesis using w(1) w'(1) by blast
qed

end
