(* ===== verification/RingBench.thy ===== *)
theory RingBench
  imports RingTests Orders
begin

unbundle bit_operations_syntax

text \<open>
  \<open>examples/ring_throughput.rs\<close>: the ring's throughput harness. Modelled: the orders it sends, the CPU mask it pins
  a thread with, its command line, the label it prints for the memory orderings, its single-threaded
  workload, and the checksum with which its two-threaded workloads end. The clock, the statistics over its
  readings (\<open>f64\<close>) and the printed table are left out. The build is a release one, whose \<open>u64\<close> arithmetic wraps.

  The two-threaded workloads are executions of the weak memory machine of \<open>RingOrdering\<close>, as in \<open>RingTests\<close>.
\<close>

section \<open>The code\<close>

text \<open>
  \<open>pin_current_thread\<close> on Linux. The system call is a parameter: given the mask, whether it succeeds, or the
  text of the error. The index of the mask panics when out of range.
\<close>

definition pin_current_thread :: "(u64 list \<Rightarrow> string + unit) \<Rightarrow> usize \<Rightarrow> (string + unit) option" where
  "pin_current_thread sched_setaffinity cpu =
     (let set = replicate 16 0 in
      if cpu \<ge> 1024 then Some (Inl ''out of range'')
      else do {
        word \<leftarrow> vec_get set (unat (cpu div 64));
        set \<leftarrow> vec_set set (unat (cpu div 64)) (word OR push_bit (unat (cpu mod 64)) 1);
        Some (sched_setaffinity set)
      })"

definition make_order :: "u64 \<Rightarrow> Order option" where
  "make_order k = Order_new k (k mod 100) (if k mod 2 = 0 then Bid else Ask)
     (I64 (10000 + rem_i64 k 500)) ((k mod 1000) + 1) (k * 1000)"

definition expected_checksum :: "u64 \<Rightarrow> u64" where
  "expected_checksum n = n * (n - 1) div 2"

text \<open>The popping loops of \<open>run_u64\<close> and \<open>run_order\<close> with their assertion, over the values they receive.\<close>

definition run_u64_check :: "u64 \<Rightarrow> u64 list \<Rightarrow> unit option" where
  "run_u64_check n received = do {
     let sum = fold (\<lambda>v sum. sum + v) received 0;
     assert (sum = expected_checksum n)
   }"

definition run_order_check :: "u64 \<Rightarrow> Order list \<Rightarrow> unit option" where
  "run_order_check n received = do {
     let sum = fold (\<lambda>order sum. sum + o_id order) received 0;
     assert (sum = expected_checksum n)
   }"

text \<open>\<open>run_latency\<close>.\<close>

fun latency_loop :: "u64 Ring \<Rightarrow> u64 list \<Rightarrow> u64 \<Rightarrow> (u64 Ring \<times> u64) option" where
  "latency_loop s [] acc = Some (s, acc)"
| "latency_loop s (i # is) acc = do {
     (s, _) \<leftarrow> unwrap (ring_enq s i);
     (s, v) \<leftarrow> pop_ok s;
     latency_loop s is (acc + v)
   }"

definition run_latency :: "u64 \<Rightarrow> unit option" where
  "run_latency n = do {
     s \<leftarrow> ring_buffer 1024;
     (s, sum) \<leftarrow> latency_loop s (range_u64 0 (unat n)) 0;
     assert (sum = expected_checksum n)
   }"

text \<open>\<open>str::parse\<close> at \<open>u64\<close> and \<open>usize\<close>: an optional sign, at least one decimal digit, no overflow.\<close>

fun parse_digits :: "nat \<Rightarrow> string \<Rightarrow> nat option" where
  "parse_digits acc [] = Some acc"
| "parse_digits acc (c # cs) =
     (if 48 \<le> (of_char c :: nat) \<and> (of_char c :: nat) \<le> 57 then
        let acc = acc * 10 + (of_char c - 48) in
        if acc < 2 ^ 64 then parse_digits acc cs else None
      else None)"

definition parse_uint :: "string \<Rightarrow> u64 option" where
  "parse_uint s =
     (let digits = (case s of c # cs \<Rightarrow> if c = CHR ''+'' then cs else s | [] \<Rightarrow> s) in
      if digits = [] then None else map_option word_of_nat (parse_digits 0 digits))"

definition split_once :: "char \<Rightarrow> string \<Rightarrow> (string \<times> string) option" where
  "split_once c s =
     (case dropWhile (\<lambda>x. x \<noteq> c) s of [] \<Rightarrow> None | _ # rest \<Rightarrow> Some (takeWhile (\<lambda>x. x \<noteq> c) s, rest))"

record Args =
  g_positional :: "string list"
  g_pin :: "(usize \<times> usize) option"
  g_raw :: bool
  g_workload :: string

text \<open>The loop of \<open>main\<close> over the arguments. An \<open>expect\<close> that fails is \<open>None\<close>.\<close>

fun parse_args :: "string list \<Rightarrow> Args \<Rightarrow> Args option" where
  "parse_args [] g = Some g"
| "parse_args (a # args) g =
     (if a = ''--pin'' then
        (case args of
           [] \<Rightarrow> None
         | spec # args \<Rightarrow> do {
             (p, c) \<leftarrow> split_once (CHR '','') spec;
             p \<leftarrow> parse_uint p;
             c \<leftarrow> parse_uint c;
             parse_args args (g\<lparr>g_pin := Some (p, c)\<rparr>)
           })
      else if a = ''--raw'' then parse_args args (g\<lparr>g_raw := True\<rparr>)
      else if a = ''--workload'' then
        (case args of [] \<Rightarrow> None | w # args \<Rightarrow> parse_args args (g\<lparr>g_workload := w\<rparr>))
      else parse_args args (g\<lparr>g_positional := g_positional g @ [a]\<rparr>))"

definition no_args :: Args where
  "no_args = \<lparr>g_positional = [], g_pin = None, g_raw = False, g_workload = ''all''\<rparr>"

definition positional_or :: "Args \<Rightarrow> nat \<Rightarrow> u64 \<Rightarrow> u64" where
  "positional_or g i def = (case vec_get (g_positional g) i of
     None \<Rightarrow> def
   | Some s \<Rightarrow> (case parse_uint s of None \<Rightarrow> def | Some n \<Rightarrow> n))"

record Config =
  z_iters :: usize
  z_count :: u64
  z_capacity :: usize
  z_producer_cpu :: "usize option"

definition config :: "Args \<Rightarrow> Config" where
  "config g = \<lparr>z_iters = positional_or g 0 20, z_count = positional_or g 1 1000000,
     z_capacity = positional_or g 2 8192, z_producer_cpu = map_option fst (g_pin g)\<rparr>"

definition want :: "Args \<Rightarrow> string \<Rightarrow> bool" where
  "want g w = (g_workload g = ''all'' \<or> g_workload g = w)"

definition ordering_label :: "Cfg \<Rightarrow> string" where
  "ordering_label cfg = (if ring_seqcst cfg then ''seq_cst''
     else if ring_relaxed_ordering cfg then ''relaxed (UNSOUND)'' else ''acquire/release'')"

section \<open>The checksum\<close>

text \<open>The sum of \<open>0..n\<close> as a wrapping sum, and the formula, which wraps before it halves.\<close>

lemma fold_sum: "fold (\<lambda>v sum. sum + f v) vs a = a + (\<Sum>v\<leftarrow>vs. f v)" for a :: "'a::len word"
  by (induction vs arbitrary: a) (simp_all add: add.assoc)

lemma sum_range_u64: "sum_list (range_u64 0 n) = (word_of_nat (n * (n - 1) div 2) :: u64)"
proof (induction n)
  case (Suc n)
  have "n * (n - 1) div 2 + n = Suc n * n div 2" by (cases n) simp_all
  then show ?case using Suc by (simp add: range_u64_def flip: of_nat_add)
qed (simp add: range_u64_def)

lemma mod_once: "x mod b = (if x < b then x else x - b)" if "x < 2 * b" for x b :: nat
  using that le_mod_geq [of b x] by simp

lemma wrap_half:
  fixes m b :: nat
  assumes "0 < b"
  shows "m mod (2 * (2 * b)) div 2 = m mod (2 * b) div 2 \<longleftrightarrow> m mod (2 * (2 * b)) < 2 * b"
proof -
  let ?x = "m mod (2 * (2 * b))"
  have "m mod (2 * b) = ?x mod (2 * b)" by (rule mod_mod_cancel [symmetric]) simp
  also have "\<dots> = (if ?x < 2 * b then ?x else ?x - 2 * b)" using assms by (intro mod_once) simp
  finally show ?thesis using assms by auto
qed

lemma div_mod_half: "m div 2 mod k = m mod (2 * k) div 2" for m k :: nat
  by (simp add: mod_mult2_eq)

lemma checksum_wraps:
  fixes n :: u64
  shows "word_of_nat (unat n * (unat n - 1) div 2) = expected_checksum n \<longleftrightarrow> unat n * (unat n - 1) mod 2 ^ 65 < 2 ^ 64"
proof -
  let ?m = "unat n * (unat n - 1)"
  have "unat (n * (n - 1)) = ?m mod 2 ^ 64"
  proof (cases "n = 0")
    case False
    then show ?thesis by (simp add: unat_word_ariths unat_minus_one)
  qed simp
  then have "unat (expected_checksum n) = ?m mod 2 ^ 64 div 2" by (simp add: expected_checksum_def unat_div)
  moreover have "unat (word_of_nat (?m div 2) :: u64) = ?m mod 2 ^ 65 div 2"
    using div_mod_half [of ?m "2 ^ 64"] by (simp add: unsigned_of_nat take_bit_eq_mod)
  ultimately show ?thesis using wrap_half [of "2 ^ 63" ?m] by (simp flip: unat_eq_iff)
qed

lemma checksum_iff: "sum_list (range_u64 0 (unat n)) = expected_checksum n \<longleftrightarrow> unat n * (unat n - 1) mod 2 ^ 65 < 2 ^ 64"
  unfolding sum_range_u64 by (rule checksum_wraps)

section \<open>The workloads\<close>

lemma latency_loop_sum:
  "ring_ok s \<Longrightarrow> ring_items s = [] \<Longrightarrow> 0 < ring_cap s \<Longrightarrow>
   \<exists>s'. latency_loop s vs acc = Some (s', acc + (\<Sum>v\<leftarrow>vs. v)) \<and> ring_ok s' \<and> ring_items s' = [] \<and> ring_cap s' = ring_cap s"
proof (induction vs arbitrary: s acc)
  case (Cons v vs)
  obtain s1 where s1: "ring_enq s v = Some (s1, Inr ())" "ring_ok s1" "ring_items s1 = [v]" "ring_cap s1 = ring_cap s"
    using rq.enq_room [OF Cons.prems(1)] Cons.prems(2,3) by fastforce
  then obtain s2 where s2: "ring_deq s1 = Some (s2, Some v)" "ring_ok s2" "ring_items s2 = []" "ring_cap s2 = ring_cap s"
    using rq.deq_item [OF s1(2,3)] by auto
  then show ?case using Cons.IH [of s2 "acc + v"] s1 Cons.prems(3) by (auto simp: pop_ok_def add.assoc)
qed simp

lemma received_orders:
  assumes "those (map make_order (range_u64 a n)) = Some orders"
  shows "map o_id orders = range_u64 a n"
  using assms
proof (induction "n - a" arbitrary: a orders)
  case (Suc m)
  then have r: "range_u64 a n = word_of_nat a # range_u64 (Suc a) n" "m = n - Suc a" by (simp_all add: range_u64_def upt_rec)
  then obtain x xs where x: "make_order (word_of_nat a) = Some x" "those (map make_order (range_u64 (Suc a) n)) = Some xs" "orders = x # xs"
    using Suc.prems by (auto split: option.splits)
  then show ?case using Suc.hyps(1) [OF r(2) x(2)] r(1) by (auto simp: make_order_def Order_new_def split: if_splits)
qed (simp add: range_u64_def)

lemma quantity_nonzero: "(k mod 1000) + 1 \<noteq> (0 :: u64)"
proof
  assume "(k mod 1000) + 1 = (0 :: u64)"
  then have "unat (k mod 1000) = unat (- 1 :: u64)" by (simp add: add_eq_0_iff2)
  moreover have "unat (- 1 :: u64) = 2 ^ 64 - 1" by (simp add: unsigned_minus_1_eq_mask mask_eq_exp_minus_1)
  moreover have "unat (k mod 1000) < 1000" by (simp add: unat_mod)
  ultimately show False by simp
qed

lemma make_order_total: "\<exists>x. make_order k = Some x \<and> o_id x = k"
  using quantity_nonzero [of k] by (simp add: make_order_def Order_new_def)

text \<open>The value of a string of digits, and that \<open>parse\<close> returns it or refuses an overflow.\<close>

definition digits_value :: "nat \<Rightarrow> string \<Rightarrow> nat" where
  "digits_value acc s = fold (\<lambda>c acc. acc * 10 + (of_char c - 48)) s acc"

lemma digits_value_ge: "acc \<le> digits_value acc s"
proof (induction s arbitrary: acc)
  case (Cons c s)
  have "acc \<le> acc * 10 + (of_char c - 48)" by simp
  also have "\<dots> \<le> digits_value acc (c # s)" using Cons [of "acc * 10 + (of_char c - 48)"] by (simp add: digits_value_def)
  finally show ?case .
qed (simp add: digits_value_def)

lemma parse_digits_value:
  "list_all (\<lambda>c. 48 \<le> (of_char c :: nat) \<and> (of_char c :: nat) \<le> 57) s \<Longrightarrow> acc < 2 ^ 64 \<Longrightarrow>
   parse_digits acc s = (if digits_value acc s < 2 ^ 64 then Some (digits_value acc s) else None)"
proof (induction s arbitrary: acc)
  case (Cons c s)
  let ?acc = "acc * 10 + (of_char c - 48) :: nat"
  have v: "digits_value acc (c # s) = digits_value ?acc s" by (simp add: digits_value_def)
  show ?case
  proof (cases "?acc < 2 ^ 64")
    case True
    then show ?thesis using Cons.IH [of ?acc] Cons.prems(1) unfolding v by (simp add: Let_def)
  next
    case False
    then show ?thesis using digits_value_ge [of ?acc s] Cons.prems(1) unfolding v by (simp add: Let_def)
  qed
qed (simp add: digits_value_def)

section \<open>Properties\<close>

text \<open>
  C26: The checksum of the harness is exact except for overflow. In every execution on weak memory in which the
  popping thread has received all \<open>n\<close> values pushed, the final assertion of \<open>run_u64\<close> and of \<open>run_order\<close> holds, if
  and only if bit 64 of \<open>n * (n - 1)\<close> is clear: the formula wraps before it halves. Up to \<open>2 ^ 32\<close> items it never fires.
\<close>

theorem throughput_checks:
  assumes "weak_reachable cfg capacity (w :: u64 Weak)" "weak_reachable cfg capacity (w' :: Order Weak)" "\<not> ring_relaxed_ordering cfg"
    and "prefix (y_sent (w_sys w)) (range_u64 0 (unat n))" "length (y_recv (w_sys w)) = unat n"
    and "those (map make_order (range_u64 0 (unat n))) = Some orders"
    and "prefix (y_sent (w_sys w')) orders" "length (y_recv (w_sys w')) = unat n"
  shows "(run_u64_check n (y_recv (w_sys w)) = Some () \<longleftrightarrow> unat n * (unat n - 1) mod 2 ^ 65 < 2 ^ 64) \<and>
    (run_order_check n (y_recv (w_sys w')) = Some () \<longleftrightarrow> unat n * (unat n - 1) mod 2 ^ 65 < 2 ^ 64)"
proof -
  note ids = received_orders [OF assms(6)]
  have "length orders = unat n" using arg_cong [OF ids, of length] by (simp add: range_u64_def)
  then have "y_recv (w_sys w') = orders" using assms(8) by (intro received_all [OF assms(2,3,7)]) simp
  moreover have "y_recv (w_sys w) = range_u64 0 (unat n)"
    using assms(5) by (intro received_all [OF assms(1,3,4)]) (simp add: range_u64_def)
  ultimately show ?thesis
    unfolding checksum_iff [symmetric] by (simp add: run_u64_check_def run_order_check_def fold_sum ids)
qed

theorem throughput_checks_witness:
  "\<exists>w w'. weak_reachable default_cfg 2 w \<and> weak_reachable default_cfg 2 w' \<and> length (y_recv (w_sys w)) = 1 \<and>
     run_u64_check 1 (y_recv (w_sys w)) = Some () \<and> run_order_check 1 (y_recv (w_sys w')) = Some ()"
proof -
  obtain x where x: "make_order 0 = Some x" using make_order_total by blast
  obtain w where w: "weak_reachable default_cfg 2 w" "w_sys w = ex_drained (0 :: u64)" using ex_drained_weak [of "0 :: u64"] by blast
  obtain w' where w': "weak_reachable default_cfg 2 w'" "w_sys w' = ex_drained x" using ex_drained_weak [of x] by blast
  have "\<not> ring_relaxed_ordering default_cfg" "y_sent (w_sys w) = [0]" "y_recv (w_sys w) = [0]"
    "y_sent (w_sys w') = [x]" "y_recv (w_sys w') = [x]" "those (map make_order (range_u64 0 (unat (1 :: u64)))) = Some [x]"
    by (simp_all add: default_cfg_def w(2) w'(2) ex_drained_def range_u64_def x)
  then have "run_u64_check 1 (y_recv (w_sys w)) = Some () \<and> run_order_check 1 (y_recv (w_sys w')) = Some ()"
    and "length (y_recv (w_sys w)) = 1"
    using throughput_checks [OF w(1) w'(1), where n = 1 and orders = "[x]"] by (simp_all add: range_u64_def)
  then show ?thesis using w(1) w'(1) by blast
qed

text \<open>
  The single-threaded workload runs through at every count: no push finds the ring full, no pop finds it
  empty, and its assertion fires only by the overflow of its formula.
\<close>

theorem run_latency_checks:
  "run_latency n = Some () \<longleftrightarrow> unat n * (unat n - 1) mod 2 ^ 65 < 2 ^ 64"
proof -
  have "is_power_of_two 1024" by code_simp
  then obtain s :: "u64 Ring" where s: "ring_buffer 1024 = Some s" by (simp add: ring_buffer_def)
  note ok = ring_buffer_ok [OF s]
  obtain s' where "latency_loop s (range_u64 0 (unat n)) 0 = Some (s', 0 + (\<Sum>v\<leftarrow>range_u64 0 (unat n). v))"
    using latency_loop_sum [OF ok(1,2), of "range_u64 0 (unat n)" 0] ok(3) by auto
  then show ?thesis unfolding checksum_iff [symmetric] by (simp add: run_latency_def s)
qed

text \<open>Such an overflow: one more than \<open>2 ^ 32\<close> items.\<close>

theorem run_latency_overflow: "run_latency (2 ^ 32 + 1) \<noteq> Some ()"
proof -
  have "unat (2 ^ 32 + 1 :: u64) = 2 ^ 32 + 1" by simp
  then show ?thesis unfolding run_latency_checks by simp
qed

text \<open>
  Pinning never panics, and the mask it passes has exactly the bit of the chosen CPU.
\<close>

theorem pin_mask_exact:
  assumes "cpu < 1024"
  shows "\<exists>mask. pin_current_thread sched_setaffinity cpu = Some (sched_setaffinity mask) \<and> length mask = 16 \<and>
    (\<forall>j<1024. bit (mask ! (j div 64)) (j mod 64) \<longleftrightarrow> j = unat cpu)"
proof -
  let ?i = "unat cpu div 64" and ?k = "unat cpu mod 64"
  let ?mask = "(replicate 16 0)[?i := push_bit ?k (1 :: u64)]"
  have "unat cpu < 1024" using assms by (simp add: word_less_nat_alt)
  then have i: "?i < 16" by (simp add: less_mult_imp_div_less)
  have "bit (?mask ! (j div 64)) (j mod 64) \<longleftrightarrow> j = unat cpu" if "j < 1024" for j
  proof -
    have j: "j div 64 < 16" "j mod 64 < 64" using that by (simp_all add: less_mult_imp_div_less)
    have "j = unat cpu \<longleftrightarrow> j div 64 = ?i \<and> j mod 64 = ?k" by (metis div_mult_mod_eq)
    then show ?thesis using i j by (cases "j div 64 = ?i") (auto simp: bit_push_bit_iff bit_1_iff bit_exp_iff)
  qed
  moreover have "\<not> 1024 \<le> cpu" using assms by (simp only: not_le)
  ultimately show ?thesis
    using i by (intro exI [of _ ?mask]) (simp add: pin_current_thread_def unat_div unat_mod Let_def)
qed

theorem pin_mask_exact_witness:
  "\<exists>mask. pin_current_thread (\<lambda>_. Inr ()) 65 = Some (Inr ()) \<and> length mask = 16 \<and>
    (\<forall>j<1024. bit ((mask :: u64 list) ! (j div 64)) (j mod 64) \<longleftrightarrow> j = unat (65 :: usize))"
  using pin_mask_exact [of 65 "\<lambda>_. Inr ()"] by auto

text \<open>
  The harness prints the label \<open>seq_cst\<close> for a build with both ordering flags, whose ring uses \<open>Relaxed\<close>: it tests the
  flags in the other order.
\<close>

theorem ordering_label_disagrees:
  "ordering_label \<lparr>ring_relaxed_ordering = True, ring_seqcst = True, ring_no_cursor_cache = b\<rparr> = ''seq_cst'' \<and>
   STORE_ORDER \<lparr>ring_relaxed_ordering = True, ring_seqcst = True, ring_no_cursor_cache = b\<rparr> = Relaxed"
  by (simp add: ordering_label_def STORE_ORDER_def)

end
