(* ===== verification/AsmProbe.thy ===== *)
theory AsmProbe
  imports RingBench
begin

text \<open>
  \<open>scripts/asm_probe.rs\<close>: the out-of-line copies of the ring's operations whose machine code is inspected. The
  comparison of their code assumes that they compute the same: the loop with its panic paths and the one
  without, the bench that drops the ring and the one that leaks it.
\<close>

section \<open>The code\<close>

definition push_u64 :: "u64 Ring \<Rightarrow> u64 \<Rightarrow> (u64 Ring \<times> bool) option" where
  "push_u64 s v = do { (s, r) \<leftarrow> ring_enq s v; Some (s, is_ok r) }"

definition pop_u64 :: "u64 Ring \<Rightarrow> (u64 Ring \<times> u64) option" where
  "pop_u64 s = do { (s, r) \<leftarrow> ring_deq s; Some (s, case r of None \<Rightarrow> 0 | Some v \<Rightarrow> v) }"

definition probe_latency_loop :: "u64 Ring \<Rightarrow> u64 \<Rightarrow> (u64 Ring \<times> u64) option" where
  "probe_latency_loop s n = latency_loop s (range_u64 0 (unat n)) 0"

fun nounwrap_loop :: "u64 Ring \<Rightarrow> u64 list \<Rightarrow> u64 \<Rightarrow> (u64 Ring \<times> u64) option" where
  "nounwrap_loop s [] acc = Some (s, acc)"
| "nounwrap_loop s (i # is) acc = do {
     (s, _) \<leftarrow> ring_enq s i;
     (s, r) \<leftarrow> ring_deq s;
     nounwrap_loop s is (case r of Some v \<Rightarrow> acc + v | None \<Rightarrow> acc)
   }"

definition latency_loop_nounwrap :: "u64 Ring \<Rightarrow> u64 \<Rightarrow> (u64 Ring \<times> u64) option" where
  "latency_loop_nounwrap s n = nounwrap_loop s (range_u64 0 (unat n)) 0"

text \<open>The ring is dropped at the end of \<open>latency_bench\<close>, and forgotten in \<open>latency_bench_leak\<close>.\<close>

definition latency_bench :: "u64 \<Rightarrow> u64 option" where
  "latency_bench n = do {
     s \<leftarrow> ring_buffer 1024;
     (s, sum) \<leftarrow> latency_loop s (range_u64 0 (unat n)) 0;
     (_, _) \<leftarrow> ring_drop (fst s);
     Some sum
   }"

definition latency_bench_leak :: "u64 \<Rightarrow> u64 option" where
  "latency_bench_leak n = do {
     s \<leftarrow> ring_buffer 1024;
     (s, sum) \<leftarrow> latency_loop s (range_u64 0 (unat n)) 0;
     Some sum
   }"

text \<open>\<open>main\<close>, where \<open>v\<close> is the number of arguments: what its calls return.\<close>

definition probe_main :: "u64 \<Rightarrow> (bool \<times> u64 list) option" where
  "probe_main v = do {
     s \<leftarrow> ring_buffer 1024;
     (s, pushed) \<leftarrow> push_u64 s v;
     (s, popped) \<leftarrow> pop_u64 s;
     (s, sum1) \<leftarrow> probe_latency_loop s v;
     (s, sum2) \<leftarrow> latency_loop_nounwrap s v;
     sum3 \<leftarrow> latency_bench v;
     sum4 \<leftarrow> latency_bench_leak v;
     Some (pushed, [popped, sum1, sum2, sum3, sum4])
   }"

section \<open>Properties\<close>

text \<open>One push and one pop on an empty ring give the value back, and leave it empty.\<close>

lemma push_pop_empty:
  assumes "ring_ok s" "ring_items s = []" "0 < ring_cap s"
  obtains s1 s2 where "ring_enq s v = Some (s1, Inr ())" "ring_deq s1 = Some (s2, Some v)" "ring_ok s2"
    "ring_items s2 = []" "ring_cap s2 = ring_cap s"
proof -
  obtain s1 where s1: "ring_enq s v = Some (s1, Inr ())" "ring_ok s1" "ring_items s1 = [v]" "ring_cap s1 = ring_cap s"
    using rq.enq_room [OF assms(1)] assms(2,3) by fastforce
  then obtain s2 where "ring_deq s1 = Some (s2, Some v)" "ring_ok s2" "ring_items s2 = []" "ring_cap s2 = ring_cap s"
    using rq.deq_item [OF s1(2,3)] by auto
  with s1(1) show thesis by (rule that)
qed

lemma loops_agree:
  "ring_ok s \<Longrightarrow> ring_items s = [] \<Longrightarrow> 0 < ring_cap s \<Longrightarrow> nounwrap_loop s vs acc = latency_loop s vs acc"
proof (induction vs arbitrary: s acc)
  case (Cons v vs)
  obtain s1 s2 where "ring_enq s v = Some (s1, Inr ())" "ring_deq s1 = Some (s2, Some v)" "ring_ok s2"
    "ring_items s2 = []" "ring_cap s2 = ring_cap s"
    by (rule push_pop_empty [OF Cons.prems])
  then show ?case using Cons.IH [of s2 "acc + v"] Cons.prems(3) by (simp add: pop_ok_def)
qed simp

lemma drop_empty: "ring_items s = [] \<Longrightarrow> ring_drop (fst s) = Some (fst s, [])"
  by (cases s) (simp add: ring_items_def ring_drop_def drop_loop.simps unat_eq_zero)

lemma ring_1024: "\<exists>s. ring_buffer 1024 = Some s \<and> ring_ok s \<and> ring_items s = [] \<and> 0 < ring_cap s"
proof -
  have "is_power_of_two 1024" by code_simp
  then obtain s :: "'a Ring" where s: "ring_buffer 1024 = Some s" by (simp add: ring_buffer_def)
  then show ?thesis using ring_buffer_ok [OF s] by auto
qed

text \<open>
  \<open>latency_loop_nounwrap\<close> computes what \<open>latency_loop\<close> does on every empty ring, in the same state of the ring: the
  comment that a full ring or an empty pop is impossible there is right.
\<close>

theorem probe_loops_agree:
  assumes "ring_ok s" "ring_items s = []" "0 < ring_cap s"
  shows "latency_loop_nounwrap s n = probe_latency_loop s n \<and> probe_latency_loop s n \<noteq> None"
  unfolding latency_loop_nounwrap_def probe_latency_loop_def
  using loops_agree [OF assms] latency_loop_sum [OF assms] by (metis option.discI)

theorem probe_loops_agree_witness:
  "\<exists>s. ring_buffer 1024 = Some s \<and> latency_loop_nounwrap s 2000 = probe_latency_loop s 2000 \<and> probe_latency_loop s 2000 \<noteq> None"
  using ring_1024 probe_loops_agree by blast

text \<open>
  The probe's \<open>main\<close> returns: the push succeeds, the pop gives the value back, and the four timed loops all end
  with the wrapping sum of the numbers below the count, whether the ring is dropped or leaked.
\<close>

theorem probe_main_returns:
  "probe_main v = (let sum = word_of_nat (unat v * (unat v - 1) div 2) in Some (True, [v, sum, sum, sum, sum]))"
proof -
  obtain s :: "u64 Ring" where s: "ring_buffer 1024 = Some s" "ring_ok s" "ring_items s = []" "0 < ring_cap s"
    using ring_1024 by blast
  obtain s1 s2 where s2: "ring_enq s v = Some (s1, Inr ())" "ring_deq s1 = Some (s2, Some v)" "ring_ok s2"
    "ring_items s2 = []" "ring_cap s2 = ring_cap s"
    by (rule push_pop_empty [OF s(2-4)])
  let ?vs = "range_u64 0 (unat v)" and ?sum = "sum_list (range_u64 0 (unat v))"
  obtain s3 where s3: "latency_loop s2 ?vs 0 = Some (s3, ?sum)" "ring_ok s3" "ring_items s3 = []" "ring_cap s3 = ring_cap s"
    using latency_loop_sum [of s2 ?vs 0] s2(3-5) s(4) by auto
  obtain s4 where s4: "latency_loop s3 ?vs 0 = Some (s4, ?sum)"
    using latency_loop_sum [of s3 ?vs 0] s3(2-4) s(4) by auto
  obtain s5 where s5: "latency_loop s ?vs 0 = Some (s5, ?sum)" "ring_items s5 = []"
    using latency_loop_sum [OF s(2-4), of ?vs 0] by auto
  have "nounwrap_loop s3 ?vs 0 = Some (s4, ?sum)" using loops_agree [of s3 ?vs 0] s3(2-4) s(4) s4 by simp
  then show ?thesis
    using s(1) s2(1,2) s3(1) s5(1) drop_empty [OF s5(2)]
    by (simp add: probe_main_def push_u64_def pop_u64_def probe_latency_loop_def latency_loop_nounwrap_def latency_bench_def
      latency_bench_leak_def is_ok_def sum_range_u64 Let_def)
qed

end
