(* ===== verification/ProtocolTests.thy ===== *)
theory ProtocolTests
  imports Protocol Testing
begin

text \<open>
  The unit tests of \<open>src/protocol.rs\<close>, run on the model with the byte layouts of \<open>Protocol\<close>. A buffer
  \<open>[0u8; n]\<close> is \<open>replicate n 0\<close>.
\<close>

section \<open>The tests of \<open>src/protocol.rs\<close>\<close>

definition roundtrip_new_order_bid :: "unit option" where
  "roundtrip_new_order_bid = do {
     let order = \<lparr>o_id = 42, o_trader_id = 7, o_side = Bid, o_price = I64 15005, o_quantity = 100, o_timestamp = 0\<rparr>;
     let buf = replicate NEW_ORDER_SIZE 0;
     (buf, _) \<leftarrow> unwrap (Some (encode_new_order buf order));
     decoded \<leftarrow> unwrap_res (decode_new_order buf);
     assert (o_id decoded = 42);
     assert (o_trader_id decoded = 7);
     assert (o_side decoded = Bid);
     assert (o_price decoded = I64 15005);
     assert (o_quantity decoded = 100);
     assert (o_timestamp decoded = 0)
   }"

definition roundtrip_new_order_ask :: "unit option" where
  "roundtrip_new_order_ask = do {
     let order = \<lparr>o_id = 99, o_trader_id = 3, o_side = Ask, o_price = I64 (- 500), o_quantity = 1, o_timestamp = 0\<rparr>;
     let buf = replicate NEW_ORDER_SIZE 0;
     (buf, _) \<leftarrow> unwrap (Some (encode_new_order buf order));
     decoded \<leftarrow> unwrap_res (decode_new_order buf);
     assert (o_side decoded = Ask);
     assert (o_price decoded = I64 (- 500))
   }"

definition roundtrip_cancel_order :: "unit option" where
  "roundtrip_cancel_order = do {
     let buf = replicate CANCEL_ORDER_SIZE 0;
     (buf, _) \<leftarrow> unwrap (Some (encode_cancel_order buf 12345));
     assert (holds_at buf 0 (\<lambda>b. b = MSG_CANCEL_ORDER));
     order_id \<leftarrow> unwrap_res (decode_cancel_order buf);
     assert (order_id = 12345)
   }"

definition roundtrip_execution_report :: "unit option" where
  "roundtrip_execution_report = do {
     let fill = \<lparr>f_taker_order_id = 10, f_maker_order_id = 20, f_price = I64 9999, f_quantity = 50, f_maker_fully_filled = True\<rparr>;
     let buf = replicate EXECUTION_REPORT_SIZE 0;
     (buf, _) \<leftarrow> unwrap (Some (encode_execution_report buf 1 fill 123456789));
     report \<leftarrow> unwrap_res (decode_execution_report buf);
     assert (x_seq_num report = 1);
     assert (x_taker_order_id report = 10);
     assert (x_maker_order_id report = 20);
     assert (x_price report = I64 9999);
     assert (x_quantity report = 50);
     assert (x_timestamp report = 123456789)
   }"

definition side_mapping_bid_is_zero_ask_is_one :: "unit option" where
  "side_mapping_bid_is_zero_ask_is_one = do {
     assert (encode_side Bid = 0);
     assert (encode_side Ask = 1);
     s \<leftarrow> unwrap_res (decode_side 0);
     assert (s = Bid);
     s \<leftarrow> unwrap_res (decode_side 1);
     assert (s = Ask)
   }"

definition new_order_buffer_too_short :: "unit option" where
  "new_order_buffer_too_short = do {
     let buf = replicate (NEW_ORDER_SIZE - 1) 0;
     assert (decode_new_order buf = Inl BufferTooShort)
   }"

definition cancel_order_buffer_too_short :: "unit option" where
  "cancel_order_buffer_too_short = do {
     let buf = replicate (CANCEL_ORDER_SIZE - 1) 0;
     assert (decode_cancel_order buf = Inl BufferTooShort)
   }"

definition execution_report_buffer_too_short :: "unit option" where
  "execution_report_buffer_too_short = do {
     let buf = replicate (EXECUTION_REPORT_SIZE - 1) 0;
     assert (decode_execution_report buf = Inl BufferTooShort)
   }"

definition unknown_message_type :: "unit option" where
  "unknown_message_type = do {
     let buf = replicate NEW_ORDER_SIZE 0xFF;
     assert (decode_message buf = Inl (UnknownMessageType 0xFF))
   }"

definition invalid_side :: "unit option" where
  "invalid_side = do {
     let buf = replicate NEW_ORDER_SIZE 0;
     buf \<leftarrow> vec_set buf 0 MSG_NEW_ORDER;
     buf \<leftarrow> vec_set buf 1 2;
     buf \<leftarrow> put_range buf 32 (u64_to_le_bytes 100);
     assert (decode_new_order buf = Inl (InvalidSide 2))
   }"

definition zero_quantity_rejected :: "unit option" where
  "zero_quantity_rejected = do {
     let buf = replicate NEW_ORDER_SIZE 0;
     buf \<leftarrow> vec_set buf 0 MSG_NEW_ORDER;
     buf \<leftarrow> vec_set buf 1 0;
     assert (decode_new_order buf = Inl PZeroQuantity)
   }"

definition encode_new_order_buffer_too_short :: "unit option" where
  "encode_new_order_buffer_too_short = do {
     let order = \<lparr>o_id = 1, o_trader_id = 1, o_side = Bid, o_price = I64 100, o_quantity = 10, o_timestamp = 0\<rparr>;
     let buf = replicate (NEW_ORDER_SIZE - 1) 0;
     assert (snd (encode_new_order buf order) = Inl BufferTooShort)
   }"

definition encode_execution_report_buffer_too_short :: "unit option" where
  "encode_execution_report_buffer_too_short = do {
     let fill = \<lparr>f_taker_order_id = 1, f_maker_order_id = 2, f_price = I64 100, f_quantity = 10, f_maker_fully_filled = True\<rparr>;
     let buf = replicate (EXECUTION_REPORT_SIZE - 1) 0;
     assert (snd (encode_execution_report buf 1 fill 0) = Inl BufferTooShort)
   }"

definition decode_message_dispatches_new_order :: "unit option" where
  "decode_message_dispatches_new_order = do {
     let order = \<lparr>o_id = 5, o_trader_id = 3, o_side = Ask, o_price = I64 200, o_quantity = 50, o_timestamp = 0\<rparr>;
     let buf = replicate NEW_ORDER_SIZE 0;
     (buf, _) \<leftarrow> unwrap (Some (encode_new_order buf order));
     cmd \<leftarrow> unwrap_res (decode_message buf);
     case cmd of
       NewOrder x \<Rightarrow> do {
         assert (o_id x = 5);
         assert (o_side x = Ask)
       }
     | _ \<Rightarrow> None
   }"

definition decode_message_dispatches_cancel :: "unit option" where
  "decode_message_dispatches_cancel = do {
     let buf = replicate CANCEL_ORDER_SIZE 0;
     (buf, _) \<leftarrow> unwrap (Some (encode_cancel_order buf 999));
     cmd \<leftarrow> unwrap_res (decode_message buf);
     assert (cmd = CancelOrder 999)
   }"

definition i64_MIN :: i64 where "i64_MIN = I64 0x8000000000000000"
definition i64_MAX :: i64 where "i64_MAX = I64 0x7FFFFFFFFFFFFFFF"
definition u64_MAX :: u64 where "u64_MAX = - 1"

definition negative_price_roundtrips :: "unit option" where
  "negative_price_roundtrips = do {
     let order = \<lparr>o_id = 1, o_trader_id = 1, o_side = Bid, o_price = i64_MIN, o_quantity = 1, o_timestamp = 0\<rparr>;
     let buf = replicate NEW_ORDER_SIZE 0;
     (buf, _) \<leftarrow> unwrap (Some (encode_new_order buf order));
     decoded \<leftarrow> unwrap_res (decode_new_order buf);
     assert (o_price decoded = i64_MIN)
   }"

definition max_values_roundtrip :: "unit option" where
  "max_values_roundtrip = do {
     let order = \<lparr>o_id = u64_MAX, o_trader_id = u64_MAX, o_side = Ask, o_price = i64_MAX, o_quantity = u64_MAX, o_timestamp = 0\<rparr>;
     let buf = replicate NEW_ORDER_SIZE 0;
     (buf, _) \<leftarrow> unwrap (Some (encode_new_order buf order));
     decoded \<leftarrow> unwrap_res (decode_new_order buf);
     assert (o_id decoded = u64_MAX);
     assert (o_trader_id decoded = u64_MAX);
     assert (o_price decoded = i64_MAX);
     assert (o_quantity decoded = u64_MAX)
   }"

definition reserved_bytes_ignored :: "unit option" where
  "reserved_bytes_ignored = do {
     let order = \<lparr>o_id = 1, o_trader_id = 1, o_side = Bid, o_price = I64 100, o_quantity = 10, o_timestamp = 0\<rparr>;
     let buf = replicate NEW_ORDER_SIZE 0;
     (buf, _) \<leftarrow> unwrap (Some (encode_new_order buf order));
     buf \<leftarrow> put_range buf 2 (replicate 6 0xFF);
     decoded \<leftarrow> unwrap_res (decode_new_order buf);
     assert (o_id decoded = 1);
     assert (o_quantity decoded = 10)
   }"

definition message_size_lookup :: "unit option" where
  "message_size_lookup = do {
     n \<leftarrow> unwrap_res (message_size MSG_NEW_ORDER);
     assert (n = NEW_ORDER_SIZE);
     n \<leftarrow> unwrap_res (message_size MSG_CANCEL_ORDER);
     assert (n = CANCEL_ORDER_SIZE);
     assert (\<not> is_ok (message_size 0xFF))
   }"

definition empty_buffer_returns_error :: "unit option" where
  "empty_buffer_returns_error = do {
     let buf = [];
     assert (decode_message buf = Inl BufferTooShort)
   }"

section \<open>They pass\<close>

lemma encoded_messages:
  "encode_new_order (replicate NEW_ORDER_SIZE 0) x = (new_order_bytes x, Inr NEW_ORDER_SIZE)"
  "encode_cancel_order (replicate CANCEL_ORDER_SIZE 0) k = (cancel_order_bytes k, Inr CANCEL_ORDER_SIZE)"
  "encode_execution_report (replicate EXECUTION_REPORT_SIZE 0) n f ts = (report_bytes n f ts, Inr EXECUTION_REPORT_SIZE)"
  by (simp_all add: encode_new_order_bytes encode_cancel_order_bytes encode_report_bytes)

lemmas decoded_messages =
  decode_new_order_bytes [where rest = "[]", simplified] decode_cancel_order_bytes [where rest = "[]", simplified]
  decode_report_bytes [where rest = "[]", simplified] decode_message_bytes [where rest = "[]", simplified]

lemma cancel_order_tag: "vec_get (cancel_order_bytes k) 0 = Some MSG_CANCEL_ORDER"
  by (simp add: cancel_order_bytes_def)

lemma codec_tests:
  "all_pass [roundtrip_new_order_bid, roundtrip_new_order_ask, roundtrip_cancel_order, roundtrip_execution_report,
     decode_message_dispatches_new_order, decode_message_dispatches_cancel, negative_price_roundtrips, max_values_roundtrip]"
  by (simp add: roundtrip_new_order_bid_def roundtrip_new_order_ask_def roundtrip_cancel_order_def
      roundtrip_execution_report_def decode_message_dispatches_new_order_def decode_message_dispatches_cancel_def
      negative_price_roundtrips_def max_values_roundtrip_def encoded_messages decoded_messages Let_def holds_at_def
      cancel_order_tag u64_MAX_def)

lemma refusal_tests:
  "all_pass [side_mapping_bid_is_zero_ask_is_one, new_order_buffer_too_short, cancel_order_buffer_too_short,
     execution_report_buffer_too_short, unknown_message_type, invalid_side, zero_quantity_rejected,
     encode_new_order_buffer_too_short, encode_execution_report_buffer_too_short, reserved_bytes_ignored,
     message_size_lookup, empty_buffer_returns_error]"
  by code_simp

section \<open>Property\<close>

text \<open>
  Every unit test of the wire protocol passes on the model: the round trips, at the extreme values too,
  and the refusals of short buffers, unknown types, invalid sides and empty orders.
\<close>

theorem protocol_unit_tests_pass:
  "all_pass ([roundtrip_new_order_bid, roundtrip_new_order_ask, roundtrip_cancel_order, roundtrip_execution_report,
     decode_message_dispatches_new_order, decode_message_dispatches_cancel, negative_price_roundtrips, max_values_roundtrip] @
   [side_mapping_bid_is_zero_ask_is_one, new_order_buffer_too_short, cancel_order_buffer_too_short,
     execution_report_buffer_too_short, unknown_message_type, invalid_side, zero_quantity_rejected,
     encode_new_order_buffer_too_short, encode_execution_report_buffer_too_short, reserved_bytes_ignored,
     message_size_lookup, empty_buffer_returns_error])"
  unfolding all_pass_def list_all_append by (intro conjI codec_tests [unfolded all_pass_def] refusal_tests [unfolded all_pass_def])

end
