(* ===== verification/Loadgen.thy ===== *)
theory Loadgen
  imports Pipeline
begin

text \<open>
  \<open>examples/loadgen.rs\<close>: the load generator, without its clocks and printing. Direct mode fills the book
  with asks, pushes as many bids into the ring from the same thread, then pops and matches them, first
  a warm-up part and then the measured part. A failed \<open>unwrap\<close> and a push that spins forever, which
  happens when the ring is full since nobody else empties it, are both \<open>None\<close>. TCP mode sends the same
  orders to a gateway.

  Shown: with the sizes in the code direct mode completes, no \<open>unwrap\<close> fails and every bid is counted;
  one bid more than the ring holds would hang it. In TCP mode the gateway applies every order.
\<close>

section \<open>The code\<close>

definition ORDER_COUNT :: nat where "ORDER_COUNT = 1000000"
definition WARMUP_COUNT :: nat where "WARMUP_COUNT = 10000"
definition RING_CAPACITY :: usize where "RING_CAPACITY = 2 ^ 20"
definition LG_ARENA_CAPACITY :: u32 where "LG_ARENA_CAPACITY = 2 ^ 20"
definition PRICE_LEVELS :: nat where "PRICE_LEVELS = 50"

definition make_order :: "u64 \<Rightarrow> Side \<Rightarrow> i64 \<Rightarrow> u64 \<Rightarrow> Order option" where
  "make_order order_id side price qty = Order_new order_id order_id side price qty order_id"

definition level_price :: "nat \<Rightarrow> i64" where
  "level_price i = I64 (10000 + word_of_nat (i mod PRICE_LEVELS))"

subsection \<open>Direct mode\<close>

fun preload :: "nat list \<Rightarrow> u64 \<Rightarrow> MatchingEngine \<Rightarrow> (u64 \<times> MatchingEngine) option" where
  "preload [] next_id engine = Some (next_id, engine)"
| "preload (i # js) next_id engine = do {
     order \<leftarrow> make_order next_id Ask (level_price i) 10;
     (engine, r) \<leftarrow> add_order engine order;
     case r of Inl _ \<Rightarrow> None | Inr _ \<Rightarrow> preload js (next_id + 1) engine
   }"

partial_function (option) push_spin :: "EngineCommand Ring \<Rightarrow> EngineCommand \<Rightarrow> EngineCommand Ring option" where
  "push_spin s cmd = do {
     (s, r) \<leftarrow> ring_enq s cmd;
     case r of Inr _ \<Rightarrow> Some s | Inl returned \<Rightarrow> push_spin s returned
   }"

fun push_bids :: "nat list \<Rightarrow> u64 \<Rightarrow> EngineCommand Ring \<Rightarrow> (u64 \<times> EngineCommand Ring) option" where
  "push_bids [] next_id s = Some (next_id, s)"
| "push_bids (i # js) next_id s = do {
     order \<leftarrow> make_order next_id Bid (level_price i) 10;
     s \<leftarrow> push_spin s (NewOrder order);
     push_bids js (next_id + 1) s
   }"

record Harness =
  h_ring :: "EngineCommand Ring"
  h_engine :: MatchingEngine
  h_report_buf :: "u8 list"
  h_seq :: u32
  h_fill_count :: u64

fun encode_fills :: "u64 \<Rightarrow> Fill list \<Rightarrow> Harness \<Rightarrow> Harness" where
  "encode_fills ts [] h = h"
| "encode_fills ts (fill # fills) h =
     (let seq = h_seq h + 1;
          (buf, _) = encode_execution_report (h_report_buf h) seq fill ts
      in encode_fills ts fills
           (h\<lparr>h_seq := seq, h_report_buf := buf, h_fill_count := h_fill_count h + 1\<rparr>))"

text \<open>The body both loops share: match one popped command and encode its fills.\<close>

definition handle_popped :: "EngineCommand \<Rightarrow> Harness \<Rightarrow> Harness option" where
  "handle_popped cmd h =
     (case cmd of
        NewOrder order \<Rightarrow> do {
          (e, r) \<leftarrow> add_order (h_engine h) order;
          let h = h\<lparr>h_engine := e\<rparr>;
          Some (case r of Inr result \<Rightarrow> encode_fills (o_timestamp order) (r_fills result) h | Inl _ \<Rightarrow> h)
        }
      | CancelOrder order_id \<Rightarrow> do {
          (e, _) \<leftarrow> engine_cancel_order (h_engine h) order_id;
          Some (h\<lparr>h_engine := e\<rparr>)
        })"

text \<open>The warm-up loop, by the number of commands still wanted: the number done.\<close>

fun warmup_loop :: "nat \<Rightarrow> Harness \<Rightarrow> (Harness \<times> nat) option" where
  "warmup_loop 0 h = Some (h, 0)"
| "warmup_loop (Suc k) h = do {
     (s, r) \<leftarrow> ring_deq (h_ring h);
     case r of
       None \<Rightarrow> Some (h\<lparr>h_ring := s\<rparr>, 0)
     | Some cmd \<Rightarrow> do {
         h \<leftarrow> handle_popped cmd (h\<lparr>h_ring := s\<rparr>);
         (h, done) \<leftarrow> warmup_loop k h;
         Some (h, done + 1)
       }
   }"

partial_function (option) measured_loop :: "Harness \<Rightarrow> u64 \<Rightarrow> (Harness \<times> u64) option" where
  "measured_loop h measured_count = do {
     (s, r) \<leftarrow> ring_deq (h_ring h);
     case r of
       None \<Rightarrow> Some (h\<lparr>h_ring := s\<rparr>, measured_count)
     | Some cmd \<Rightarrow> do {
         h \<leftarrow> handle_popped cmd (h\<lparr>h_ring := s\<rparr>);
         measured_loop h (measured_count + 1)
       }
   }"

definition direct :: "nat \<Rightarrow> nat \<Rightarrow> usize \<Rightarrow> u32 \<Rightarrow> (Harness \<times> nat \<times> u64) option" where
  "direct n_orders warmup_count ring_capacity arena_capacity = do {
     s \<leftarrow> ring_buffer ring_capacity;
     (next_id, engine) \<leftarrow> preload [0..<n_orders] 1 (MatchingEngine_with_capacity arena_capacity);
     (next_id, s) \<leftarrow> push_bids [0..<n_orders] next_id s;
     let h = \<lparr>h_ring = s, h_engine = engine, h_report_buf = replicate EXECUTION_REPORT_SIZE 0,
              h_seq = 0, h_fill_count = 0\<rparr>;
     (h, warmup_done) \<leftarrow> warmup_loop warmup_count h;
     (h, measured_count) \<leftarrow> measured_loop (h\<lparr>h_fill_count := 0\<rparr>) 0;
     Some (h, warmup_done, measured_count)
   }"

definition run_direct :: "(Harness \<times> nat \<times> u64) option" where
  "run_direct = direct ORDER_COUNT WARMUP_COUNT RING_CAPACITY LG_ARENA_CAPACITY"

subsection \<open>TCP mode\<close>

text \<open>One of the two sending loops: the bytes written to the connection.\<close>

fun send_orders :: "Side \<Rightarrow> nat list \<Rightarrow> u64 \<Rightarrow> u8 list \<Rightarrow> (u64 \<times> u8 list \<times> u8 list) option" where
  "send_orders side [] next_id buf = Some (next_id, buf, [])"
| "send_orders side (i # js) next_id buf = do {
     order \<leftarrow> make_order next_id side (level_price i) 10;
     (case encode_new_order buf order of
        (buf, Inl _) \<Rightarrow> None
      | (buf, Inr _) \<Rightarrow> do {
          (next_id, buf', bytes) \<leftarrow> send_orders side js (next_id + 1) buf;
          Some (next_id, buf', buf @ bytes)
        })
   }"

definition tcp_bytes :: "nat \<Rightarrow> u8 list option" where
  "tcp_bytes n_orders = do {
     (next_id, buf, asks) \<leftarrow> send_orders Ask [0..<n_orders] 1 (replicate NEW_ORDER_SIZE 0);
     (next_id, buf, bids) \<leftarrow> send_orders Bid [0..<n_orders] next_id buf;
     Some (asks @ bids)
   }"

section \<open>Filling the book\<close>

definition lg_order :: "Side \<Rightarrow> u64 \<Rightarrow> nat \<Rightarrow> Order" where
  "lg_order side k i = \<lparr>o_id = k, o_trader_id = k, o_side = side, o_price = level_price i,
     o_quantity = 10, o_timestamp = k\<rparr>"

lemma make_order_eq: "make_order k side (level_price i) 10 = Some (lg_order side k i)"
  by (simp add: make_order_def Order_new_def lg_order_def)

text \<open>The book while it is filled: only asks, \<open>k\<close> of them, with the ids from one to \<open>k\<close>.\<close>

definition filled :: "nat \<Rightarrow> sides \<Rightarrow> bool" where
  "filled k Q \<longleftrightarrow> Q Bid = [] \<and> length (Q Ask) = k \<and> o_id ` set (Q Ask) \<subseteq> word_of_nat ` {1..k}"

lemma preload_add:
  fixes i :: nat
  assumes "engine_ok e" "filled k (engine_view e)" "k < engine_capacity e" "Suc k < 2 ^ 64"
  defines "t \<equiv> lg_order Ask (word_of_nat (Suc k)) i"
  shows "\<exists>e' r. add_order e t = Some (e', Inr r) \<and> engine_ok e' \<and>
    engine_view e' = (engine_view e)(Ask := enqueue t (engine_view e Ask)) \<and> engine_capacity e' = engine_capacity e"
proof -
  have "o_id t \<notin> view_ids (engine_view e)"
    using assms(2) word_of_nat_fresh [where n = k and 'a = 64] assms(4) by (auto simp: filled_def view_ids_def lg_order_def t_def)
  moreover have "(engine_view e)(Bid := []) = engine_view e"
    using assms(2) by (auto simp: filled_def fun_eq_iff)
  ultimately obtain r where "add_spec (engine_capacity e) (engine_view e) t =
      ((engine_view e)(Ask := enqueue t (engine_view e Ask)), Inr r)"
    using assms(2,3) by (auto simp: add_spec_def Let_def filled_def view_size_def lg_order_def t_def)
  from engine_add_order [OF assms(1) this] show ?thesis by blast
qed

lemma preload_step:
  assumes "engine_ok e" "filled k (engine_view e)" "k < engine_capacity e" "Suc k < 2 ^ 64"
  shows "\<exists>e' r. add_order e (lg_order Ask (word_of_nat (Suc k)) i) = Some (e', Inr r) \<and> engine_ok e' \<and>
    filled (Suc k) (engine_view e') \<and> engine_capacity e' = engine_capacity e"
proof -
  let ?t = "lg_order Ask (word_of_nat (Suc k)) i"
  obtain e' r where e': "add_order e ?t = Some (e', Inr r)" "engine_ok e'"
    "engine_view e' = (engine_view e)(Ask := enqueue ?t (engine_view e Ask))" "engine_capacity e' = engine_capacity e"
    using preload_add [OF assms, of i] by blast
  have "word_of_nat ` {1..k} \<subseteq> (word_of_nat ` {1..Suc k} :: u64 set)" by (intro image_mono) auto
  moreover have "o_id ?t \<in> word_of_nat ` {1..Suc k}"
    unfolding lg_order_def by (intro image_eqI [of _ _ "Suc k"]) simp_all
  ultimately have "filled (Suc k) (engine_view e')"
    using assms(2) unfolding filled_def e'(3) by auto
  then show ?thesis using e' by blast
qed

lemma preload_ok:
  "engine_ok e \<Longrightarrow> filled k (engine_view e) \<Longrightarrow> k + length js \<le> engine_capacity e \<Longrightarrow> k + length js < 2 ^ 64 \<Longrightarrow>
   \<exists>e'. preload js (word_of_nat (Suc k)) e = Some (word_of_nat (Suc (k + length js)), e') \<and> engine_ok e'"
proof (induction js arbitrary: k e)
  case (Cons j js)
  obtain e1 r where "add_order e (lg_order Ask (word_of_nat (Suc k)) j) = Some (e1, Inr r)" "engine_ok e1"
    "filled (Suc k) (engine_view e1)" "engine_capacity e1 = engine_capacity e"
    using preload_step [OF Cons.prems(1,2), of j] Cons.prems(3,4) by (auto simp del: of_nat_Suc)
  moreover have "word_of_nat (Suc k) + 1 = (word_of_nat (Suc (Suc k)) :: u64)" by simp
  ultimately show ?case
    using Cons.IH [of e1 "Suc k"] Cons.prems(3,4) by (simp add: make_order_eq del: of_nat_Suc)
qed simp

section \<open>Pushing and popping\<close>

lemma push_spin_room:
  assumes "ring_ok s" "length (ring_items s) < ring_cap s"
  shows "\<exists>s'. push_spin s cmd = Some s' \<and> ring_ok s' \<and> ring_items s' = ring_items s @ [cmd] \<and> ring_cap s' = ring_cap s"
  using rq.enq_room [OF assms, of cmd] by (subst push_spin.simps) auto

lemma push_bids_ok:
  "ring_ok s \<Longrightarrow> length (ring_items s) + length js \<le> ring_cap s \<Longrightarrow>
   \<exists>s' k' cmds. push_bids js k s = Some (k', s') \<and> ring_ok s' \<and> ring_items s' = ring_items s @ cmds \<and>
     length cmds = length js"
proof (induction js arbitrary: k s)
  case (Cons j js)
  obtain s1 where s1: "push_spin s (NewOrder (lg_order Bid k j)) = Some s1" "ring_ok s1"
    "ring_items s1 = ring_items s @ [NewOrder (lg_order Bid k j)]" "ring_cap s1 = ring_cap s"
    using push_spin_room [OF Cons.prems(1), of "NewOrder (lg_order Bid k j)"] Cons.prems(2) by auto
  obtain s2 k' cmds where "push_bids js (k + 1) s1 = Some (k', s2)" "ring_ok s2"
    "ring_items s2 = ring_items s1 @ cmds" "length cmds = length js"
    using Cons.IH [OF s1(2), of "k + 1"] Cons.prems(2) s1(3,4) by auto
  then show ?case using s1 by (auto simp: make_order_eq)
qed simp

lemma encode_fills_keeps: "h_engine (encode_fills ts fs h) = h_engine h \<and> h_ring (encode_fills ts fs h) = h_ring h"
  by (induction fs arbitrary: h) (auto simp: Let_def split: prod.splits)

lemma handle_popped_ok:
  assumes "engine_ok (h_engine h)"
  shows "\<exists>h'. handle_popped cmd h = Some h' \<and> engine_ok (h_engine h') \<and> h_ring h' = h_ring h \<and>
    replay_command (h_engine h) cmd = Some (h_engine h')"
proof -
  obtain e where e: "replay_command (h_engine h) cmd = Some e" "engine_ok e"
    using replay_command_ok [OF assms] by blast
  show ?thesis
  proof (cases cmd)
    case (NewOrder x)
    then obtain r where "add_order (h_engine h) x = Some (e, r)" using e(1) by (auto simp: replay_command_def)
    then show ?thesis using NewOrder e encode_fills_keeps by (cases r) (auto simp: handle_popped_def)
  next
    case (CancelOrder k)
    then show ?thesis using e by (auto simp: handle_popped_def replay_command_def)
  qed
qed

lemma warmup_ok:
  "ring_ok (h_ring h) \<Longrightarrow> engine_ok (h_engine h) \<Longrightarrow>
   \<exists>h'. warmup_loop k h = Some (h', min k (length (ring_items (h_ring h)))) \<and> ring_ok (h_ring h') \<and>
     engine_ok (h_engine h') \<and> ring_items (h_ring h') = drop k (ring_items (h_ring h)) \<and>
     run_cmds (h_engine h) (take k (ring_items (h_ring h))) = Some (h_engine h')"
proof (induction k arbitrary: h)
  case (Suc k)
  show ?case
  proof (cases "ring_items (h_ring h)")
    case Nil
    then show ?thesis using rq.deq_empty [OF Suc.prems(1)] Suc.prems(2) by auto
  next
    case (Cons cmd cmds)
    obtain s where s: "ring_deq (h_ring h) = Some (s, Some cmd)" "ring_ok s" "ring_items s = cmds"
      using rq.deq_item [OF Suc.prems(1) Cons] by blast
    obtain h1 where h1: "handle_popped cmd (h\<lparr>h_ring := s\<rparr>) = Some h1" "engine_ok (h_engine h1)" "h_ring h1 = s"
      "replay_command (h_engine h) cmd = Some (h_engine h1)"
      using handle_popped_ok [of "h\<lparr>h_ring := s\<rparr>" cmd] Suc.prems(2) by auto
    then show ?thesis using Suc.IH [of h1] s Cons by auto
  qed
qed simp

lemma measured_ok:
  "ring_ok (h_ring h) \<Longrightarrow> engine_ok (h_engine h) \<Longrightarrow>
   \<exists>h'. measured_loop h n = Some (h', n + word_of_nat (length (ring_items (h_ring h)))) \<and>
     ring_items (h_ring h') = [] \<and> run_cmds (h_engine h) (ring_items (h_ring h)) = Some (h_engine h')"
proof (induction "ring_items (h_ring h)" arbitrary: h n)
  case Nil
  then obtain s where "ring_deq (h_ring h) = Some (s, None)" "ring_items s = []"
    using rq.deq_empty [OF Nil.prems(1)] by metis
  then show ?case using Nil(1) [symmetric] by (subst measured_loop.simps) simp
next
  case (Cons cmd cmds)
  note items = Cons.hyps(2) [symmetric]
  obtain s where s: "ring_deq (h_ring h) = Some (s, Some cmd)" "ring_ok s" "ring_items s = cmds"
    using rq.deq_item [OF Cons.prems(1) items] by blast
  obtain h1 where h1: "handle_popped cmd (h\<lparr>h_ring := s\<rparr>) = Some h1" "engine_ok (h_engine h1)" "h_ring h1 = s"
    "replay_command (h_engine h) cmd = Some (h_engine h1)"
    using handle_popped_ok [of "h\<lparr>h_ring := s\<rparr>" cmd] Cons.prems(2) by auto
  obtain h' where "measured_loop h1 (n + 1) = Some (h', n + 1 + word_of_nat (length cmds))"
    "ring_items (h_ring h') = []" "run_cmds (h_engine h1) cmds = Some (h_engine h')"
    using Cons.hyps(1) [of h1 "n + 1"] s(2,3) h1(2,3) by auto
  then show ?case using s(1) h1 items by (subst measured_loop.simps) (simp add: add.assoc)
qed

lemma push_spin_full:
  assumes "push_spin s cmd = Some y" "ring_ok s" "length (ring_items s) = ring_cap s"
  shows False
proof -
  have "ring_ok s \<longrightarrow> length (ring_items s) \<noteq> ring_cap s"
  proof (rule push_spin.raw_induct [OF _ assms(1)])
    fix spin :: "EngineCommand Ring \<Rightarrow> EngineCommand \<Rightarrow> EngineCommand Ring option" and s cmd y
    assume IH: "\<And>s cmd y. spin s cmd = Some y \<Longrightarrow> ring_ok s \<longrightarrow> length (ring_items s) \<noteq> ring_cap s"
      and turn: "do { (s, r) \<leftarrow> ring_enq s cmd; case r of Inr _ \<Rightarrow> Some s | Inl returned \<Rightarrow> spin s returned } = Some y"
    show "ring_ok s \<longrightarrow> length (ring_items s) \<noteq> ring_cap s"
    proof (intro impI notI)
      assume full: "ring_ok s" "length (ring_items s) = ring_cap s"
      obtain s' where "ring_enq s cmd = Some (s', Inl cmd)" "ring_ok s'" "ring_items s' = ring_items s"
        "ring_cap s' = ring_cap s" using rq.enq_full [OF full] by blast
      then show False using IH [of s' cmd y] turn full by simp
    qed
  qed
  then show False using assms(2,3) by blast
qed

lemma push_bids_hang:
  "ring_ok s \<Longrightarrow> ring_cap s < length (ring_items s) + length js \<Longrightarrow> push_bids js k s = None"
proof (induction js arbitrary: k s)
  case Nil
  then show ?case using rq.items_bound [OF Nil(1)] by simp
next
  case (Cons j js)
  let ?cmd = "NewOrder (lg_order Bid k j)"
  show ?case
  proof (cases "length (ring_items s) < ring_cap s")
    case True
    obtain s1 where "push_spin s ?cmd = Some s1" "ring_ok s1" "ring_items s1 = ring_items s @ [?cmd]"
      "ring_cap s1 = ring_cap s"
      using push_spin_room [OF Cons.prems(1) True, of ?cmd] by blast
    then show ?thesis using Cons.IH [of s1 "k + 1"] Cons.prems(2) by (simp add: make_order_eq)
  next
    case False
    then have "length (ring_items s) = ring_cap s" using rq.items_bound [OF Cons.prems(1)] by simp
    then have "push_spin s ?cmd = None" using push_spin_full [OF _ Cons.prems(1)] by (meson not_None_eq)
    then show ?thesis by (simp add: make_order_eq)
  qed
qed

section \<open>Direct mode\<close>

lemma preloaded:
  assumes "n \<le> unat arena_capacity"
  shows "\<exists>e. preload [0..<n] 1 (MatchingEngine_with_capacity arena_capacity) = Some (word_of_nat (Suc n), e) \<and> engine_ok e"
proof -
  note new = engine_with_capacity [of arena_capacity]
  have "unat arena_capacity < 2 ^ 32" using unsigned_less [of arena_capacity] by simp
  then show ?thesis
    using preload_ok [OF new(1), of 0 "[0..<n]"] new(2,3) assms by (simp add: filled_def)
qed

lemma direct_works:
  assumes "ring_buffer ring_capacity = (Some s0 :: EngineCommand Ring option)" "n \<le> unat arena_capacity" "n \<le> unat ring_capacity"
  shows "\<exists>h. direct n w ring_capacity arena_capacity = Some (h, min w n, word_of_nat (n - w)) \<and> ring_items (h_ring h) = []"
proof -
  note ring = ring_buffer_ok [OF assms(1)]
  obtain e where e: "preload [0..<n] 1 (MatchingEngine_with_capacity arena_capacity) = Some (word_of_nat (Suc n), e)" "engine_ok e"
    using preloaded [OF assms(2)] by blast
  obtain s k where s: "push_bids [0..<n] (word_of_nat (Suc n)) s0 = Some (k, s)" "ring_ok s" "length (ring_items s) = n"
    using push_bids_ok [OF ring(1), of "[0..<n]" "word_of_nat (Suc n)"] ring(2,3) assms(3)
    by (auto simp del: of_nat_Suc)
  let ?h = "\<lparr>h_ring = s, h_engine = e, h_report_buf = replicate EXECUTION_REPORT_SIZE 0, h_seq = 0, h_fill_count = 0\<rparr>"
  obtain h1 where h1: "warmup_loop w ?h = Some (h1, min w n)" "ring_ok (h_ring h1)" "engine_ok (h_engine h1)"
    "ring_items (h_ring h1) = drop w (ring_items s)"
    using warmup_ok [of ?h w] s(2,3) e(2) by auto
  obtain h2 where "measured_loop (h1\<lparr>h_fill_count := 0\<rparr>) 0 = Some (h2, word_of_nat (n - w))" "ring_items (h_ring h2) = []"
    using measured_ok [of "h1\<lparr>h_fill_count := 0\<rparr>" 0] h1(2-4) s(3) by auto
  then show ?thesis using assms(1) e(1) s(1) h1(1) by (simp add: direct_def del: of_nat_Suc)
qed

text \<open>
  C40: Direct mode of the load generator completes exactly when the ring holds all its bids: then no
  \<open>unwrap\<close> fails, the warm-up and the measured loop together take every bid out of the ring, and the
  counts printed are right. With one bid more than the ring holds, the pushing loop never ends.
\<close>

theorem direct_completes:
  assumes "ring_buffer ring_capacity = (Some s0 :: EngineCommand Ring option)" "n \<le> unat arena_capacity"
  shows "if n \<le> unat ring_capacity
    then \<exists>h. direct n w ring_capacity arena_capacity = Some (h, min w n, word_of_nat (n - w)) \<and> ring_items (h_ring h) = []
    else direct n w ring_capacity arena_capacity = None"
proof (cases "n \<le> unat ring_capacity")
  case True
  then show ?thesis using direct_works [OF assms True, of w] by (simp only: if_True)
next
  case False
  obtain e where "preload [0..<n] 1 (MatchingEngine_with_capacity arena_capacity) = Some (word_of_nat (Suc n), e)"
    using preloaded [OF assms(2)] by blast
  moreover have "push_bids [0..<n] k s0 = None" for k
    using push_bids_hang [OF ring_buffer_ok(1) [OF assms(1)]] ring_buffer_ok(2,3) [OF assms(1)] False by simp
  ultimately show ?thesis using assms(1) False by (simp add: direct_def del: of_nat_Suc)
qed

theorem direct_completes_witness:
  "(\<exists>h. direct 2 1 2 4 = Some (h, 1, 1) \<and> ring_items (h_ring h) = []) \<and> direct 3 1 2 4 = None"
proof -
  have "is_power_of_two (2 :: usize)" by code_simp
  then obtain s0 :: "EngineCommand Ring" where "ring_buffer 2 = Some s0"
    by (auto simp: ring_buffer_def)
  from direct_completes [OF this, of 2 4 1] direct_completes [OF this, of 3 4 1] show ?thesis by simp
qed

text \<open>With the sizes in the code, direct mode completes: 10000 orders are warmed up and 990000 measured.\<close>

theorem run_direct_completes:
  "\<exists>h. run_direct = Some (h, 10000, 990000) \<and> ring_items (h_ring h) = []"
proof -
  have "is_power_of_two (RING_CAPACITY)" by (simp add: RING_CAPACITY_def) code_simp
  then obtain s0 :: "EngineCommand Ring" where "ring_buffer RING_CAPACITY = Some s0"
    by (auto simp: ring_buffer_def RING_CAPACITY_def)
  moreover have "ORDER_COUNT \<le> unat LG_ARENA_CAPACITY" "ORDER_COUNT \<le> unat RING_CAPACITY"
    by (simp_all add: ORDER_COUNT_def LG_ARENA_CAPACITY_def RING_CAPACITY_def)
  ultimately have "\<exists>h. run_direct = Some (h, min WARMUP_COUNT ORDER_COUNT, word_of_nat (ORDER_COUNT - WARMUP_COUNT)) \<and>
    ring_items (h_ring h) = []"
    unfolding run_direct_def by (rule direct_works)
  then show ?thesis by (simp add: ORDER_COUNT_def WARMUP_COUNT_def)
qed

section \<open>TCP mode\<close>

fun lg_cmds :: "Side \<Rightarrow> u64 \<Rightarrow> nat list \<Rightarrow> EngineCommand list" where
  "lg_cmds side k [] = []"
| "lg_cmds side k (i # js) = NewOrder (lg_order side k i) # lg_cmds side (k + 1) js"

lemma send_orders_bytes:
  "length buf = NEW_ORDER_SIZE \<Longrightarrow>
   \<exists>buf'. send_orders side js k buf =
     Some (k + word_of_nat (length js), buf', concat (map cmd_bytes (lg_cmds side k js))) \<and> length buf' = NEW_ORDER_SIZE"
proof (induction js arbitrary: k buf)
  case (Cons j js)
  let ?x = "lg_order side k j"
  have "encode_new_order buf ?x = (new_order_bytes ?x, Inr NEW_ORDER_SIZE)"
    using Cons.prems by (simp add: encode_new_order_bytes)
  moreover obtain buf' where "send_orders side js (k + 1) (new_order_bytes ?x) =
      Some (k + 1 + word_of_nat (length js), buf', concat (map cmd_bytes (lg_cmds side (k + 1) js)))"
    "length buf' = NEW_ORDER_SIZE"
    using Cons.IH [of "new_order_bytes ?x" "k + 1"] by (auto simp: size_defs)
  moreover have "cmd_bytes (NewOrder ?x) = new_order_bytes ?x" by (simp add: cmd_bytes_def)
  ultimately show ?case by (simp add: make_order_eq add.assoc)
qed simp

definition tcp_cmds :: "nat \<Rightarrow> EngineCommand list" where
  "tcp_cmds n = lg_cmds Ask 1 [0..<n] @ lg_cmds Bid (1 + word_of_nat n) [0..<n]"

lemma tcp_bytes_eq: "tcp_bytes n = Some (concat (map cmd_bytes (tcp_cmds n)))"
proof -
  obtain buf where "send_orders Ask [0..<n] 1 (replicate NEW_ORDER_SIZE 0) =
      Some (1 + word_of_nat n, buf, concat (map cmd_bytes (lg_cmds Ask 1 [0..<n])))" "length buf = NEW_ORDER_SIZE"
    using send_orders_bytes [of "replicate NEW_ORDER_SIZE 0" Ask "[0..<n]" 1] by auto
  moreover from this(2) obtain buf' where "send_orders Bid [0..<n] (1 + word_of_nat n) buf =
      Some (1 + word_of_nat n + word_of_nat n, buf', concat (map cmd_bytes (lg_cmds Bid (1 + word_of_nat n) [0..<n])))"
    using send_orders_bytes [of buf Bid "[0..<n]" "1 + word_of_nat n"] by auto
  ultimately show ?thesis by (simp add: tcp_bytes_def tcp_cmds_def)
qed

lemma lg_cmds_ok: "cmd \<in> set (lg_cmds side k js) \<Longrightarrow> cmd_ok cmd"
  by (induction js arbitrary: k) (auto simp: cmd_ok_def lg_order_def)

lemma length_lg_cmds [simp]: "length (lg_cmds side k js) = length js"
  by (induction js arbitrary: k) auto

text \<open>
  TCP mode, end to end: no encoding \<open>unwrap\<close> fails, and when the gateway has read the connection to its
  end and its matching thread has stopped, it has applied exactly the \<open>2 n\<close> orders generated, in order.
\<close>

theorem tcp_orders_applied:
  assumes "tcp_bytes n = Some bytes"
    and "running crc ser_fields ser os now config \<lparr>t_bytes = bytes, t_end = UnexpectedEof\<rparr> m q"
    and "matcher_ok crc m" "q_worker q = W_Stopped"
  shows "q_done q = stamped now 0 (tcp_cmds n) \<and> length (q_done q) = 2 * n \<and> q_client q = CL_Return (Inr ())"
proof -
  have "client_commands now 0 \<lparr>t_bytes = bytes, t_end = UnexpectedEof\<rparr> = (stamped now 0 (tcp_cmds n), Inr ())"
    using assms(1) lg_cmds_ok
    by (intro client_reads_frames [where n = 0 and last_cmd = "CancelOrder 0"])
      (auto simp: tcp_bytes_eq tcp_cmds_def length_cmd_bytes)
  then have "q_done q = stamped now 0 (tcp_cmds n)" "q_client q = CL_Return (Inr ())"
    using running_inv [OF assms(2,3)] assms(4) by (auto simp: pipe_invs draining_def taken_def pending_def)
  then show ?thesis by (simp add: stamped_def tcp_cmds_def)
qed

theorem tcp_orders_applied_witness:
  "\<exists>q bytes. tcp_bytes 1 = Some bytes \<and>
     running ex_crc ex_ser_fields ex_ser (\<lambda>_. True) (\<lambda>_. 9) ex_gateway \<lparr>t_bytes = bytes, t_end = UnexpectedEof\<rparr> ex_matcher q \<and>
     q_done q = stamped (\<lambda>_. 9) 0 (tcp_cmds 1) \<and> length (q_done q) = 2"
proof -
  obtain bytes where b: "tcp_bytes 1 = Some bytes" using tcp_bytes_eq by blast
  obtain q where r: "running ex_crc ex_ser_fields ex_ser (\<lambda>_. True) (\<lambda>_. 9) ex_gateway
      \<lparr>t_bytes = bytes, t_end = UnexpectedEof\<rparr> ex_matcher q" "q_worker q = W_Stopped"
    using ex_completes by blast
  from tcp_orders_applied [OF b r(1) ex_matcher_ok r(2)] b r(1) show ?thesis by auto
qed

end
