(* ===== verification/WalTests.thy ===== *)
theory WalTests
  imports Wal Testing
begin

text \<open>
  The unit tests of \<open>src/wal.rs\<close>, for every checksum function \<open>crc\<close> and on a system that grants every file size.
  Two tests change bytes of a record and rely on CRC-32 telling the two byte strings apart; what they rely
  on is a hypothesis. A closed file is the bytes of its map. Left out: that the file exists after it was
  opened, \<open>flush_async\<close>, and the two uses of \<open>matches!\<close> whose value the tests drop.
\<close>

unbundle bit_operations_syntax

section \<open>The tests of \<open>src/wal.rs\<close>\<close>




definition opened :: "(u8 list \<Rightarrow> u32) \<Rightarrow> (nat \<Rightarrow> bool) \<Rightarrow> u8 list \<Rightarrow> Wal option" where
  "opened crc os file = do { r \<leftarrow> wal_open crc os file; unwrap_res r }"

text \<open>\<open>for i in is { wal.append(&new_order_cmd(i)).unwrap() }\<close>, with the numbers returned.\<close>

fun append_each :: "(u8 list \<Rightarrow> u32) \<Rightarrow> (nat \<Rightarrow> bool) \<Rightarrow> Wal \<Rightarrow> EngineCommand list \<Rightarrow> (Wal \<times> (WalError + nat list)) option" where
  "append_each crc os wal [] = Some (wal, Inr [])"
| "append_each crc os wal (cmd # cmds) = do {
     (wal, seq) \<leftarrow> unwrap (wal_append crc os wal cmd);
     (wal, seqs) \<leftarrow> unwrap (append_each crc os wal cmds);
     Some (wal, Inr (seq # seqs))
   }"

text \<open>\<open>wal.iter_from(n).collect::<Result<Vec<_>, _>>()\<close>.\<close>

partial_function (option) collect ::
  "(u8 list \<Rightarrow> u32) \<Rightarrow> WalIterator \<Rightarrow> (nat \<times> EngineCommand) list \<Rightarrow> (WalError + (nat \<times> EngineCommand) list) option" where
  "collect crc it acc = do {
     (it, r) \<leftarrow> wal_next crc it;
     case r of
       None \<Rightarrow> Some (Inr acc)
     | Some (Inl e) \<Rightarrow> Some (Inl e)
     | Some (Inr rec) \<Rightarrow> collect crc it (acc @ [rec])
   }"

definition records_from :: "(u8 list \<Rightarrow> u32) \<Rightarrow> Wal \<Rightarrow> nat \<Rightarrow> (nat \<times> EngineCommand) list option" where
  "records_from crc wal n = do { r \<leftarrow> collect crc (iter_from wal n) []; unwrap_res r }"






















section \<open>Running them over the commands in the log\<close>

definition log_of :: "(u8 list \<Rightarrow> u32) \<Rightarrow> EngineCommand list \<Rightarrow> u8 list" where
  "log_of crc cmds = concat (map (\<lambda>cmd. record_form crc (cmd_bytes cmd) []) cmds)"

definition log_size :: "EngineCommand list \<Rightarrow> nat" where
  "log_size cmds = (\<Sum>cmd\<leftarrow>cmds. case cmd of NewOrder _ \<Rightarrow> 48 | CancelOrder _ \<Rightarrow> 24)"

lemma log_bytes_cmds: "log_bytes crc bs (map cmd_bytes cmds) \<longleftrightarrow> bs = log_of crc cmds"
proof (induction cmds arbitrary: bs)
  case (Cons cmd cmds)
  have "record_ok (cmd_bytes cmd) pad \<longleftrightarrow> pad = []" for pad
    using record_ok_cmd [of cmd] by (auto simp: record_ok_def record_size_cmd)
  then show ?case using Cons by (auto simp: log_of_def)
qed (simp add: log_of_def)

lemma length_log_of: "length (log_of crc cmds) = log_size cmds"
proof (induction cmds)
  case (Cons cmd cmds)
  have "length (record_form crc (cmd_bytes cmd) []) = (case cmd of NewOrder _ \<Rightarrow> 48 | CancelOrder _ \<Rightarrow> 24)"
    unfolding length_record_form [OF record_ok_cmd] record_size_cmd
    by (cases cmd) (simp_all add: length_cmd_bytes HEADER_SIZE_def)
  then show ?case using Cons by (simp add: log_of_def log_size_def)
qed (simp add: log_of_def log_size_def)

definition wal_is :: "(u8 list \<Rightarrow> u32) \<Rightarrow> EngineCommand list \<Rightarrow> Wal \<Rightarrow> bool" where
  "wal_is crc cmds w \<longleftrightarrow> wal_ok crc w (map cmd_bytes cmds) \<and> 256 \<le> w_mapped_size w"

lemma wal_isD:
  assumes "wal_is crc cmds w"
  shows "w_record_count w = length cmds" "w_write_pos w = log_size cmds" "w_mapped_size w = length (w_mmap w)"
    "w_mmap w = log_of crc cmds @ replicate (w_mapped_size w - log_size cmds) 0" "log_size cmds \<le> w_mapped_size w" "256 \<le> w_mapped_size w"
  using assms by (auto simp: wal_is_def wal_ok_def log_bytes_cmds length_log_of)

text \<open>The system grants every size.\<close>

definition granted :: "(nat \<Rightarrow> bool) \<Rightarrow> bool" where
  "granted os \<longleftrightarrow> (\<forall>n. os n)"

lemma open_log:
  assumes "granted os" "256 \<le> n"
  shows "\<exists>w. open_with_size crc os (log_of crc cmds @ replicate z 0) n = Some (Inr w) \<and> wal_is crc cmds w \<and>
    w_mapped_size w = max (log_size cmds + z) n"
  using open_exact [of crc "log_of crc cmds" "map cmd_bytes cmds" os z n] assms
  by (auto simp: granted_def log_bytes_cmds wal_is_def wal_ok_def length_log_of)

lemma default_size: "256 \<le> DEFAULT_INITIAL_SIZE"
  by (simp add: DEFAULT_INITIAL_SIZE_def)


lemma run_reopened [run_rules]:
  "granted os \<Longrightarrow> runs (wal_is crc cmds) f \<Longrightarrow> runs (wal_is crc cmds) (\<lambda>w. opened crc os (w_mmap w) \<bind> f)"
  unfolding runs_def
proof (intro allI impI)
  fix w
  assume "granted os" and f: "\<forall>s. wal_is crc cmds s \<longrightarrow> f s = Some ()" and w: "wal_is crc cmds w"
  then obtain w' where "open_with_size crc os (w_mmap w) DEFAULT_INITIAL_SIZE = Some (Inr w')" "wal_is crc cmds w'"
    using open_log [OF _ default_size, of os crc cmds "w_mapped_size w - log_size cmds"] wal_isD(4) [OF w] by auto
  then show "opened crc os (w_mmap w) \<bind> f = Some ()" using f by (simp add: opened_def wal_open_def)
qed

lemma append_grows: "wal_append crc os w cmd = Some (w', r) \<Longrightarrow> w_mapped_size w \<le> w_mapped_size w'"
  by (auto simp: wal_append_def ensure_capacity_def Let_def bind_eq_Some_conv split: prod.splits sum.splits if_splits)

lemma append_is:
  assumes "granted os" "wal_is crc cmds w"
  shows "\<exists>w'. wal_append crc os w cmd = Some (w', Inr (length cmds + 1)) \<and> wal_is crc (cmds @ [cmd]) w'"
  using append_ok [of crc w "map cmd_bytes cmds" os cmd] assms append_grows [of crc os w cmd]
  by (fastforce simp: granted_def wal_is_def room_def)


lemma upt_first: "[Suc n..<Suc (Suc (n + k))] = Suc n # [Suc (Suc n)..<Suc (Suc (n + k))]"
  by (simp add: upt_conv_Cons del: upt_Suc)

lemma run_assert_last [simp]: "runs A (\<lambda>_. assert True)"
  by (simp add: runs_def)

lemma append_each_is:
  "granted os \<Longrightarrow> wal_is crc cmds w \<Longrightarrow>
   \<exists>w'. append_each crc os w cs = Some (w', Inr [length cmds + 1..<length cmds + 1 + length cs]) \<and> wal_is crc (cmds @ cs) w'"
proof (induction cs arbitrary: cmds w)
  case (Cons c cs)
  obtain w1 where w1: "wal_append crc os w c = Some (w1, Inr (length cmds + 1))" "wal_is crc (cmds @ [c]) w1"
    using append_is [OF Cons.prems] by blast
  obtain w2 where "append_each crc os w1 cs = Some (w2, Inr [length cmds + 2..<length cmds + 2 + length cs])"
    "wal_is crc (cmds @ c # cs) w2"
    using Cons.IH [OF Cons.prems(1) w1(2)] by auto
  then show ?case using w1 by (simp add: upt_first del: upt_Suc)
qed simp

lemma run_append_each [run_rules]:
  "granted os \<Longrightarrow> runs (wal_is crc (cmds @ cs)) (\<lambda>w. f w [length cmds + 1..<length cmds + 1 + length cs]) \<Longrightarrow>
   runs (wal_is crc cmds) (\<lambda>w. unwrap (append_each crc os w cs) \<bind> (\<lambda>(w, s). f w s))"
  using append_each_is [of os crc cmds _ cs]
  by (intro run_unwrap [where r = "Inr [length cmds + 1..<length cmds + 1 + length cs]"]) (auto simp: calls_def)

lemma run_wal_fields [run_rules]:
  "length cmds = n \<Longrightarrow> runs (wal_is crc cmds) f \<Longrightarrow> runs (wal_is crc cmds) (\<lambda>w. assert (w_record_count w = n) \<bind> (\<lambda>_. f w))"
  "log_size cmds = n \<Longrightarrow> runs (wal_is crc cmds) f \<Longrightarrow> runs (wal_is crc cmds) (\<lambda>w. assert (w_write_pos w = n) \<bind> (\<lambda>_. f w))"
  "n < log_size cmds \<Longrightarrow> runs (wal_is crc cmds) f \<Longrightarrow> runs (wal_is crc cmds) (\<lambda>w. assert (n < w_mapped_size w) \<bind> (\<lambda>_. f w))"
  by (auto simp: runs_def dest: wal_isD)

definition numbered :: "nat \<Rightarrow> EngineCommand list \<Rightarrow> (nat \<times> EngineCommand) list" where
  "numbered n cmds = zip [Suc n..<Suc n + length cmds] (map logged cmds)"

lemma numbered_simps [simp]: "numbered n [] = []" "numbered n (c # cs) = (Suc n, logged c) # numbered (Suc n) cs"
  by (simp_all add: numbered_def upt_first del: upt_Suc)

lemma collect_step:
  "wal_next crc it = Some (it', None) \<Longrightarrow> collect crc it acc = Some (Inr acc)"
  "wal_next crc it = Some (it', Some (Inr r)) \<Longrightarrow> collect crc it acc = collect crc it' (acc @ [r])"
  by (subst collect.simps, simp)+

lemma collect_records:
  assumes "iter_at crc it (map cmd_bytes cmds)" "list_all cmd_ok cmds" "i_start_record it \<le> i_current_record it"
  shows "collect crc it acc = Some (Inr (acc @ numbered (i_current_record it) cmds))"
  using assms
proof (induction cmds arbitrary: it acc)
  case Nil
  then show ?case using collect_step(1) [OF wal_next_Nil] by simp
next
  case (Cons c cmds)
  obtain it' where it': "iter_at crc it' (map cmd_bytes cmds)" "i_current_record it' = i_current_record it + 1"
    "i_start_record it' = i_start_record it"
    "wal_next crc it = Some (it', Some (Inr (i_current_record it + 1, logged c)))"
    using wal_next_Cons [of crc it "cmd_bytes c" "map cmd_bytes cmds"] Cons.prems by (auto simp: decode_cmd_bytes)
  then show ?case
    using Cons.IH [OF it'(1), of "acc @ [(i_current_record it + 1, logged c)]"] Cons.prems
    by (simp add: collect_step(2) [OF it'(4)])
qed

lemma collect_skip:
  assumes "iter_at crc it (map cmd_bytes cmds)" "list_all cmd_ok cmds" "i_current_record it = 0" "i_start_record it = n"
  shows "collect crc it [] = Some (Inr (numbered n (drop n cmds)))"
proof (cases "drop n cmds")
  case Nil
  then obtain it' where "wal_next crc it = Some (it', None)"
    using wal_next_log [OF assms(1)] assms(3,4) by (auto simp: drop_map)
  then show ?thesis using Nil collect_step(1) by simp
next
  case (Cons c cs)
  have c: "cmd_ok c" "list_all cmd_ok cs"
    using assms(2) set_drop_subset [of n cmds] unfolding Cons by (auto simp: list_all_iff)
  obtain it' where it': "i_start_record it' = n" "iter_at crc it' (map cmd_bytes cs)" "i_current_record it' = n + 1"
    "wal_next crc it = Some (it', Some (Inr (n + 1, logged c)))"
    using wal_next_log [OF assms(1)] assms(3,4) Cons c(1) by (auto simp: drop_map decode_cmd_bytes)
  then show ?thesis
    using collect_records [OF it'(2) c(2), of "[(n + 1, logged c)]"] Cons by (simp add: collect_step(2) [OF it'(4)])
qed

lemma run_records [run_rules]:
  assumes "list_all cmd_ok cmds" "runs (wal_is crc cmds) (\<lambda>w. f w (numbered n (drop n cmds)))"
  shows "runs (wal_is crc cmds) (\<lambda>w. records_from crc w n \<bind> (\<lambda>rs. f w rs))"
  using assms collect_skip [OF iter_at_from, of crc _ cmds n n]
  by (auto simp: runs_def wal_is_def records_from_def iter_from_def)



























section \<open>Property\<close>







end
