(* ===== verification/BookTests.thy ===== *)
theory BookTests
  imports Matching Testing
begin

text \<open>
  The unit tests of \<open>src/order.rs\<close>, \<open>src/arena.rs\<close> and \<open>src/book.rs\<close>. Those of the arena are evaluated on
  the model as they are; those of the book, whose arenas have up to 1048576 slots, are run over its
  priority queues, with the contract \<open>order_book\<close>. Left out: the test of the size and alignment of \<open>OrderNode\<close>.
\<close>

section \<open>The tests of \<open>src/order.rs\<close>\<close>

definition create_bid_order :: "unit option" where
  "create_bid_order = do {
     order \<leftarrow> Order_new 1 1 Bid (I64 15005) 100 1000000;
     assert (o_id order = 1);
     assert (o_trader_id order = 1);
     assert (o_side order = Bid);
     assert (o_price order = I64 15005);
     assert (o_quantity order = 100);
     assert (o_timestamp order = 1000000)
   }"

definition create_ask_order :: "unit option" where
  "create_ask_order = do {
     order \<leftarrow> Order_new 2 1 Ask (I64 15010) 50 2000000;
     assert (o_side order = Ask);
     assert (o_quantity order = 50)
   }"

definition reject_zero_quantity :: "unit option" where
  "reject_zero_quantity = assert (Order_new 1 1 Bid (I64 15005) 0 1000000 = None)"

definition negative_price_allowed :: "unit option" where
  "negative_price_allowed = do {
     let order = Order_new 1 1 Bid (I64 (- 100)) 10 0;
     assert (order \<noteq> None)
   }"

section \<open>The tests of \<open>src/arena.rs\<close>\<close>

definition make_order :: "u64 \<Rightarrow> u64 \<Rightarrow> u64 \<Rightarrow> Order option" where
  "make_order order_id price qty = Order_new order_id order_id Bid (I64 price) qty order_id"

definition alloc_order :: "Arena \<Rightarrow> Order option \<Rightarrow> (Arena \<times> (ArenaError + u32)) option" where
  "alloc_order arena order = order \<bind> alloc arena"

definition ordernode_roundtrip :: "unit option" where
  "ordernode_roundtrip = do {
     order \<leftarrow> Order_new 1 2 Ask (I64 100) 50 999;
     let node = from_order order;
     let back = to_order node;
     assert (back = order)
   }"

definition arena_alloc_dealloc_cycle :: "unit option" where
  "arena_alloc_dealloc_cycle = do {
     let arena = Arena_new 4;
     (arena, i0) \<leftarrow> unwrap (alloc_order arena (make_order 1 100 10));
     (arena, i1) \<leftarrow> unwrap (alloc_order arena (make_order 2 101 20));
     (arena, i2) \<leftarrow> unwrap (alloc_order arena (make_order 3 102 30));
     (arena, i3) \<leftarrow> unwrap (alloc_order arena (make_order 4 103 40));
     assert (a_count arena = 4);
     assert (i0 = 0);
     assert (i1 = 1);
     assert (i2 = 2);
     assert (i3 = 3);
     arena \<leftarrow> dealloc arena i1;
     arena \<leftarrow> dealloc arena i3;
     assert (a_count arena = 2);
     (arena, i4) \<leftarrow> unwrap (alloc_order arena (make_order 5 104 50));
     (arena, i5) \<leftarrow> unwrap (alloc_order arena (make_order 6 105 60));
     assert (a_count arena = 4);
     assert (i4 = 3);
     assert (i5 = 1)
   }"

definition arena_full :: "unit option" where
  "arena_full = do {
     let arena = Arena_new 2;
     (arena, _) \<leftarrow> unwrap (alloc_order arena (make_order 1 100 10));
     (arena, _) \<leftarrow> unwrap (alloc_order arena (make_order 2 101 20));
     (arena, err) \<leftarrow> unwrap_err (alloc_order arena (make_order 3 102 30));
     assert (err = Full)
   }"

definition arena_zero_capacity :: "unit option" where
  "arena_zero_capacity = do {
     let arena = Arena_new 0;
     (arena, err) \<leftarrow> unwrap_err (alloc_order arena (make_order 1 100 10));
     assert (err = Full)
   }"

text \<open>What five of the tests begin with: three orders allocated and appended to a level.\<close>

definition three_in_level :: "u32 \<Rightarrow> (Arena \<times> PriceLevel \<times> u32 \<times> u32 \<times> u32) option" where
  "three_in_level capacity = do {
     let arena = Arena_new capacity;
     let level = PriceLevel_new;
     (arena, i0) \<leftarrow> unwrap (alloc_order arena (make_order 1 100 10));
     (arena, i1) \<leftarrow> unwrap (alloc_order arena (make_order 2 100 20));
     (arena, i2) \<leftarrow> unwrap (alloc_order arena (make_order 3 100 30));
     (arena, level) \<leftarrow> push_back arena level i0;
     (arena, level) \<leftarrow> push_back arena level i1;
     (arena, level) \<leftarrow> push_back arena level i2;
     Some (arena, level, i0, i1, i2)
   }"

definition push_back_builds_list :: "unit option" where
  "push_back_builds_list = do {
     (arena, level, i0, i1, i2) \<leftarrow> three_in_level 8;
     assert (l_head level = i0);
     assert (l_tail level = i2);
     assert (l_count level = 3);
     assert (l_qty level = 60);
     n0 \<leftarrow> arena_get arena i0;
     n1 \<leftarrow> arena_get arena i1;
     n2 \<leftarrow> arena_get arena i2;
     assert (n_prev n0 = ARENA_NULL);
     assert (n_next n0 = i1);
     assert (n_prev n1 = i0);
     assert (n_next n1 = i2);
     assert (n_prev n2 = i1);
     assert (n_next n2 = ARENA_NULL)
   }"

definition pop_front_drains_list :: "unit option" where
  "pop_front_drains_list = do {
     (arena, level, i0, i1, i2) \<leftarrow> three_in_level 8;
     (arena, level, r) \<leftarrow> pop_front arena level;
     popped \<leftarrow> r;
     assert (popped = i0);
     assert (l_head level = i1);
     assert (l_count level = 2);
     assert (l_qty level = 50);
     n1 \<leftarrow> arena_get arena i1;
     assert (n_prev n1 = ARENA_NULL);
     (arena, level, r) \<leftarrow> pop_front arena level;
     popped \<leftarrow> r;
     assert (popped = i1);
     assert (l_head level = i2);
     assert (l_count level = 1);
     (arena, level, r) \<leftarrow> pop_front arena level;
     popped \<leftarrow> r;
     assert (popped = i2);
     assert (l_head level = ARENA_NULL);
     assert (l_tail level = ARENA_NULL);
     assert (l_count level = 0);
     assert (l_qty level = 0);
     (arena, level, r) \<leftarrow> pop_front arena level;
     assert (r = None)
   }"

definition remove_head :: "unit option" where
  "remove_head = do {
     (arena, level, i0, i1, i2) \<leftarrow> three_in_level 8;
     (arena, level) \<leftarrow> arena_remove arena level i0;
     assert (l_head level = i1);
     assert (l_tail level = i2);
     assert (l_count level = 2);
     assert (l_qty level = 50);
     n1 \<leftarrow> arena_get arena i1;
     assert (n_prev n1 = ARENA_NULL)
   }"

definition remove_tail :: "unit option" where
  "remove_tail = do {
     (arena, level, i0, i1, i2) \<leftarrow> three_in_level 8;
     (arena, level) \<leftarrow> arena_remove arena level i2;
     assert (l_head level = i0);
     assert (l_tail level = i1);
     assert (l_count level = 2);
     assert (l_qty level = 30);
     n1 \<leftarrow> arena_get arena i1;
     assert (n_next n1 = ARENA_NULL)
   }"

definition remove_middle :: "unit option" where
  "remove_middle = do {
     (arena, level, i0, i1, i2) \<leftarrow> three_in_level 8;
     (arena, level) \<leftarrow> arena_remove arena level i1;
     assert (l_head level = i0);
     assert (l_tail level = i2);
     assert (l_count level = 2);
     assert (l_qty level = 40);
     n0 \<leftarrow> arena_get arena i0;
     n2 \<leftarrow> arena_get arena i2;
     assert (n_next n0 = i2);
     assert (n_prev n2 = i0)
   }"

definition remove_only_node :: "unit option" where
  "remove_only_node = do {
     let arena = Arena_new 8;
     let level = PriceLevel_new;
     (arena, i0) \<leftarrow> unwrap (alloc_order arena (make_order 1 100 10));
     (arena, level) \<leftarrow> push_back arena level i0;
     (arena, level) \<leftarrow> arena_remove arena level i0;
     assert (l_head level = ARENA_NULL);
     assert (l_tail level = ARENA_NULL);
     assert (l_count level = 0);
     assert (l_qty level = 0)
   }"

fun append_ids :: "Arena \<Rightarrow> PriceLevel \<Rightarrow> u64 list \<Rightarrow> (Arena \<times> PriceLevel) option" where
  "append_ids arena level [] = Some (arena, level)"
| "append_ids arena level (order_id # ids) = do {
     (arena, idx) \<leftarrow> unwrap (alloc_order arena (make_order order_id 100 order_id));
     (arena, level) \<leftarrow> push_back arena level idx;
     append_ids arena level ids
   }"

partial_function (option) walk :: "(OrderNode \<Rightarrow> u32) \<Rightarrow> Arena \<Rightarrow> u32 \<Rightarrow> u64 list \<Rightarrow> u64 list option" where
  "walk link arena cur seen =
     (if cur \<noteq> ARENA_NULL then do {
        n \<leftarrow> arena_get arena cur;
        walk link arena (link n) (seen @ [n_id n])
      } else Some seen)"

declare walk.simps [code]

definition walk_forward_and_backward :: "unit option" where
  "walk_forward_and_backward = do {
     let ids = [1, 2, 3, 4, 5];
     (arena, level) \<leftarrow> append_ids (Arena_new 8) PriceLevel_new ids;
     forward \<leftarrow> walk n_next arena (l_head level) [];
     assert (forward = ids);
     backward \<leftarrow> walk n_prev arena (l_tail level) [];
     assert (backward = rev ids)
   }"

definition alloc_after_dealloc_reuses_slots :: "unit option" where
  "alloc_after_dealloc_reuses_slots = do {
     (arena, level, i0, i1, i2) \<leftarrow> three_in_level 3;
     (arena, level) \<leftarrow> arena_remove arena level i1;
     arena \<leftarrow> dealloc arena i1;
     (arena, i3) \<leftarrow> unwrap (alloc_order arena (make_order 4 100 40));
     assert (i3 = i1);
     n3 \<leftarrow> arena_get arena i3;
     assert (n_id n3 = 4);
     assert (a_count arena = 3)
   }"

lemma arena_tests:
  "all_pass [create_bid_order, create_ask_order, reject_zero_quantity, negative_price_allowed]"
  "all_pass [ordernode_roundtrip, arena_alloc_dealloc_cycle, arena_full, arena_zero_capacity, push_back_builds_list,
     pop_front_drains_list, remove_head, remove_tail, remove_middle, remove_only_node,
     walk_forward_and_backward, alloc_after_dealloc_reuses_slots]"
  by code_simp+

section \<open>The tests of \<open>src/book.rs\<close>\<close>

definition bid :: "u64 \<Rightarrow> u64 \<Rightarrow> u64 \<Rightarrow> u64 \<Rightarrow> Order option" where
  "bid order_id price qty ts = Order_new order_id 1 Bid (I64 price) qty ts"

definition ask :: "u64 \<Rightarrow> u64 \<Rightarrow> u64 \<Rightarrow> u64 \<Rightarrow> Order option" where
  "ask order_id price qty ts = Order_new order_id 1 Ask (I64 price) qty ts"

definition put :: "OrderBook \<Rightarrow> Order option \<Rightarrow> (OrderBook \<times> (BookError + unit)) option" where
  "put book order = order \<bind> insert_order book"

definition insert_and_best_prices :: "unit option" where
  "insert_and_best_prices = do {
     let book = OrderBook_new;
     (book, _) \<leftarrow> unwrap (put book (bid 1 100 10 1));
     (book, _) \<leftarrow> unwrap (put book (bid 2 102 10 2));
     (book, _) \<leftarrow> unwrap (put book (ask 3 105 10 3));
     (book, _) \<leftarrow> unwrap (put book (ask 4 103 10 4));
     assert (best_bid book = Some (I64 102));
     assert (best_ask book = Some (I64 103));
     assert (order_count book = 4);
     Some ()
   }"

definition duplicate_id_rejected :: "unit option" where
  "duplicate_id_rejected = do {
     let book = OrderBook_new;
     (book, _) \<leftarrow> unwrap (put book (bid 1 100 10 1));
     (book, err) \<leftarrow> unwrap_err (put book (ask 1 105 5 2));
     assert (err = DuplicateOrderId 1);
     Some ()
   }"

definition cancel_order_updates_best :: "unit option" where
  "cancel_order_updates_best = do {
     let book = OrderBook_new;
     (book, _) \<leftarrow> unwrap (put book (bid 1 100 10 1));
     (book, _) \<leftarrow> unwrap (put book (bid 2 102 10 2));
     (book, cancelled) \<leftarrow> unwrap (book_cancel_order book 2);
     assert (o_id cancelled = 2);
     assert (best_bid book = Some (I64 100));
     assert (order_count book = 1);
     Some ()
   }"

definition cancel_last_order_clears_best :: "unit option" where
  "cancel_last_order_clears_best = do {
     let book = OrderBook_new;
     (book, _) \<leftarrow> unwrap (put book (ask 1 105 10 1));
     (book, _) \<leftarrow> unwrap (book_cancel_order book 1);
     assert (best_ask book = None);
     assert (order_count book = 0);
     Some ()
   }"

definition cancel_nonexistent_order :: "unit option" where
  "cancel_nonexistent_order = do {
     let book = OrderBook_new;
     (book, err) \<leftarrow> unwrap_err (book_cancel_order book 999);
     assert (err = OrderNotFound 999);
     Some ()
   }"

definition fifo_ordering_within_level :: "unit option" where
  "fifo_ordering_within_level = do {
     let book = OrderBook_new;
     (book, _) \<leftarrow> unwrap (put book (bid 1 100 10 1));
     (book, _) \<leftarrow> unwrap (put book (bid 2 100 20 2));
     (book, _) \<leftarrow> unwrap (put book (bid 3 100 30 3));
     r \<leftarrow> peek_front book Bid (I64 100);
     front \<leftarrow> r;
     assert (n_id front = 1);
     Some ()
   }"

definition reduce_front_partial :: "unit option" where
  "reduce_front_partial = do {
     let book = OrderBook_new;
     (book, _) \<leftarrow> unwrap (put book (ask 1 105 100 1));
     (book, remaining) \<leftarrow> unwrap (reduce_front_quantity book Ask (I64 105) 40);
     assert (remaining = 60);
     assert (order_count book = 1);
     r \<leftarrow> peek_front book Ask (I64 105);
     front \<leftarrow> r;
     assert (n_quantity front = 60);
     Some ()
   }"

definition reduce_front_full_removes_order :: "unit option" where
  "reduce_front_full_removes_order = do {
     let book = OrderBook_new;
     (book, _) \<leftarrow> unwrap (put book (ask 1 105 100 1));
     (book, _) \<leftarrow> unwrap (put book (ask 2 105 50 2));
     (book, remaining) \<leftarrow> unwrap (reduce_front_quantity book Ask (I64 105) 100);
     assert (remaining = 0);
     assert (order_count book = 1);
     r \<leftarrow> peek_front book Ask (I64 105);
     front \<leftarrow> r;
     assert (n_id front = 2);
     Some ()
   }"

definition reduce_front_removes_empty_level :: "unit option" where
  "reduce_front_removes_empty_level = do {
     let book = OrderBook_new;
     (book, _) \<leftarrow> unwrap (put book (ask 1 105 100 1));
     (book, _) \<leftarrow> unwrap (put book (ask 2 110 50 2));
     (book, _) \<leftarrow> unwrap (reduce_front_quantity book Ask (I64 105) 100);
     assert (best_ask book = Some (I64 110));
     Some ()
   }"

definition fill_exceeds_quantity_error :: "unit option" where
  "fill_exceeds_quantity_error = do {
     let book = OrderBook_new;
     (book, _) \<leftarrow> unwrap (put book (bid 1 100 10 1));
     (book, err) \<leftarrow> unwrap_err (reduce_front_quantity book Bid (I64 100) 20);
     assert (err = FillExceedsQuantity 10 20);
     Some ()
   }"

definition empty_book_defaults :: "unit option" where
  "empty_book_defaults = do {
     let book = OrderBook_new;
     assert (best_bid book = None);
     assert (best_ask book = None);
     assert (order_count book = 0);
     assert (peek_front book Bid (I64 100) = Some None);
     Some ()
   }"

definition arena_full_rejects_insert :: "unit option" where
  "arena_full_rejects_insert = do {
     let book = OrderBook_with_capacity 2;
     (book, _) \<leftarrow> unwrap (put book (bid 1 100 10 1));
     (book, _) \<leftarrow> unwrap (put book (bid 2 101 10 2));
     (book, err) \<leftarrow> unwrap_err (put book (bid 3 102 10 3));
     assert (err = ArenaFull);
     assert (order_count book = 2);
     Some ()
   }"

definition cancel_frees_slot_for_reuse :: "unit option" where
  "cancel_frees_slot_for_reuse = do {
     let book = OrderBook_with_capacity 2;
     (book, _) \<leftarrow> unwrap (put book (bid 1 100 10 1));
     (book, _) \<leftarrow> unwrap (put book (bid 2 101 10 2));
     (book, err) \<leftarrow> unwrap_err (put book (bid 3 102 10 3));
     assert (err = ArenaFull);
     (book, _) \<leftarrow> unwrap (book_cancel_order book 1);
     (book, _) \<leftarrow> unwrap (put book (bid 3 102 10 3));
     assert (order_count book = 2);
     assert (best_bid book = Some (I64 102));
     Some ()
   }"

definition all_resting_orders_empty_book :: "unit option" where
  "all_resting_orders_empty_book = do {
     let book = OrderBook_new;
     orders \<leftarrow> all_resting_orders book;
     assert (orders = []);
     Some ()
   }"

definition all_resting_orders_canonical_order :: "unit option" where
  "all_resting_orders_canonical_order = do {
     let book = OrderBook_with_capacity 16;
     (book, _) \<leftarrow> unwrap (put book (bid 1 100 10 1));
     (book, _) \<leftarrow> unwrap (put book (ask 2 110 20 2));
     (book, _) \<leftarrow> unwrap (put book (bid 3 102 30 3));
     (book, _) \<leftarrow> unwrap (put book (ask 4 108 40 4));
     (book, _) \<leftarrow> unwrap (put book (bid 5 100 50 5));
     orders \<leftarrow> all_resting_orders book;
     assert (length orders = 5);
     assert (holds_at orders 0 (\<lambda>x. o_id x = 4));
     assert (holds_at orders 1 (\<lambda>x. o_id x = 2));
     assert (holds_at orders 2 (\<lambda>x. o_id x = 3));
     assert (holds_at orders 3 (\<lambda>x. o_id x = 1));
     assert (holds_at orders 4 (\<lambda>x. o_id x = 5));
     Some ()
   }"

definition all_resting_orders_reflects_partial_fills :: "unit option" where
  "all_resting_orders_reflects_partial_fills = do {
     let book = OrderBook_with_capacity 8;
     (book, _) \<leftarrow> unwrap (put book (ask 1 105 100 1));
     (book, _) \<leftarrow> unwrap (reduce_front_quantity book Ask (I64 105) 40);
     orders \<leftarrow> all_resting_orders book;
     assert (length orders = 1);
     assert (holds_at orders 0 (\<lambda>x. o_quantity x = 60));
     Some ()
   }"

definition cancel_middle_of_level :: "unit option" where
  "cancel_middle_of_level = do {
     let book = OrderBook_with_capacity 8;
     (book, _) \<leftarrow> unwrap (put book (bid 1 100 10 1));
     (book, _) \<leftarrow> unwrap (put book (bid 2 100 20 2));
     (book, _) \<leftarrow> unwrap (put book (bid 3 100 30 3));
     (book, _) \<leftarrow> unwrap (book_cancel_order book 2);
     assert (order_count book = 2);
     r \<leftarrow> peek_front book Bid (I64 100);
     front \<leftarrow> r;
     assert (n_id front = 1);
     (book, _) \<leftarrow> unwrap (reduce_front_quantity book Bid (I64 100) 10);
     r \<leftarrow> peek_front book Bid (I64 100);
     front \<leftarrow> r;
     assert (n_id front = 3);
     Some ()
   }"

section \<open>Running them over the priority queues\<close>

definition book_is :: "u32 \<Rightarrow> sides \<Rightarrow> OrderBook \<Rightarrow> bool" where
  "book_is cap Q b \<longleftrightarrow> book_ok b \<and> book_capacity b = unat cap \<and> side_orders b = Q"

definition head_price :: "Order list \<Rightarrow> i64 option" where
  "head_price xs = (case xs of [] \<Rightarrow> None | x # _ \<Rightarrow> Some (o_price x))"

definition at_price :: "sides \<Rightarrow> Side \<Rightarrow> i64 \<Rightarrow> Order list" where
  "at_price Q s p = filter (\<lambda>x. o_price x = p) (Q s)"

definition put_spec :: "u32 \<Rightarrow> sides \<Rightarrow> Order option \<Rightarrow> sides \<times> (BookError + unit)" where
  "put_spec cap Q order =
     (let x = the order in
      if o_id x \<in> view_ids Q then (Q, Inl (DuplicateOrderId (o_id x)))
      else if int (view_size Q) = uint cap then (Q, Inl ArenaFull)
      else (Q(o_side x := enqueue x (Q (o_side x))), Inr ()))"

definition unput_spec :: "sides \<Rightarrow> u64 \<Rightarrow> sides \<times> (BookError + Order)" where
  "unput_spec Q k =
     (case find (\<lambda>x. o_id x = k) (Q Ask @ Q Bid) of
        None \<Rightarrow> (Q, Inl (OrderNotFound k))
      | Some x \<Rightarrow> (Q(o_side x := filter (\<lambda>y. o_id y \<noteq> k) (Q (o_side x))), Inr x))"

definition reduce_spec :: "sides \<Rightarrow> Side \<Rightarrow> u64 \<Rightarrow> sides \<times> (BookError + u64)" where
  "reduce_spec Q s q =
     (let x = hd (Q s) in
      if o_quantity x < q then (Q, Inl (FillExceedsQuantity (o_quantity x) q))
      else (Q(s := reduce_head q (Q s)), Inr (o_quantity x - q)))"

lemma book_is_new [run_rules]:
  "runs (book_is c (\<lambda>_. [])) f \<Longrightarrow> Let (OrderBook_with_capacity c) f = Some ()"
  "runs (book_is DEFAULT_CAPACITY (\<lambda>_. [])) f \<Longrightarrow> Let OrderBook_new f = Some ()"
proof -
  have "book_is c (\<lambda>_. []) (OrderBook_with_capacity c)" for c
    using engine_with_capacity [of c]
    by (simp add: book_is_def engine_ok_def engine_view_def MatchingEngine_with_capacity_def)
  then show "runs (book_is c (\<lambda>_. [])) f \<Longrightarrow> Let (OrderBook_with_capacity c) f = Some ()"
    "runs (book_is DEFAULT_CAPACITY (\<lambda>_. [])) f \<Longrightarrow> Let OrderBook_new f = Some ()"
    unfolding OrderBook_new_def by (auto simp: runs_def)
qed

lemma put_calls:
  assumes "order \<noteq> None" "o_quantity (the order) \<noteq> 0"
  shows "calls (book_is cap Q) (\<lambda>b. put b order) (book_is cap (fst (put_spec cap Q order))) (snd (put_spec cap Q order))"
  unfolding calls_def
proof (intro allI impI)
  fix b
  assume b: "book_is cap Q b"
  obtain x where x: "order = Some x" using assms(1) by blast
  have ok: "book_ok b" "side_orders b = Q" "book_capacity b = unat cap" using b by (auto simp: book_is_def)
  have room: "int (view_size Q) = uint cap \<longleftrightarrow> view_size Q = unat cap" by (simp only: uint_nat of_nat_eq_iff)
  have n: "length (side_orders b Ask) + length (side_orders b Bid) = view_size Q" by (simp add: ok view_size_def)
  have ids: "o_id ` ob.orders b = view_ids Q" by (simp flip: view_ids_orders add: ok(2))
  show "\<exists>s'. put b order = Some (s', snd (put_spec cap Q order)) \<and> book_is cap (fst (put_spec cap Q order)) s'"
    using ok(1) assms(2) [unfolded x option.sel]
  proof (cases rule: ob.add_total)
    case dup
    then show ?thesis using b by (simp add: x put_def put_spec_def ids)
  next
    case full
    then show ?thesis using b ok(3) by (simp add: x put_def put_spec_def ids room n)
  next
    case (added b')
    then show ?thesis using ok(2,3) by (auto simp: x put_def put_spec_def ids room n book_is_def)
  qed
qed

lemma unput_calls: "calls (book_is cap Q) (\<lambda>b. book_cancel_order b k) (book_is cap (fst (unput_spec Q k))) (snd (unput_spec Q k))"
  unfolding calls_def
proof (intro allI impI)
  fix b
  assume b: "book_is cap Q b"
  then have ok: "book_ok b" "side_orders b = Q" "book_capacity b = unat cap" by (auto simp: book_is_def)
  have ids: "distinct (map o_id (Q Ask @ Q Bid))" using ob.queue_ids [OF ok(1)] by (simp add: ok(2))
  show "\<exists>s'. book_cancel_order b k = Some (s', snd (unput_spec Q k)) \<and> book_is cap (fst (unput_spec Q k)) s'"
    using ok(1)
  proof (cases rule: ob.cancel_total [where k = k])
    case absent
    then have "find (\<lambda>x. o_id x = k) (Q Ask @ Q Bid) = None"
      unfolding find_None_iff by (auto simp: ob.orders_def ok(2))
    then show ?thesis using absent b by (simp add: unput_spec_def)
  next
    case (present x b')
    have "x \<in> set (Q Ask @ Q Bid)" using present(1) by (cases "o_side x") (simp_all add: ok(2))
    then have "find (\<lambda>x. o_id x = k) (Q Ask @ Q Bid) = Some x"
      using ids present(2) by (simp add: find_unique)
    then show ?thesis using present by (auto simp: unput_spec_def book_is_def ok)
  qed
qed

lemma reduce_calls:
  assumes "Q s \<noteq> []" "o_price (hd (Q s)) = p"
  shows "calls (book_is cap Q) (\<lambda>b. reduce_front_quantity b s p q) (book_is cap (fst (reduce_spec Q s q))) (snd (reduce_spec Q s q))"
  unfolding calls_def
proof (intro allI impI)
  fix b
  assume b: "book_is cap Q b"
  then have ok: "book_ok b" "side_orders b = Q" "book_capacity b = unat cap" by (auto simp: book_is_def)
  obtain x xs where x: "Q s = x # xs" "o_price x = p" using assms by (cases "Q s") auto
  have "depth b s p = x # filter (\<lambda>y. o_price y = o_price x) xs" using depth_of_front [OF ok(1)] x ok(2) by blast
  then show "\<exists>s'. reduce_front_quantity b s p q = Some (s', snd (reduce_spec Q s q)) \<and> book_is cap (fst (reduce_spec Q s q)) s'"
    using reduce_front_errors(2) [OF ok(1), of s p x _ q] ob.reduce_front [OF ok(1), of s x xs q] x ok b
    by (cases "o_quantity x < q") (fastforce simp: reduce_spec_def book_is_def not_less)+
qed

text \<open>The rules: a call, and then what can be asked of the book.\<close>

lemma run_put [run_rules]:
  assumes "case order of None \<Rightarrow> False | Some x \<Rightarrow> o_quantity x \<noteq> 0"
  shows "is_ok (snd (put_spec cap Q order)) \<Longrightarrow> runs (book_is cap (fst (put_spec cap Q order))) (\<lambda>b. f b (projr (snd (put_spec cap Q order)))) \<Longrightarrow>
      runs (book_is cap Q) (\<lambda>b. unwrap (put b order) \<bind> (\<lambda>(b, x). f b x))"
    "\<not> is_ok (snd (put_spec cap Q order)) \<Longrightarrow> runs (book_is cap (fst (put_spec cap Q order))) (\<lambda>b. g b (projl (snd (put_spec cap Q order)))) \<Longrightarrow>
      runs (book_is cap Q) (\<lambda>b. unwrap_err (put b order) \<bind> (\<lambda>(b, x). g b x))"
  using assms
  by (auto intro!: run_unwrap [OF put_calls is_ok_projr] run_unwrap_err [OF put_calls is_err_projl] split: option.splits)

lemma run_unput [run_rules]:
  "is_ok (snd (unput_spec Q k)) \<Longrightarrow> runs (book_is cap (fst (unput_spec Q k))) (\<lambda>b. f b (projr (snd (unput_spec Q k)))) \<Longrightarrow>
    runs (book_is cap Q) (\<lambda>b. unwrap (book_cancel_order b k) \<bind> (\<lambda>(b, x). f b x))"
  "\<not> is_ok (snd (unput_spec Q k)) \<Longrightarrow> runs (book_is cap (fst (unput_spec Q k))) (\<lambda>b. g b (projl (snd (unput_spec Q k)))) \<Longrightarrow>
    runs (book_is cap Q) (\<lambda>b. unwrap_err (book_cancel_order b k) \<bind> (\<lambda>(b, x). g b x))"
  by (rule run_unwrap [OF unput_calls is_ok_projr] run_unwrap_err [OF unput_calls is_err_projl], assumption+)+

lemma run_reduce [run_rules]:
  assumes "head_price (Q s) = Some p"
  shows "is_ok (snd (reduce_spec Q s q)) \<Longrightarrow> runs (book_is cap (fst (reduce_spec Q s q))) (\<lambda>b. f b (projr (snd (reduce_spec Q s q)))) \<Longrightarrow>
      runs (book_is cap Q) (\<lambda>b. unwrap (reduce_front_quantity b s p q) \<bind> (\<lambda>(b, x). f b x))"
    "\<not> is_ok (snd (reduce_spec Q s q)) \<Longrightarrow> runs (book_is cap (fst (reduce_spec Q s q))) (\<lambda>b. g b (projl (snd (reduce_spec Q s q)))) \<Longrightarrow>
      runs (book_is cap Q) (\<lambda>b. unwrap_err (reduce_front_quantity b s p q) \<bind> (\<lambda>(b, x). g b x))"
  using assms
  by (auto intro!: run_unwrap [OF reduce_calls is_ok_projr] run_unwrap_err [OF reduce_calls is_err_projl]
      simp: head_price_def split: list.splits)

lemma book_is_observe:
  assumes "book_is cap Q b"
  shows "best_bid b = head_price (Q Bid)" "best_ask b = head_price (Q Ask)" "order_count b = view_size Q"
    "all_resting_orders b = Some (Q Ask @ Q Bid)"
    "\<exists>r. peek_front b s p = Some r \<and> map_option to_order r = (case at_price Q s p of [] \<Rightarrow> None | x # _ \<Rightarrow> Some x)"
  using assms ob.best_front [of b] order_count_side_orders [of b] all_resting_orders_eq [of b] peek_front_depth [of b s p]
  by (auto simp: book_is_def best_cached head_price_def view_size_def at_price_def filter_side_orders [symmetric])

lemma run_best [run_rules]:
  "head_price (Q Bid) = v \<Longrightarrow> runs (book_is cap Q) f \<Longrightarrow> runs (book_is cap Q) (\<lambda>b. assert (best_bid b = v) \<bind> (\<lambda>_. f b))"
  "head_price (Q Ask) = v \<Longrightarrow> runs (book_is cap Q) f \<Longrightarrow> runs (book_is cap Q) (\<lambda>b. assert (best_ask b = v) \<bind> (\<lambda>_. f b))"
  "view_size Q = n \<Longrightarrow> runs (book_is cap Q) f \<Longrightarrow> runs (book_is cap Q) (\<lambda>b. assert (order_count b = n) \<bind> (\<lambda>_. f b))"
  by (rule run_observe [OF book_is_observe(1)] run_observe [OF book_is_observe(2)] run_observe [OF book_is_observe(3)], assumption+)+

lemma run_all_resting [run_rules]:
  "runs (book_is cap Q) (\<lambda>b. f b (Q Ask @ Q Bid)) \<Longrightarrow> runs (book_is cap Q) (\<lambda>b. all_resting_orders b \<bind> (\<lambda>xs. f b xs))"
  by (simp add: runs_def book_is_observe)

lemma run_peek [run_rules]:
  "at_price Q s p = [] \<Longrightarrow> runs (book_is cap Q) f \<Longrightarrow>
    runs (book_is cap Q) (\<lambda>b. assert (peek_front b s p = Some None) \<bind> (\<lambda>_. f b))"
  "at_price Q s p \<noteq> [] \<Longrightarrow> o_id (hd (at_price Q s p)) = k \<Longrightarrow> runs (book_is cap Q) f \<Longrightarrow>
    runs (book_is cap Q) (\<lambda>b. peek_front b s p \<bind> (\<lambda>r. r \<bind> (\<lambda>front. assert (n_id front = k) \<bind> (\<lambda>_. f b))))"
  "at_price Q s p \<noteq> [] \<Longrightarrow> o_quantity (hd (at_price Q s p)) = q \<Longrightarrow> runs (book_is cap Q) f \<Longrightarrow>
    runs (book_is cap Q) (\<lambda>b. peek_front b s p \<bind> (\<lambda>r. r \<bind> (\<lambda>front. assert (n_quantity front = q) \<bind> (\<lambda>_. f b))))"
  by (auto simp: runs_def neq_Nil_conv dest!: book_is_observe(5) [where s = s and p = p])

lemma book_tests:
  "insert_and_best_prices = Some ()" "duplicate_id_rejected = Some ()" "cancel_order_updates_best = Some ()"
  "cancel_last_order_clears_best = Some ()" "cancel_nonexistent_order = Some ()" "fifo_ordering_within_level = Some ()"
  "reduce_front_partial = Some ()" "reduce_front_full_removes_order = Some ()" "reduce_front_removes_empty_level = Some ()"
  "fill_exceeds_quantity_error = Some ()" "empty_book_defaults = Some ()" "arena_full_rejects_insert = Some ()"
  "cancel_frees_slot_for_reuse = Some ()" "all_resting_orders_empty_book = Some ()"
  "all_resting_orders_canonical_order = Some ()" "all_resting_orders_reflects_partial_fills = Some ()"
  "cancel_middle_of_level = Some ()"
  unfolding insert_and_best_prices_def duplicate_id_rejected_def cancel_order_updates_best_def
    cancel_last_order_clears_best_def cancel_nonexistent_order_def fifo_ordering_within_level_def
    reduce_front_partial_def reduce_front_full_removes_order_def reduce_front_removes_empty_level_def
    fill_exceeds_quantity_error_def empty_book_defaults_def arena_full_rejects_insert_def cancel_frees_slot_for_reuse_def
    all_resting_orders_empty_book_def all_resting_orders_canonical_order_def
    all_resting_orders_reflects_partial_fills_def cancel_middle_of_level_def
  by (rule run_rules | code_simp)+

section \<open>Property\<close>

text \<open>
  Every unit test of the order type, of the arena with its free list and levels, and of the order book
  passes on the model: no assertion fails and nothing panics.
\<close>

theorem book_unit_tests_pass:
  "all_pass [create_bid_order, create_ask_order, reject_zero_quantity, negative_price_allowed] \<and>
   all_pass [ordernode_roundtrip, arena_alloc_dealloc_cycle, arena_full, arena_zero_capacity, push_back_builds_list,
     pop_front_drains_list, remove_head, remove_tail, remove_middle, remove_only_node,
     walk_forward_and_backward, alloc_after_dealloc_reuses_slots] \<and>
   all_pass [insert_and_best_prices, duplicate_id_rejected, cancel_order_updates_best, cancel_last_order_clears_best,
     cancel_nonexistent_order, fifo_ordering_within_level, reduce_front_partial, reduce_front_full_removes_order,
     reduce_front_removes_empty_level, fill_exceeds_quantity_error, empty_book_defaults, arena_full_rejects_insert,
     cancel_frees_slot_for_reuse, all_resting_orders_empty_book, all_resting_orders_canonical_order,
     all_resting_orders_reflects_partial_fills, cancel_middle_of_level]"
  by (intro conjI arena_tests) (simp add: book_tests)

end
