(* ===== verification/EngineTests.thy ===== *)
theory EngineTests
  imports BookTests Engine
begin

text \<open>
  The unit tests and the property tests of \<open>src/matching.rs\<close>. The unit tests run over the specification of the
  engine (\<open>add_spec\<close>, \<open>cancel_spec\<close>), which it was shown to implement; the property tests are proved for all
  arguments, not only for the ranges \<open>proptest\<close> draws from.
\<close>

section \<open>The unit tests of \<open>src/matching.rs\<close>\<close>

definition TEST_CAPACITY :: u32 where
  "TEST_CAPACITY = 1024"

definition engine :: MatchingEngine where
  "engine = MatchingEngine_with_capacity TEST_CAPACITY"

definition bid :: "u64 \<Rightarrow> u64 \<Rightarrow> u64 \<Rightarrow> u64 \<Rightarrow> Order option" where
  "bid order_id price qty ts = Order_new order_id order_id Bid (I64 price) qty ts"

definition ask :: "u64 \<Rightarrow> u64 \<Rightarrow> u64 \<Rightarrow> u64 \<Rightarrow> Order option" where
  "ask order_id price qty ts = Order_new order_id order_id Ask (I64 price) qty ts"

definition bid_trader :: "u64 \<Rightarrow> u64 \<Rightarrow> u64 \<Rightarrow> u64 \<Rightarrow> u64 \<Rightarrow> Order option" where
  "bid_trader order_id trader_id price qty ts = Order_new order_id trader_id Bid (I64 price) qty ts"

definition ask_trader :: "u64 \<Rightarrow> u64 \<Rightarrow> u64 \<Rightarrow> u64 \<Rightarrow> u64 \<Rightarrow> Order option" where
  "ask_trader order_id trader_id price qty ts = Order_new order_id trader_id Ask (I64 price) qty ts"

definition add :: "MatchingEngine \<Rightarrow> Order option \<Rightarrow> (MatchingEngine \<times> (MatchingError + AddOrderResult)) option" where
  "add e order = order \<bind> add_order e"

definition restore :: "Order list \<Rightarrow> MatchingEngine option" where
  "restore orders = do { r \<leftarrow> restore_from_orders orders TEST_CAPACITY; unwrap_res r }"

definition no_match_resting :: "unit option" where
  "no_match_resting = do {
     let engine = engine;
     (engine, result) \<leftarrow> unwrap (add engine (bid 1 100 10 1));
     assert (r_status result = Resting);
     assert (r_fills result = []);
     (engine, result) \<leftarrow> unwrap (add engine (ask 2 105 10 2));
     assert (r_status result = Resting);
     assert (r_fills result = []);
     assert (best_bid (e_book engine) = Some (I64 100));
     assert (best_ask (e_book engine) = Some (I64 105));
     assert (order_count (e_book engine) = 2);
     Some ()
   }"

definition full_fill_equal_quantities :: "unit option" where
  "full_fill_equal_quantities = do {
     let engine = engine;
     (engine, _) \<leftarrow> unwrap (add engine (ask 1 100 10 1));
     (engine, result) \<leftarrow> unwrap (add engine (bid 2 100 10 2));
     assert (r_status result = FullyFilled);
     assert (length (r_fills result) = 1);
     assert (holds_at (r_fills result) 0 (\<lambda>f. f_quantity f = 10));
     assert (holds_at (r_fills result) 0 (\<lambda>f. f_price f = I64 100));
     assert (holds_at (r_fills result) 0 (\<lambda>f. f_taker_order_id f = 2));
     assert (holds_at (r_fills result) 0 (\<lambda>f. f_maker_order_id f = 1));
     assert (holds_at (r_fills result) 0 (\<lambda>f. f_maker_fully_filled f));
     assert (order_count (e_book engine) = 0);
     Some ()
   }"

definition partial_fill_taker_has_more :: "unit option" where
  "partial_fill_taker_has_more = do {
     let engine = engine;
     (engine, _) \<leftarrow> unwrap (add engine (ask 1 100 5 1));
     (engine, result) \<leftarrow> unwrap (add engine (bid 2 100 10 2));
     assert (r_status result = PartiallyFilled);
     assert (length (r_fills result) = 1);
     assert (holds_at (r_fills result) 0 (\<lambda>f. f_quantity f = 5));
     assert (holds_at (r_fills result) 0 (\<lambda>f. f_maker_fully_filled f));
     assert (best_bid (e_book engine) = Some (I64 100));
     assert (order_count (e_book engine) = 1);
     Some ()
   }"

definition partial_fill_maker_has_more :: "unit option" where
  "partial_fill_maker_has_more = do {
     let engine = engine;
     (engine, _) \<leftarrow> unwrap (add engine (bid 1 100 20 1));
     (engine, result) \<leftarrow> unwrap (add engine (ask 2 100 5 2));
     assert (r_status result = FullyFilled);
     assert (length (r_fills result) = 1);
     assert (holds_at (r_fills result) 0 (\<lambda>f. f_quantity f = 5));
     assert (holds_at (r_fills result) 0 (\<lambda>f. \<not> f_maker_fully_filled f));
     assert (order_count (e_book engine) = 1);
     assert (best_bid (e_book engine) = Some (I64 100));
     Some ()
   }"

definition multi_level_matching :: "unit option" where
  "multi_level_matching = do {
     let engine = engine;
     (engine, _) \<leftarrow> unwrap (add engine (ask 1 100 5 1));
     (engine, _) \<leftarrow> unwrap (add engine (ask 2 101 5 2));
     (engine, _) \<leftarrow> unwrap (add engine (ask 3 102 5 3));
     (engine, result) \<leftarrow> unwrap (add engine (bid 4 102 12 4));
     assert (r_status result = FullyFilled);
     assert (length (r_fills result) = 3);
     assert (holds_at (r_fills result) 0 (\<lambda>f. f_price f = I64 100));
     assert (holds_at (r_fills result) 0 (\<lambda>f. f_quantity f = 5));
     assert (holds_at (r_fills result) 1 (\<lambda>f. f_price f = I64 101));
     assert (holds_at (r_fills result) 1 (\<lambda>f. f_quantity f = 5));
     assert (holds_at (r_fills result) 2 (\<lambda>f. f_price f = I64 102));
     assert (holds_at (r_fills result) 2 (\<lambda>f. f_quantity f = 2));
     assert (holds_at (r_fills result) 2 (\<lambda>f. \<not> f_maker_fully_filled f));
     assert (order_count (e_book engine) = 1);
     assert (best_ask (e_book engine) = Some (I64 102));
     Some ()
   }"

definition fifo_within_price_level :: "unit option" where
  "fifo_within_price_level = do {
     let engine = engine;
     (engine, _) \<leftarrow> unwrap (add engine (ask 1 100 10 1));
     (engine, _) \<leftarrow> unwrap (add engine (ask 2 100 10 2));
     (engine, _) \<leftarrow> unwrap (add engine (ask 3 100 10 3));
     (engine, result) \<leftarrow> unwrap (add engine (bid 4 100 15 4));
     assert (length (r_fills result) = 2);
     assert (holds_at (r_fills result) 0 (\<lambda>f. f_maker_order_id f = 1));
     assert (holds_at (r_fills result) 0 (\<lambda>f. f_quantity f = 10));
     assert (holds_at (r_fills result) 1 (\<lambda>f. f_maker_order_id f = 2));
     assert (holds_at (r_fills result) 1 (\<lambda>f. f_quantity f = 5));
     Some ()
   }"

definition fill_price_is_maker_price :: "unit option" where
  "fill_price_is_maker_price = do {
     let engine = engine;
     (engine, _) \<leftarrow> unwrap (add engine (ask 1 100 10 1));
     (engine, result) \<leftarrow> unwrap (add engine (bid 2 110 10 2));
     assert (holds_at (r_fills result) 0 (\<lambda>f. f_price f = I64 100));
     Some ()
   }"

definition ask_taker_matches_bids :: "unit option" where
  "ask_taker_matches_bids = do {
     let engine = engine;
     (engine, _) \<leftarrow> unwrap (add engine (bid 1 102 10 1));
     (engine, _) \<leftarrow> unwrap (add engine (bid 2 101 10 2));
     (engine, result) \<leftarrow> unwrap (add engine (ask 3 101 15 3));
     assert (length (r_fills result) = 2);
     assert (holds_at (r_fills result) 0 (\<lambda>f. f_maker_order_id f = 1));
     assert (holds_at (r_fills result) 0 (\<lambda>f. f_price f = I64 102));
     assert (holds_at (r_fills result) 0 (\<lambda>f. f_quantity f = 10));
     assert (holds_at (r_fills result) 1 (\<lambda>f. f_maker_order_id f = 2));
     assert (holds_at (r_fills result) 1 (\<lambda>f. f_price f = I64 101));
     assert (holds_at (r_fills result) 1 (\<lambda>f. f_quantity f = 5));
     assert (r_status result = FullyFilled);
     Some ()
   }"

definition cancel_resting_order :: "unit option" where
  "cancel_resting_order = do {
     let engine = engine;
     (engine, _) \<leftarrow> unwrap (add engine (bid 1 100 10 1));
     (engine, cancelled) \<leftarrow> unwrap (engine_cancel_order engine 1);
     assert (o_id cancelled = 1);
     assert (order_count (e_book engine) = 0);
     Some ()
   }"

definition cancel_nonexistent_fails :: "unit option" where
  "cancel_nonexistent_fails = do {
     let engine = engine;
     (engine, err) \<leftarrow> unwrap_err (engine_cancel_order engine 999);
     assert (err = Book (OrderNotFound 999));
     Some ()
   }"

definition zero_quantity_rejected :: "unit option" where
  "zero_quantity_rejected = do {
     let engine = engine;
     let order = \<lparr>o_id = 1, o_trader_id = 1, o_side = Bid, o_price = I64 100, o_quantity = 0, o_timestamp = 1\<rparr>;
     (engine, err) \<leftarrow> unwrap_err (add engine (Some order));
     assert (err = ZeroQuantity);
     Some ()
   }"

definition empty_book_no_match :: "unit option" where
  "empty_book_no_match = do {
     let engine = engine;
     (engine, result) \<leftarrow> unwrap (add engine (bid 1 100 10 1));
     assert (r_status result = Resting);
     assert (r_fills result = []);
     Some ()
   }"

definition bid_below_best_ask_no_match :: "unit option" where
  "bid_below_best_ask_no_match = do {
     let engine = engine;
     (engine, _) \<leftarrow> unwrap (add engine (ask 1 105 10 1));
     (engine, result) \<leftarrow> unwrap (add engine (bid 2 100 10 2));
     assert (r_status result = Resting);
     assert (r_fills result = []);
     assert (order_count (e_book engine) = 2);
     Some ()
   }"

definition self_trade_prevented_cancel_newest :: "unit option" where
  "self_trade_prevented_cancel_newest = do {
     let engine = engine;
     (engine, _) \<leftarrow> unwrap (add engine (ask_trader 1 1 100 10 1));
     (engine, result) \<leftarrow> unwrap (add engine (bid_trader 2 1 100 10 2));
     assert (r_status result = CancelledSelfTrade);
     assert (r_fills result = []);
     assert (order_count (e_book engine) = 1);
     assert (best_ask (e_book engine) = Some (I64 100));
     Some ()
   }"

definition self_trade_different_traders_allowed :: "unit option" where
  "self_trade_different_traders_allowed = do {
     let engine = engine;
     (engine, _) \<leftarrow> unwrap (add engine (ask_trader 1 1 100 10 1));
     (engine, result) \<leftarrow> unwrap (add engine (bid_trader 2 2 100 10 2));
     assert (r_status result = FullyFilled);
     assert (length (r_fills result) = 1);
     assert (holds_at (r_fills result) 0 (\<lambda>f. f_quantity f = 10));
     assert (order_count (e_book engine) = 0);
     Some ()
   }"

definition self_trade_partial_fill_then_cancel :: "unit option" where
  "self_trade_partial_fill_then_cancel = do {
     let engine = engine;
     (engine, _) \<leftarrow> unwrap (add engine (ask_trader 1 10 100 5 1));
     (engine, _) \<leftarrow> unwrap (add engine (ask_trader 2 20 101 10 2));
     (engine, result) \<leftarrow> unwrap (add engine (bid_trader 3 20 101 15 3));
     assert (r_status result = CancelledSelfTrade);
     assert (length (r_fills result) = 1);
     assert (holds_at (r_fills result) 0 (\<lambda>f. f_maker_order_id f = 1));
     assert (holds_at (r_fills result) 0 (\<lambda>f. f_quantity f = 5));
     assert (order_count (e_book engine) = 1);
     assert (best_ask (e_book engine) = Some (I64 101));
     Some ()
   }"

definition restore_empty :: "unit option" where
  "restore_empty = do {
     engine \<leftarrow> restore [];
     assert (order_count (e_book engine) = 0);
     assert (best_bid (e_book engine) = None);
     assert (best_ask (e_book engine) = None);
     Some ()
   }"

definition restore_from_orders_rebuilds_book :: "unit option" where
  "restore_from_orders_rebuilds_book = do {
     orders \<leftarrow> those [ask 1 105 10 1, ask 2 110 20 2, bid 3 100 30 3, bid 4 98 40 4];
     engine \<leftarrow> restore orders;
     assert (order_count (e_book engine) = 4);
     assert (best_bid (e_book engine) = Some (I64 100));
     assert (best_ask (e_book engine) = Some (I64 105));
     Some ()
   }"

definition restore_then_match :: "unit option" where
  "restore_then_match = do {
     orders \<leftarrow> those [ask 1 100 10 1, ask 2 101 20 2];
     engine \<leftarrow> restore orders;
     (engine, result) \<leftarrow> unwrap (add engine (bid 3 101 15 3));
     assert (length (r_fills result) = 2);
     assert (holds_at (r_fills result) 0 (\<lambda>f. f_maker_order_id f = 1));
     assert (holds_at (r_fills result) 0 (\<lambda>f. f_quantity f = 10));
     assert (holds_at (r_fills result) 1 (\<lambda>f. f_maker_order_id f = 2));
     assert (holds_at (r_fills result) 1 (\<lambda>f. f_quantity f = 5));
     assert (r_status result = FullyFilled);
     Some ()
   }"

definition self_trade_multiple_resting_same_trader :: "unit option" where
  "self_trade_multiple_resting_same_trader = do {
     let engine = engine;
     (engine, _) \<leftarrow> unwrap (add engine (ask_trader 1 1 100 10 1));
     (engine, _) \<leftarrow> unwrap (add engine (ask_trader 2 1 101 10 2));
     (engine, result) \<leftarrow> unwrap (add engine (bid_trader 3 1 105 30 3));
     assert (r_status result = CancelledSelfTrade);
     assert (r_fills result = []);
     assert (order_count (e_book engine) = 2);
     Some ()
   }"

section \<open>The property tests of \<open>src/matching.rs\<close>\<close>

text \<open>
  \<open>proptest\<close> draws the arguments; each test is a function of them. The tests run with overflow checks, so
  their own arithmetic is checked.
\<close>

definition checked_sub :: "u64 \<Rightarrow> u64 \<Rightarrow> u64 option" where
  "checked_sub a b = (if b \<le> a then Some (a - b) else None)"

definition checked_add :: "u64 \<Rightarrow> u64 \<Rightarrow> u64 option" where
  "checked_add a b = (if unat a + unat b < 2 ^ 64 then Some (a + b) else None)"

fun checked_sum :: "u64 \<Rightarrow> u64 list \<Rightarrow> u64 option" where
  "checked_sum acc [] = Some acc"
| "checked_sum acc (x # xs) = do { acc \<leftarrow> checked_add acc x; checked_sum acc xs }"

definition quantity_conservation :: "i64 \<Rightarrow> u64 \<Rightarrow> u64 \<Rightarrow> unit option" where
  "quantity_conservation price maker_qty taker_qty = do {
     let engine = engine;
     (engine, _) \<leftarrow> unwrap (add engine (Order_new 1 1 Ask price maker_qty 1));
     (engine, result) \<leftarrow> unwrap (add engine (Order_new 2 2 Bid price taker_qty 2));
     filled \<leftarrow> checked_sum 0 (map f_quantity (r_fills result));
     remainder \<leftarrow> (case r_status result of
         FullyFilled \<Rightarrow> Some 0
       | PartiallyFilled \<Rightarrow> checked_sub taker_qty filled
       | Resting \<Rightarrow> checked_sub taker_qty filled
       | CancelledSelfTrade \<Rightarrow> checked_sub taker_qty filled);
     total \<leftarrow> checked_add filled remainder;
     assert (total = taker_qty)
   }"

fun add_all :: "MatchingEngine \<Rightarrow> nat \<Rightarrow> (Side \<times> i64 \<times> u64) list \<Rightarrow> MatchingEngine option" where
  "add_all e i [] = Some e"
| "add_all e i ((side, price, qty) # orders) = do {
     let order_id = word_of_nat (i + 1);
     order \<leftarrow> Order_new order_id order_id side price qty order_id;
     (e, _) \<leftarrow> add_order e order;
     add_all e (i + 1) orders
   }"

definition no_crossed_book :: "(Side \<times> i64 \<times> u64) list \<Rightarrow> unit option" where
  "no_crossed_book orders = do {
     engine \<leftarrow> add_all engine 0 orders;
     case (best_bid (e_book engine), best_ask (e_book engine)) of
       (Some bb, Some ba) \<Rightarrow> assert (bb < ba)
     | _ \<Rightarrow> Some ()
   }"

definition crosses_produce_fills :: "i64 \<Rightarrow> u64 \<Rightarrow> u64 \<Rightarrow> unit option" where
  "crosses_produce_fills price maker_qty taker_qty = do {
     let engine = engine;
     (engine, _) \<leftarrow> unwrap (add engine (Order_new 1 1 Ask price maker_qty 1));
     (engine, result) \<leftarrow> unwrap (add engine (Order_new 2 2 Bid price taker_qty 2));
     assert (r_fills result \<noteq> [])
   }"

fun positive_fills :: "MatchingEngine \<Rightarrow> nat \<Rightarrow> (Side \<times> i64 \<times> u64) list \<Rightarrow> unit option" where
  "positive_fills e i [] = Some ()"
| "positive_fills e i ((side, price, qty) # orders) = do {
     let order_id = word_of_nat (i + 1);
     order \<leftarrow> Order_new order_id order_id side price qty order_id;
     (e, r) \<leftarrow> add_order e order;
     (case r of Inr result \<Rightarrow> assert (list_all (\<lambda>fill. f_quantity fill > 0) (r_fills result)) | Inl _ \<Rightarrow> Some ());
     positive_fills e (i + 1) orders
   }"

definition fill_quantities_positive :: "(Side \<times> i64 \<times> u64) list \<Rightarrow> unit option" where
  "fill_quantities_positive orders = positive_fills engine 0 orders"

definition no_self_trade_fills :: "i64 \<Rightarrow> u64 \<Rightarrow> u64 \<Rightarrow> unit option" where
  "no_self_trade_fills price maker_qty taker_qty = do {
     let engine = engine;
     (engine, _) \<leftarrow> unwrap (add engine (Order_new 1 42 Ask price maker_qty 1));
     (engine, result) \<leftarrow> unwrap (add engine (Order_new 2 42 Bid price taker_qty 2));
     assert (r_fills result = []);
     assert (r_status result = CancelledSelfTrade)
   }"

section \<open>Running them over the specification of the engine\<close>

definition engine_is :: "sides \<Rightarrow> MatchingEngine \<Rightarrow> bool" where
  "engine_is Q e \<longleftrightarrow> engine_ok e \<and> engine_capacity e = unat TEST_CAPACITY \<and> engine_view e = Q"

text \<open>A call of \<open>add_order\<close> on a book that is not full; the spare slot stands for any larger arena.\<close>

definition step_spec :: "sides \<Rightarrow> Order option \<Rightarrow> sides \<times> (MatchingError + AddOrderResult)" where
  "step_spec Q order = add_spec (Suc (view_size Q)) Q (the order)"

lemma match_rest_length: "match_list t ms = (rest, fs, t', st) \<Longrightarrow> length rest \<le> length ms"
  using match_list_priority [of t ms rest fs t' st] by (auto simp: consumed_def)

lemma add_spec_room:
  assumes "view_size Q < cap" "view_size Q < cap'"
  shows "add_spec cap Q t = add_spec cap' Q t"
proof -
  obtain rest fs t' st where ml: "match_list t (Q (opposite (o_side t))) = (rest, fs, t', st)" by (metis prod_cases4)
  have "view_size (Q(opposite (o_side t) := rest)) \<le> view_size Q"
    using match_rest_length [OF ml] by (cases "o_side t") (simp_all add: view_size_def)
  then show ?thesis using assms by (simp add: add_spec_def ml Let_def)
qed

lemma engine_is_start [run_rules]: "runs (engine_is (\<lambda>_. [])) f \<Longrightarrow> Let engine f = Some ()"
  by (rule run_start [where A = "engine_is (\<lambda>_. [])"]) (simp_all add: engine_is_def engine_def engine_with_capacity)

lemma add_calls:
  assumes "order \<noteq> None" "int (view_size Q) < uint TEST_CAPACITY"
  shows "calls (engine_is Q) (\<lambda>e. add e order) (engine_is (fst (step_spec Q order))) (snd (step_spec Q order))"
  unfolding calls_def
proof (intro allI impI)
  fix e
  assume e: "engine_is Q e"
  obtain t where t: "order = Some t" using assms(1) by blast
  have "view_size Q < unat TEST_CAPACITY" using assms(2) by (simp only: uint_nat of_nat_less_iff)
  then have "add_spec (engine_capacity e) (engine_view e) t = step_spec Q order"
    using e add_spec_room [of Q "unat TEST_CAPACITY" "Suc (view_size Q)" t] by (simp add: engine_is_def t step_spec_def)
  then have "add_spec (engine_capacity e) (engine_view e) t = (fst (step_spec Q order), snd (step_spec Q order))" by simp
  moreover have ok: "engine_ok e" "engine_capacity e = unat TEST_CAPACITY" using e by (simp_all add: engine_is_def)
  ultimately obtain e' where "add_order e t = Some (e', snd (step_spec Q order))" "engine_ok e'"
    "engine_view e' = fst (step_spec Q order)" "engine_capacity e' = engine_capacity e"
    using engine_add_order by blast
  then show "\<exists>s'. add e order = Some (s', snd (step_spec Q order)) \<and> engine_is (fst (step_spec Q order)) s'"
    using ok(2) by (intro exI [of _ e']) (simp add: add_def t engine_is_def)
qed

lemma run_add [run_rules]:
  assumes "order \<noteq> None" "int (view_size Q) < uint TEST_CAPACITY"
  shows "is_ok (snd (step_spec Q order)) \<Longrightarrow> runs (engine_is (fst (step_spec Q order))) (\<lambda>e. f e (projr (snd (step_spec Q order)))) \<Longrightarrow>
      runs (engine_is Q) (\<lambda>e. unwrap (add e order) \<bind> (\<lambda>(e, r). f e r))"
    "\<not> is_ok (snd (step_spec Q order)) \<Longrightarrow> runs (engine_is (fst (step_spec Q order))) (\<lambda>e. g e (projl (snd (step_spec Q order)))) \<Longrightarrow>
      runs (engine_is Q) (\<lambda>e. unwrap_err (add e order) \<bind> (\<lambda>(e, r). g e r))"
  by (rule run_unwrap [OF add_calls [OF assms] is_ok_projr] run_unwrap_err [OF add_calls [OF assms] is_err_projl], assumption+)+

lemma cancel_calls: "calls (engine_is Q) (\<lambda>e. engine_cancel_order e k) (engine_is (fst (cancel_spec Q k))) (snd (cancel_spec Q k))"
  using engine_cancel_order [where Q' = "fst (cancel_spec Q k)" and r = "snd (cancel_spec Q k)" and k = k]
  by (fastforce simp: calls_def engine_is_def)

lemma run_cancel [run_rules]:
  "is_ok (snd (cancel_spec Q k)) \<Longrightarrow> runs (engine_is (fst (cancel_spec Q k))) (\<lambda>e. f e (projr (snd (cancel_spec Q k)))) \<Longrightarrow>
    runs (engine_is Q) (\<lambda>e. unwrap (engine_cancel_order e k) \<bind> (\<lambda>(e, r). f e r))"
  "\<not> is_ok (snd (cancel_spec Q k)) \<Longrightarrow> runs (engine_is (fst (cancel_spec Q k))) (\<lambda>e. g e (projl (snd (cancel_spec Q k)))) \<Longrightarrow>
    runs (engine_is Q) (\<lambda>e. unwrap_err (engine_cancel_order e k) \<bind> (\<lambda>(e, r). g e r))"
  by (rule run_unwrap [OF cancel_calls is_ok_projr] run_unwrap_err [OF cancel_calls is_err_projl], assumption+)+

lemma engine_is_book: "engine_is Q e \<Longrightarrow> book_is TEST_CAPACITY Q (e_book e)"
  by (simp add: engine_is_def book_is_def engine_ok_def engine_view_def)

lemma run_engine_book [run_rules]:
  "head_price (Q Bid) = v \<Longrightarrow> runs (engine_is Q) f \<Longrightarrow> runs (engine_is Q) (\<lambda>e. assert (best_bid (e_book e) = v) \<bind> (\<lambda>_. f e))"
  "head_price (Q Ask) = v \<Longrightarrow> runs (engine_is Q) f \<Longrightarrow> runs (engine_is Q) (\<lambda>e. assert (best_ask (e_book e) = v) \<bind> (\<lambda>_. f e))"
  "view_size Q = n \<Longrightarrow> runs (engine_is Q) f \<Longrightarrow> runs (engine_is Q) (\<lambda>e. assert (order_count (e_book e) = n) \<bind> (\<lambda>_. f e))"
  by (rule run_observe [OF book_is_observe(1) [OF engine_is_book]] run_observe [OF book_is_observe(2) [OF engine_is_book]]
      run_observe [OF book_is_observe(3) [OF engine_is_book]], assumption+)+

definition restored :: "Order list \<Rightarrow> sides" where
  "restored xs = (\<lambda>s. fold enqueue (filter (\<lambda>x. o_side x = s) xs) [])"

lemma run_restore [run_rules]:
  assumes "distinct (map o_id xs) \<and> list_all (\<lambda>x. o_quantity x \<noteq> 0) xs \<and> uncrossed (restored xs)"
    and "int (length xs) \<le> uint TEST_CAPACITY" "runs (engine_is (restored xs)) f"
  shows "restore xs \<bind> f = Some ()"
proof -
  let ?e = "MatchingEngine_with_capacity TEST_CAPACITY"
  have "length xs \<le> unat TEST_CAPACITY" using assms(2) by (simp only: uint_nat of_nat_le_iff)
  then have "\<exists>e. restore_orders ?e xs = Some (Inr e) \<and> book_ok (e_book e) \<and>
      engine_view e = (\<lambda>s. fold enqueue (filter (\<lambda>x. o_side x = s) xs) (engine_view ?e s)) \<and> engine_capacity e = engine_capacity ?e"
    using assms(1) engine_with_capacity [of TEST_CAPACITY]
    by (intro restore_orders_fold) (auto simp: engine_ok_def list_all_iff view_ids_def view_size_def)
  then obtain e where "restore_orders ?e xs = Some (Inr e)" "engine_is (restored xs) e"
    using assms(1) by (auto simp: engine_is_def engine_ok_def engine_with_capacity restored_def)
  then show ?thesis using assms(3) by (auto simp: runs_def restore_def restore_from_orders_def)
qed

lemma run_those [run_rules]: "those xs \<noteq> None \<Longrightarrow> f (the (those xs)) = Some () \<Longrightarrow> those xs \<bind> f = Some ()"
  by auto

lemma engine_tests:
  "no_match_resting = Some ()" "full_fill_equal_quantities = Some ()" "partial_fill_taker_has_more = Some ()"
  "partial_fill_maker_has_more = Some ()" "multi_level_matching = Some ()" "fifo_within_price_level = Some ()"
  "fill_price_is_maker_price = Some ()" "ask_taker_matches_bids = Some ()" "cancel_resting_order = Some ()"
  "cancel_nonexistent_fails = Some ()" "zero_quantity_rejected = Some ()" "empty_book_no_match = Some ()"
  "bid_below_best_ask_no_match = Some ()" "self_trade_prevented_cancel_newest = Some ()"
  "self_trade_different_traders_allowed = Some ()" "self_trade_partial_fill_then_cancel = Some ()"
  "restore_empty = Some ()" "restore_from_orders_rebuilds_book = Some ()" "restore_then_match = Some ()"
  "self_trade_multiple_resting_same_trader = Some ()"
  unfolding no_match_resting_def full_fill_equal_quantities_def partial_fill_taker_has_more_def
    partial_fill_maker_has_more_def multi_level_matching_def fifo_within_price_level_def
    fill_price_is_maker_price_def ask_taker_matches_bids_def cancel_resting_order_def
    cancel_nonexistent_fails_def zero_quantity_rejected_def empty_book_no_match_def
    bid_below_best_ask_no_match_def self_trade_prevented_cancel_newest_def
    self_trade_different_traders_allowed_def self_trade_partial_fill_then_cancel_def restore_empty_def
    restore_from_orders_rebuilds_book_def restore_then_match_def self_trade_multiple_resting_same_trader_def
  by (rule run_rules | code_simp)+

section \<open>The property tests hold for all arguments\<close>

lemma checked_add_sub:
  fixes a b :: u64
  assumes "b \<le> a"
  shows "checked_add b (a - b) = Some a"
proof -
  have "unat (a - b) = unat a - unat b" "unat b \<le> unat a" using assms by (simp_all add: unat_sub word_le_nat_alt)
  then have "unat b + unat (a - b) = unat a" by simp
  then show ?thesis using unsigned_less [of a] by (simp add: checked_add_def)
qed

lemma checked_sum_single: "checked_sum 0 [x] = Some x" "checked_add x 0 = Some x"
  using unsigned_less [of x] by (simp_all add: checked_add_def)

text \<open>An ask and then a bid at the same price, by different traders or by the same one.\<close>

lemma two_orders:
  fixes price :: i64 and m t :: u64
  assumes "m \<noteq> 0" "t \<noteq> 0"
    and "\<And>e r. r_fills r = (if x = y then [] else [\<lparr>f_taker_order_id = 2, f_maker_order_id = 1, f_price = price,
        f_quantity = min t m, f_maker_fully_filled = (m \<le> t)\<rparr>]) \<Longrightarrow>
      r_status r = (if x = y then CancelledSelfTrade else if t \<le> m then FullyFilled else PartiallyFilled) \<Longrightarrow> f e r = Some ()"
  shows "Let engine (\<lambda>e. unwrap (add e (Order_new 1 x Ask price m 1)) \<bind> (\<lambda>(e, _).
      unwrap (add e (Order_new 2 y Bid price t 2)) \<bind> (\<lambda>(e, r). f e r))) = Some ()"
proof -
  let ?o1 = "\<lparr>o_id = 1, o_trader_id = x, o_side = Ask, o_price = price, o_quantity = m, o_timestamp = 1\<rparr>"
  let ?o2 = "\<lparr>o_id = 2, o_trader_id = y, o_side = Bid, o_price = price, o_quantity = t, o_timestamp = 2\<rparr>"
  let ?Q = "(\<lambda>_. [])(Ask := [?o1]) :: sides"
  have new: "Order_new 1 x Ask price m 1 = Some ?o1" "Order_new 2 y Bid price t 2 = Some ?o2"
    using assms(1,2) by (simp_all add: Order_new_def)
  have s1: "step_spec (\<lambda>_. []) (Some ?o1) = (?Q, Inr \<lparr>r_order_id = 1, r_status = Resting, r_fills = []\<rparr>)"
    using assms(1) by (auto simp: step_spec_def add_spec_def view_ids_def view_size_def fun_eq_iff)
  have le: "t \<le> m \<longleftrightarrow> t = m \<or> \<not> m \<le> t" by auto
  obtain Q' r where s2: "step_spec ?Q (Some ?o2) = (Q', Inr r)"
    and r: "r_fills r = (if x = y then [] else [\<lparr>f_taker_order_id = 2, f_maker_order_id = 1, f_price = price,
        f_quantity = min t m, f_maker_fully_filled = (m \<le> t)\<rparr>])"
      "r_status r = (if x = y then CancelledSelfTrade else if t \<le> m then FullyFilled else PartiallyFilled)"
    using assms(2) le
    by (cases "x = y"; cases "m \<le> t"; cases "t = m")
      (auto simp: step_spec_def add_spec_def view_ids_def view_size_def crosses_def fill_of_def min_def)
  have cap: "int (view_size (\<lambda>_. [])) < uint TEST_CAPACITY" "int (view_size ?Q) < uint TEST_CAPACITY"
    by (simp_all add: view_size_def TEST_CAPACITY_def)
  have ok: "is_ok (Inr z)" for z by (simp add: is_ok_def)
  have "runs (engine_is ?Q) (\<lambda>e. unwrap (add e (Some ?o2)) \<bind> (\<lambda>(e, r). f e r))"
    by (rule run_add(1) [OF _ cap(2)]) (use assms(3) r in \<open>simp_all add: s2 ok runs_def\<close>)
  then have "runs (engine_is (\<lambda>_. [])) (\<lambda>e. unwrap (add e (Some ?o1)) \<bind> (\<lambda>(e, _). unwrap (add e (Some ?o2)) \<bind> (\<lambda>(e, r). f e r)))"
    by (intro run_add(1) [OF _ cap(1)]) (simp_all add: s1 ok)
  then show ?thesis unfolding new by (rule engine_is_start)
qed

lemma property_tests_two:
  assumes "m \<noteq> 0" "t \<noteq> 0"
  shows "quantity_conservation price m t = Some ()" "crosses_produce_fills price m t = Some ()" "no_self_trade_fills price m t = Some ()"
proof -
  show "quantity_conservation price m t = Some ()"
    unfolding quantity_conservation_def
    by (rule two_orders [OF assms])
      (cases "t \<le> m"; simp del: checked_sum.simps add: checked_sum_single checked_sub_def checked_add_sub min_absorb1 min_absorb2)
  show "crosses_produce_fills price m t = Some ()" "no_self_trade_fills price m t = Some ()"
    unfolding crosses_produce_fills_def no_self_trade_fills_def by (rule two_orders [OF assms], simp)+
qed

lemma add_all_ok:
  "engine_ok e \<Longrightarrow> \<forall>(s, p, q)\<in>set orders. q \<noteq> 0 \<Longrightarrow> \<exists>e'. add_all e i orders = Some e' \<and> engine_ok e'"
proof (induction orders arbitrary: e i)
  case (Cons x orders)
  obtain s p q where x: "x = (s, p, q)" by (cases x)
  let ?k = "word_of_nat (i + 1) :: u64"
  obtain t where t: "Order_new ?k ?k s p q ?k = Some t" using Cons.prems(2) by (simp add: x Order_new_def)
  obtain e' r where e': "add_order e t = Some (e', r)" "engine_ok e'"
    using engine_add_order [OF Cons.prems(1) prod.collapse [symmetric]] by blast
  then show ?case using Cons.IH [OF e'(2), of "i + 1"] Cons.prems(2) t by (simp add: x Let_def)
qed simp

lemma add_order_positive:
  assumes "engine_ok e" "add_order e t = Some (e', Inr r)"
  shows "list_all (\<lambda>fill. f_quantity fill > 0) (r_fills r)"
proof -
  have spec: "(engine_view e', Inr r) = add_spec (engine_capacity e) (engine_view e) t"
    using engine_ok_add [OF assms] by blast
  obtain rest fs t' st where ml: "match_list t (engine_view e (opposite (o_side t))) = (rest, fs, t', st)" "r_fills r = fs"
    by (rule add_spec_cases [OF spec]) blast
  have "\<forall>m\<in>set (engine_view e (opposite (o_side t))). o_quantity m \<noteq> 0"
    using assms(1) ob.queue_tags by (auto simp: engine_ok_def engine_view_def)
  then show ?thesis
    using match_list_fills [OF ml(1)] ml(2) by (auto simp: list_all_iff fill_ok_def word_gt_0)
qed

lemma positive_fills_ok:
  "engine_ok e \<Longrightarrow> \<forall>(s, p, q)\<in>set orders. q \<noteq> 0 \<Longrightarrow> positive_fills e i orders = Some ()"
proof (induction orders arbitrary: e i)
  case (Cons x orders)
  obtain s p q where x: "x = (s, p, q)" by (cases x)
  let ?k = "word_of_nat (i + 1) :: u64"
  obtain t where t: "Order_new ?k ?k s p q ?k = Some t" using Cons.prems(2) by (simp add: x Order_new_def)
  obtain e' r where e': "add_order e t = Some (e', r)" "engine_ok e'"
    using engine_add_order [OF Cons.prems(1) prod.collapse [symmetric]] by blast
  then show ?case
    using Cons.IH [OF e'(2), of "i + 1"] Cons.prems t add_order_positive [OF Cons.prems(1), of t e']
    by (cases r) (simp_all add: x Let_def)
qed simp

section \<open>Properties\<close>

text \<open>
  Every unit test of the matching engine passes on the model, at the arena capacity the tests use.
\<close>

theorem engine_unit_tests_pass:
  "all_pass [no_match_resting, full_fill_equal_quantities, partial_fill_taker_has_more, partial_fill_maker_has_more,
     multi_level_matching, fifo_within_price_level, fill_price_is_maker_price, ask_taker_matches_bids,
     cancel_resting_order, cancel_nonexistent_fails, zero_quantity_rejected, empty_book_no_match,
     bid_below_best_ask_no_match, self_trade_prevented_cancel_newest, self_trade_different_traders_allowed,
     self_trade_partial_fill_then_cancel, restore_empty, restore_from_orders_rebuilds_book, restore_then_match,
     self_trade_multiple_resting_same_trader]"
  by (simp add: engine_tests)

text \<open>
  C16: The five property tests of the matching engine cannot fail: whatever prices, non-zero quantities and
  sequence of orders \<open>proptest\<close> draws, quantity is conserved, the book does not cross, crossing orders trade, every
  fill has a quantity, and a trader never trades with itself.
\<close>

theorem engine_property_tests_hold:
  assumes "maker_qty \<noteq> 0" "taker_qty \<noteq> 0" "\<forall>(side, price, qty)\<in>set orders. qty \<noteq> 0"
  shows "all_pass [quantity_conservation price maker_qty taker_qty, no_crossed_book orders,
    crosses_produce_fills price maker_qty taker_qty, fill_quantities_positive orders,
    no_self_trade_fills price maker_qty taker_qty]"
proof -
  have ok: "engine_ok engine" by (simp add: engine_def engine_with_capacity)
  obtain e where e: "add_all engine 0 orders = Some e" "engine_ok e" using add_all_ok [OF ok assms(3)] by blast
  have "no_crossed_book orders = Some ()"
    using e uncrossed_best [OF e(2)] by (auto simp: no_crossed_book_def split: option.split)
  then show ?thesis
    using property_tests_two [OF assms(1,2)] positive_fills_ok [OF ok assms(3)] by (simp add: fill_quantities_positive_def)
qed

theorem engine_property_tests_hold_witness:
  "all_pass [quantity_conservation (I64 7) 10 4, no_crossed_book [(Bid, I64 5, 1), (Ask, I64 4, 2)],
    crosses_produce_fills (I64 7) 10 4, fill_quantities_positive [(Bid, I64 5, 1), (Ask, I64 4, 2)],
    no_self_trade_fills (I64 7) 10 4]"
  by (rule engine_property_tests_hold) simp_all

end
