(* ===== verification/SnapshotTests.thy ===== *)
theory SnapshotTests
  imports EngineTests Snapshot
begin

text \<open>
  The unit tests of \<open>src/snapshot.rs\<close>, on a file system that never fails. As in \<open>Snapshot\<close> the checksum and the
  serializer are parameters. What the tests rely on is stated of them: reading back what was written, the
  refusal of inputs that are too short (\<open>bincode_reads\<close>), fixed-width little-endian integers (\<open>bincode_fields\<close>), and
  that CRC-32 detects every change within four bytes (\<open>detects_bursts\<close>).
\<close>

section \<open>The tests of \<open>src/snapshot.rs\<close>\<close>

definition bid :: "u64 \<Rightarrow> u64 \<Rightarrow> u64 \<Rightarrow> Order option" where
  "bid order_id price qty = Order_new order_id 1 Bid (I64 price) qty order_id"

definition ask :: "u64 \<Rightarrow> u64 \<Rightarrow> u64 \<Rightarrow> Order option" where
  "ask order_id price qty = Order_new order_id 1 Ask (I64 price) qty order_id"

fun add_each :: "MatchingEngine \<Rightarrow> Order list \<Rightarrow> MatchingEngine option" where
  "add_each e [] = Some e"
| "add_each e (x # xs) = do { (e, _) \<leftarrow> unwrap (add_order e x); add_each e xs }"

definition engine_with_orders :: "Order list \<Rightarrow> MatchingEngine option" where
  "engine_with_orders orders = add_each (MatchingEngine_with_capacity 1024) orders"

definition verified :: "(u8 list \<Rightarrow> u32) \<Rightarrow> (snap_fields \<Rightarrow> u8 list) \<Rightarrow> Snapshot \<Rightarrow> bool" where
  "verified crc ser_fields s = is_ok (verify_checksum crc ser_fields s)"

definition capture_empty_book :: "(u8 list \<Rightarrow> u32) \<Rightarrow> (snap_fields \<Rightarrow> u8 list) \<Rightarrow> unit option" where
  "capture_empty_book crc ser_fields = do {
     let engine = MatchingEngine_with_capacity 64;
     snap \<leftarrow> capture crc ser_fields engine 0;
     assert (s_wal_record_count snap = 0);
     assert (s_orders snap = []);
     assert (s_best_bid snap = None);
     assert (s_best_ask snap = None);
     assert (verified crc ser_fields snap);
     Some ()
   }"

definition capture_with_orders :: "(u8 list \<Rightarrow> u32) \<Rightarrow> (snap_fields \<Rightarrow> u8 list) \<Rightarrow> unit option" where
  "capture_with_orders crc ser_fields = do {
     orders \<leftarrow> those [bid 1 100 10, ask 2 110 20];
     engine \<leftarrow> engine_with_orders orders;
     snap \<leftarrow> capture crc ser_fields engine 5;
     assert (s_wal_record_count snap = 5);
     assert (length (s_orders snap) = 2);
     assert (s_best_bid snap = Some (I64 100));
     assert (s_best_ask snap = Some (I64 110));
     assert (verified crc ser_fields snap);
     Some ()
   }"

definition contains :: "string \<Rightarrow> string \<Rightarrow> bool" where
  "contains s p = list_ex (\<lambda>i. take (length p) (drop i s) = p) [0..<Suc (length s)]"

definition save_in :: "(Snapshot \<Rightarrow> u8 list) \<Rightarrow> Snapshot \<Rightarrow> dir \<Rightarrow> (dir \<times> string) option" where
  "save_in ser snap dir = unwrap (Some (save ser NoFault snap dir))"

definition loaded_from ::
  "(u8 list \<Rightarrow> u32) \<Rightarrow> (snap_fields \<Rightarrow> u8 list) \<Rightarrow> (u8 list \<Rightarrow> Snapshot option) \<Rightarrow> dir option \<Rightarrow> Snapshot option option" where
  "loaded_from crc ser_fields de dir = unwrap_res (load_latest crc ser_fields de (Inr dir))"

definition save_load_roundtrip ::
  "(u8 list \<Rightarrow> u32) \<Rightarrow> (snap_fields \<Rightarrow> u8 list) \<Rightarrow> (Snapshot \<Rightarrow> u8 list) \<Rightarrow> (u8 list \<Rightarrow> Snapshot option) \<Rightarrow> unit option" where
  "save_load_roundtrip crc ser_fields ser de = do {
     orders \<leftarrow> those [bid 1 100 10, ask 2 110 20, bid 3 98 30];
     engine \<leftarrow> engine_with_orders orders;
     snap \<leftarrow> capture crc ser_fields engine 42;
     (dir, path) \<leftarrow> save_in ser snap [];
     assert (map_of dir path \<noteq> None);
     assert (contains path ''0000000042'');
     latest \<leftarrow> loaded_from crc ser_fields de (Some dir);
     loaded \<leftarrow> latest;
     assert (s_wal_record_count loaded = 42);
     assert (length (s_orders loaded) = 3);
     assert (s_best_bid loaded = Some (I64 100));
     assert (s_best_ask loaded = Some (I64 110));
     assert (verified crc ser_fields loaded);
     Some ()
   }"

definition checksum_detects_corruption :: "(u8 list \<Rightarrow> u32) \<Rightarrow> (snap_fields \<Rightarrow> u8 list) \<Rightarrow> unit option" where
  "checksum_detects_corruption crc ser_fields = do {
     orders \<leftarrow> those [bid 1 100 10];
     engine \<leftarrow> engine_with_orders orders;
     snap \<leftarrow> capture crc ser_fields engine 1;
     assert (verified crc ser_fields snap);
     order \<leftarrow> vec_get (s_orders snap) 0;
     orders \<leftarrow> vec_set (s_orders snap) 0 (order\<lparr>o_quantity := 999\<rparr>);
     let snap = snap\<lparr>s_orders := orders\<rparr>;
     assert (\<not> verified crc ser_fields snap);
     Some ()
   }"

definition checksum_covers_wal_record_count :: "(u8 list \<Rightarrow> u32) \<Rightarrow> (snap_fields \<Rightarrow> u8 list) \<Rightarrow> unit option" where
  "checksum_covers_wal_record_count crc ser_fields = do {
     orders \<leftarrow> those [bid 1 100 10];
     engine \<leftarrow> engine_with_orders orders;
     snap \<leftarrow> capture crc ser_fields engine 7;
     assert (verified crc ser_fields snap);
     let snap = snap\<lparr>s_wal_record_count := 6\<rparr>;
     assert (\<not> verified crc ser_fields snap);
     Some ()
   }"

definition same_orders :: "Order list \<Rightarrow> Order list \<Rightarrow> bool" where
  "same_orders xs ys = list_all (\<lambda>(x, y). o_id x = o_id y \<and> o_price x = o_price y \<and> o_quantity x = o_quantity y \<and>
     o_side x = o_side y) (zip xs ys)"

definition restore_produces_identical_book :: "(u8 list \<Rightarrow> u32) \<Rightarrow> (snap_fields \<Rightarrow> u8 list) \<Rightarrow> unit option" where
  "restore_produces_identical_book crc ser_fields = do {
     orders \<leftarrow> those [bid 1 100 10, ask 2 110 20, bid 3 98 30];
     engine \<leftarrow> engine_with_orders orders;
     snap \<leftarrow> capture crc ser_fields engine 10;
     r \<leftarrow> snapshot_restore snap 1024;
     restored \<leftarrow> unwrap_res r;
     assert (order_count (e_book restored) = 3);
     assert (best_bid (e_book restored) = Some (I64 100));
     assert (best_ask (e_book restored) = Some (I64 110));
     restored_orders \<leftarrow> all_resting_orders (e_book restored);
     assert (length restored_orders = length (s_orders snap));
     assert (same_orders (s_orders snap) restored_orders);
     Some ()
   }"

definition restore_then_match :: "(u8 list \<Rightarrow> u32) \<Rightarrow> (snap_fields \<Rightarrow> u8 list) \<Rightarrow> unit option" where
  "restore_then_match crc ser_fields = do {
     orders \<leftarrow> those [ask 1 100 10];
     engine \<leftarrow> engine_with_orders orders;
     snap \<leftarrow> capture crc ser_fields engine 1;
     r \<leftarrow> snapshot_restore snap 1024;
     restored \<leftarrow> unwrap_res r;
     (restored, result) \<leftarrow> unwrap (add restored (Order_new 2 2 Bid (I64 100) 10 2));
     assert (length (r_fills result) = 1);
     assert (holds_at (r_fills result) 0 (\<lambda>f. f_maker_order_id f = 1));
     Some ()
   }"

definition load_latest_picks_newest ::
  "(u8 list \<Rightarrow> u32) \<Rightarrow> (snap_fields \<Rightarrow> u8 list) \<Rightarrow> (Snapshot \<Rightarrow> u8 list) \<Rightarrow> (u8 list \<Rightarrow> Snapshot option) \<Rightarrow> unit option" where
  "load_latest_picks_newest crc ser_fields ser de = do {
     orders1 \<leftarrow> those [bid 1 100 10];
     engine1 \<leftarrow> engine_with_orders orders1;
     snap1 \<leftarrow> capture crc ser_fields engine1 10;
     (dir, _) \<leftarrow> save_in ser snap1 [];
     orders2 \<leftarrow> those [bid 1 100 10, ask 2 110 20];
     engine2 \<leftarrow> engine_with_orders orders2;
     snap2 \<leftarrow> capture crc ser_fields engine2 20;
     (dir, _) \<leftarrow> save_in ser snap2 dir;
     latest \<leftarrow> loaded_from crc ser_fields de (Some dir);
     loaded \<leftarrow> latest;
     assert (s_wal_record_count loaded = 20);
     assert (length (s_orders loaded) = 2);
     Some ()
   }"

definition load_latest_empty_dir ::
  "(u8 list \<Rightarrow> u32) \<Rightarrow> (snap_fields \<Rightarrow> u8 list) \<Rightarrow> (u8 list \<Rightarrow> Snapshot option) \<Rightarrow> unit option" where
  "load_latest_empty_dir crc ser_fields de = do {
     loaded \<leftarrow> loaded_from crc ser_fields de (Some []);
     assert (loaded = None)
   }"

definition load_latest_nonexistent_dir ::
  "(u8 list \<Rightarrow> u32) \<Rightarrow> (snap_fields \<Rightarrow> u8 list) \<Rightarrow> (u8 list \<Rightarrow> Snapshot option) \<Rightarrow> unit option" where
  "load_latest_nonexistent_dir crc ser_fields de = do {
     loaded \<leftarrow> loaded_from crc ser_fields de None;
     assert (loaded = None)
   }"

text \<open>\<open>b"garbage data"\<close>.\<close>

definition garbage :: "u8 list" where
  "garbage = [103, 97, 114, 98, 97, 103, 101, 32, 100, 97, 116, 97]"

definition load_latest_skips_corrupt_file ::
  "(u8 list \<Rightarrow> u32) \<Rightarrow> (snap_fields \<Rightarrow> u8 list) \<Rightarrow> (Snapshot \<Rightarrow> u8 list) \<Rightarrow> (u8 list \<Rightarrow> Snapshot option) \<Rightarrow> unit option" where
  "load_latest_skips_corrupt_file crc ser_fields ser de = do {
     orders \<leftarrow> those [bid 1 100 10];
     engine \<leftarrow> engine_with_orders orders;
     snap \<leftarrow> capture crc ser_fields engine 10;
     (dir, _) \<leftarrow> save_in ser snap [];
     let dir = fs_write ''snapshot_0000000020.bin'' garbage dir;
     latest \<leftarrow> loaded_from crc ser_fields de (Some dir);
     loaded \<leftarrow> latest;
     assert (s_wal_record_count loaded = 10);
     Some ()
   }"

section \<open>What is relied on\<close>

definition bincode_reads :: "(Snapshot \<Rightarrow> u8 list) \<Rightarrow> (u8 list \<Rightarrow> Snapshot option) \<Rightarrow> bool" where
  "bincode_reads ser de \<longleftrightarrow>
     (\<forall>s. s_wal_record_count s < 2 ^ 64 \<longrightarrow> de (ser s) = Some s) \<and> (\<forall>bs. length bs < 22 \<longrightarrow> de bs = None)"

text \<open>Two byte strings that differ, and only within at most \<open>k\<close> consecutive bytes.\<close>

definition differ_within :: "nat \<Rightarrow> u8 list \<Rightarrow> u8 list \<Rightarrow> bool" where
  "differ_within k xs ys \<longleftrightarrow> (\<exists>pre x y post. xs = pre @ x @ post \<and> ys = pre @ y @ post \<and> length x = length y \<and>
     length x \<le> k \<and> x \<noteq> y)"

definition detects_bursts :: "(u8 list \<Rightarrow> u32) \<Rightarrow> bool" where
  "detects_bursts crc \<longleftrightarrow> (\<forall>xs ys. differ_within 4 xs ys \<longrightarrow> crc xs \<noteq> crc ys)"

text \<open>A number below \<open>2 ^ 32\<close> fills four bytes of a fixed place, followed by zeros.\<close>

definition bincode_fields :: "(snap_fields \<Rightarrow> u8 list) \<Rightarrow> bool" where
  "bincode_fields ser_fields \<longleftrightarrow>
     (\<forall>n m b a xs. n < 2 ^ 32 \<longrightarrow> m < 2 ^ 32 \<longrightarrow> n \<noteq> m \<longrightarrow>
       differ_within 4 (ser_fields (n, b, a, xs)) (ser_fields (m, b, a, xs))) \<and>
     (\<forall>n b a xs x q ys. unat (o_quantity x) < 2 ^ 32 \<longrightarrow> unat q < 2 ^ 32 \<longrightarrow> o_quantity x \<noteq> q \<longrightarrow>
       differ_within 4 (ser_fields (n, b, a, xs @ x # ys)) (ser_fields (n, b, a, xs @ x\<lparr>o_quantity := q\<rparr> # ys)))"

section \<open>Running them\<close>

text \<open>Adding orders one by one, on the specification.\<close>

fun adds_ok :: "sides \<Rightarrow> Order list \<Rightarrow> bool" where
  "adds_ok Q [] \<longleftrightarrow> True"
| "adds_ok Q (x # xs) \<longleftrightarrow> int (view_size Q) < 1024 \<and> is_ok (snd (step_spec Q (Some x))) \<and> adds_ok (fst (step_spec Q (Some x))) xs"

definition adds :: "sides \<Rightarrow> Order list \<Rightarrow> sides" where
  "adds Q xs = fold (\<lambda>x Q. fst (step_spec Q (Some x))) xs Q"

lemma add_each_is: "engine_is Q e \<Longrightarrow> adds_ok Q xs \<Longrightarrow> \<exists>e'. add_each e xs = Some e' \<and> engine_is (adds Q xs) e'"
proof (induction xs arbitrary: Q e)
  case (Cons x xs)
  have "int (view_size Q) < uint TEST_CAPACITY" using Cons.prems(2) by (simp add: TEST_CAPACITY_def)
  then obtain e1 where e1: "add_order e x = Some (e1, snd (step_spec Q (Some x)))" "engine_is (fst (step_spec Q (Some x))) e1"
    using add_calls [of "Some x" Q] Cons.prems(1) by (auto simp: calls_def add_def)
  then have "unwrap (add_order e x) = Some (e1, projr (snd (step_spec Q (Some x))))"
    using Cons.prems(2) is_ok_projr [of "snd (step_spec Q (Some x))"] by (metis adds_ok.simps(2) unwrap_simps(1))
  then show ?case using Cons.IH [OF e1(2)] Cons.prems(2) by (simp add: adds_def)
qed (simp add: adds_def)

lemma run_with_orders [run_rules]:
  "adds_ok (\<lambda>_. []) xs \<Longrightarrow> runs (engine_is (adds (\<lambda>_. []) xs)) f \<Longrightarrow> engine_with_orders xs \<bind> f = Some ()"
  using add_each_is [of "\<lambda>_. []" "MatchingEngine_with_capacity 1024" xs] engine_with_capacity [of TEST_CAPACITY]
  by (auto simp: engine_with_orders_def engine_is_def TEST_CAPACITY_def runs_def)

text \<open>A snapshot is determined by the specification of the book it is taken from.\<close>

definition snap_of :: "(u8 list \<Rightarrow> u32) \<Rightarrow> (snap_fields \<Rightarrow> u8 list) \<Rightarrow> nat \<Rightarrow> sides \<Rightarrow> Snapshot" where
  "snap_of crc ser_fields n Q = \<lparr>s_wal_record_count = n, s_orders = Q Ask @ Q Bid, s_best_bid = head_price (Q Bid),
     s_best_ask = head_price (Q Ask),
     s_checksum = compute_checksum crc ser_fields n (head_price (Q Bid)) (head_price (Q Ask)) (Q Ask @ Q Bid)\<rparr>"

lemma snap_of_sel [simp]:
  "s_wal_record_count (snap_of crc ser_fields n Q) = n" "s_orders (snap_of crc ser_fields n Q) = Q Ask @ Q Bid"
  "s_best_bid (snap_of crc ser_fields n Q) = head_price (Q Bid)" "s_best_ask (snap_of crc ser_fields n Q) = head_price (Q Ask)"
  "verify_checksum crc ser_fields (snap_of crc ser_fields n Q) = Inr ()" "verified crc ser_fields (snap_of crc ser_fields n Q)"
  by (simp_all add: snap_of_def verify_checksum_def verified_def is_ok_def)

lemma capture_is: "engine_is Q e \<Longrightarrow> capture crc ser_fields e n = Some (snap_of crc ser_fields n Q)"
  using book_is_observe [OF engine_is_book, of Q e] by (simp add: capture_def snap_of_def Let_def)

lemma run_capture [run_rules]:
  "f (snap_of crc ser_fields n Q) = Some () \<Longrightarrow> runs (engine_is Q) (\<lambda>e. capture crc ser_fields e n \<bind> f)"
  by (simp add: runs_def capture_is)

lemma run_restored [run_rules]:
  "distinct (map o_id (s_orders s)) \<and> list_all (\<lambda>x. o_quantity x \<noteq> 0) (s_orders s) \<and> uncrossed (restored (s_orders s)) \<Longrightarrow>
   int (length (s_orders s)) \<le> uint TEST_CAPACITY \<Longrightarrow> runs (engine_is (restored (s_orders s))) f \<Longrightarrow>
   snapshot_restore s 1024 \<bind> (\<lambda>r. unwrap_res r \<bind> f) = Some ()"
  using run_restore [of "s_orders s" f]
  by (auto simp: restore_def snapshot_restore_def TEST_CAPACITY_def unwrap_res_def bind_eq_Some_conv split: sum.splits option.splits)

lemma run_engine_orders [run_rules]:
  "runs (engine_is Q) (\<lambda>e. f e (Q Ask @ Q Bid)) \<Longrightarrow> runs (engine_is Q) (\<lambda>e. all_resting_orders (e_book e) \<bind> (\<lambda>xs. f e xs))"
  using book_is_observe(4) [OF engine_is_book] by (auto simp: runs_def)

text \<open>Saving under the highest number so far, and then loading.\<close>

lemma run_save [run_rules]: "f (fst (save ser NoFault s dir)) (snapshot_name (s_wal_record_count s)) = Some () \<Longrightarrow>
   save_in ser s dir \<bind> (\<lambda>(dir, path). f dir path) = Some ()"
  by (simp add: save_in_def save_def)

lemma load_saved_small:
  assumes "bincode_reads ser de" "verify_checksum crc ser_fields s = Inr ()" "int (s_wal_record_count s) < 10 ^ 10"
    and "\<forall>p\<in>fst ` set d. is_snapshot_file p \<longrightarrow> (\<exists>m\<le> s_wal_record_count s. p = snapshot_name m)"
  shows "loaded_from crc ser_fields de (Some (fst (save ser NoFault s d))) = Some (Some s)"
proof -
  have "int (s_wal_record_count s) < int (10 ^ 10)" using assms(3) by simp
  then have n: "s_wal_record_count s < 10 ^ 10" by (simp only: of_nat_less_iff)
  then have "de (ser s) = Some s" using assms(1) by (simp add: bincode_reads_def)
  then show ?thesis using load_saved [OF _ assms(2) n assms(4)] by (simp add: loaded_from_def)
qed

text \<open>A file with the highest name that does not deserialize is passed over.\<close>

lemma load_skips:
  assumes "\<forall>p\<in>fst ` set d. is_snapshot_file p \<longrightarrow> p < path" "is_snapshot_file path" "de data = None"
  shows "load_latest crc ser_fields de (Inr (Some (fs_write path data d))) = load_latest crc ser_fields de (Inr (Some d))"
proof -
  let ?c = "filter is_snapshot_file (map fst d)"
  have "path \<notin> fst ` set d" using assms(1,2) by auto
  then have d: "filter (\<lambda>f. fst f \<noteq> path) d = d" by (intro filter_True) auto
  have "\<forall>p\<in>set (sort ?c). p \<le> path" using assms(1) by (auto intro: less_imp_le)
  then have "sort (path # ?c) = sort ?c @ [path]" using sorted_insort_is_snoc [of "sort ?c" path] by simp
  then have c: "rev (sort (filter is_snapshot_file (map fst (fs_write path data d)))) = path # rev (sort ?c)"
    using assms(2) by (simp add: fs_write_def d)
  have "load_from_file de (fs_write path data d) p = load_from_file de d p" if "p \<noteq> path" for p
    using that by (simp add: load_from_file_def fs_write_def d)
  then have "try_snapshots crc ser_fields de (fs_write path data d) ps = try_snapshots crc ser_fields de d ps" if "path \<notin> set ps" for ps
    using that by (induction ps) (auto split: sum.split)
  moreover have "path \<notin> set (rev (sort ?c))" using \<open>path \<notin> fst ` set d\<close> by auto
  moreover have "load_from_file de (fs_write path data d) path = Inl Deserialize"
    using assms(3) by (simp add: load_from_file_def fs_write_def)
  ultimately show ?thesis unfolding load_latest_def by (simp add: c)
qed

lemma saved_names: "fst ` set (fst (save ser NoFault s [])) = {snapshot_name (s_wal_record_count s)}"
  by (rule set_eqI) (simp add: names_save)

lemma engine_tests_of_snapshot:
  "capture_with_orders crc ser_fields = Some ()" "restore_produces_identical_book crc ser_fields = Some ()"
  "restore_then_match crc ser_fields = Some ()"
  unfolding capture_with_orders_def restore_produces_identical_book_def restore_then_match_def
  by (rule run_rules | simp only: snap_of_sel assert_bind simp_thms | code_simp)+

lemma capture_empty_pass: "capture_empty_book crc ser_fields = Some ()"
proof -
  let ?e = "MatchingEngine_with_capacity 64"
  have "book_is 64 (\<lambda>_. []) (e_book ?e)"
    using engine_with_capacity [of 64] by (simp add: book_is_def engine_ok_def engine_view_def)
  from book_is_observe [OF this] show ?thesis
    by (simp add: capture_empty_book_def capture_def Let_def head_price_def verified_def verify_checksum_def is_ok_def)
qed

lemma load_tests_pass:
  assumes "bincode_reads ser de"
  shows "save_load_roundtrip crc ser_fields ser de = Some ()" "load_latest_picks_newest crc ser_fields ser de = Some ()"
    "load_latest_skips_corrupt_file crc ser_fields ser de = Some ()"
proof -
  have load: "loaded_from crc ser_fields de (Some (fst (save ser NoFault (snap_of crc ser_fields n Q) d))) =
      Some (Some (snap_of crc ser_fields n Q))"
    if "int n < 10 ^ 10" "\<forall>p\<in>fst ` set d. is_snapshot_file p \<longrightarrow> (\<exists>m\<le>n. p = snapshot_name m)" for n Q d
    using load_saved_small [OF assms, of crc ser_fields "snap_of crc ser_fields n Q" d] that by simp
  have first: "loaded_from crc ser_fields de (Some (fst (save ser NoFault (snap_of crc ser_fields n Q) []))) =
      Some (Some (snap_of crc ser_fields n Q))" if "int n < 10 ^ 10" for n Q
    using load [OF that, of "[]"] by simp
  have path: "map_of (fst (save ser NoFault s [])) (snapshot_name (s_wal_record_count s)) \<noteq> None" for s
    by (simp add: map_of_save)
  have f42: "loaded_from crc ser_fields de (Some (fst (save ser NoFault (snap_of crc ser_fields 42 Q) []))) =
      Some (Some (snap_of crc ser_fields 42 Q))" for Q by (rule first) simp
  show "save_load_roundtrip crc ser_fields ser de = Some ()"
    unfolding save_load_roundtrip_def
    by (rule run_rules | simp only: snap_of_sel assert_bind simp_thms path f42 bind.bind_lunit | code_simp)+
  have second: "loaded_from crc ser_fields de (Some (fst (save ser NoFault (snap_of crc ser_fields 20 Q')
      (fst (save ser NoFault (snap_of crc ser_fields 10 Q) []))))) = Some (Some (snap_of crc ser_fields 20 Q'))" for Q Q'
    by (rule load, simp, unfold saved_names) (auto intro!: exI [of _ 10])
  show "load_latest_picks_newest crc ser_fields ser de = Some ()"
    unfolding load_latest_picks_newest_def
    by (rule run_rules | simp only: snap_of_sel assert_bind simp_thms second bind.bind_lunit | code_simp)+
  have name: "''snapshot_0000000020.bin'' = snapshot_name 20" by code_simp
  have "de garbage = None" using assms by (simp add: bincode_reads_def garbage_def)
  then have third: "loaded_from crc ser_fields de (Some (fs_write (snapshot_name 20) garbage
      (fst (save ser NoFault (snap_of crc ser_fields 10 Q) [])))) = Some (Some (snap_of crc ser_fields 10 Q))" for Q
    using first [of 10 Q] snapshot_name_less [of 10 20] unfolding loaded_from_def
    by (subst load_skips, unfold saved_names) simp_all
  show "load_latest_skips_corrupt_file crc ser_fields ser de = Some ()"
    unfolding load_latest_skips_corrupt_file_def name
    by (rule run_rules | simp only: snap_of_sel assert_bind simp_thms Let_def third bind.bind_lunit | code_simp)+
qed

lemma checksum_tests_pass:
  assumes "detects_bursts crc" "bincode_fields ser_fields"
  shows "checksum_detects_corruption crc ser_fields = Some ()" "checksum_covers_wal_record_count crc ser_fields = Some ()"
proof -
  let ?x = "\<lparr>o_id = 1, o_trader_id = 1, o_side = Bid, o_price = I64 100, o_quantity = 10, o_timestamp = 1\<rparr> :: Order"
  let ?Q = "adds (\<lambda>_. []) [?x]"
  have x: "those [bid 1 100 10] = Some [?x]" "adds_ok (\<lambda>_. []) [?x]" "?Q Ask = []" "?Q Bid = [?x]" by code_simp+
  have "differ_within 4 (ser_fields (n, b, a, [?x])) (ser_fields (n, b, a, [?x\<lparr>o_quantity := 999\<rparr>]))" for n b a
    using assms(2) unfolding bincode_fields_def by (elim conjE allE [of _ n] allE [of _ b] allE [of _ a] allE [of _ "[]"] allE [of _ ?x] allE [of _ "999"]) simp
  then have q: "crc (ser_fields (n, b, a, [?x\<lparr>o_quantity := 999\<rparr>])) \<noteq> crc (ser_fields (n, b, a, [?x]))" for n b a
    using assms(1) unfolding detects_bursts_def by metis
  have n: "crc (ser_fields (6, b, a, xs)) \<noteq> crc (ser_fields (7, b, a, xs))" for b a xs
    using assms unfolding detects_bursts_def bincode_fields_def by simp
  show "checksum_detects_corruption crc ser_fields = Some ()"
    unfolding checksum_detects_corruption_def x(1) bind.bind_lunit
    by (rule run_with_orders [OF x(2)], rule run_capture)
      (use q [of 1 "Some (I64 100)" None] in \<open>simp add: x(3,4) vec_get_def verified_def verify_checksum_def is_ok_def snap_of_def
        compute_checksum_def head_price_def Let_def\<close>)
  show "checksum_covers_wal_record_count crc ser_fields = Some ()"
    unfolding checksum_covers_wal_record_count_def x(1) bind.bind_lunit
    by (rule run_with_orders [OF x(2)], rule run_capture)
      (use n [of "Some (I64 100)" None "[?x]"] in \<open>simp add: x(3,4) verified_def verify_checksum_def is_ok_def snap_of_def
        compute_checksum_def head_price_def Let_def\<close>)
qed

section \<open>An instance\<close>

text \<open>A fixed-width little-endian serialization and a checksum that adds up the bytes in four columns.\<close>

definition bin_opt :: "i64 option \<Rightarrow> u8 list" where
  "bin_opt x = (case x of None \<Rightarrow> 0 # replicate 8 0 | Some p \<Rightarrow> 1 # u64_to_le_bytes (i64_bits p))"

definition bin_unopt :: "u8 list \<Rightarrow> i64 option" where
  "bin_unopt bs = (if hd bs = 0 then None else Some (I64 (u64_from_le_bytes (tl bs))))"

definition bin_order :: "Order \<Rightarrow> u8 list" where
  "bin_order x = u64_to_le_bytes (o_id x) @ u64_to_le_bytes (o_trader_id x) @
     u64_to_le_bytes (case o_side x of Bid \<Rightarrow> 0 | Ask \<Rightarrow> 1) @ u64_to_le_bytes (i64_bits (o_price x)) @
     u64_to_le_bytes (o_quantity x) @ u64_to_le_bytes (o_timestamp x)"

definition bin_u64_at :: "nat \<Rightarrow> u8 list \<Rightarrow> u64" where
  "bin_u64_at i bs = u64_from_le_bytes (take 8 (drop (8 * i) bs))"

definition bin_unorder :: "u8 list \<Rightarrow> Order" where
  "bin_unorder bs = \<lparr>o_id = bin_u64_at 0 bs, o_trader_id = bin_u64_at 1 bs,
     o_side = (if bin_u64_at 2 bs = 0 then Bid else Ask), o_price = I64 (bin_u64_at 3 bs), o_quantity = bin_u64_at 4 bs,
     o_timestamp = bin_u64_at 5 bs\<rparr>"

primrec bin_orders :: "nat \<Rightarrow> u8 list \<Rightarrow> Order list" where
  "bin_orders 0 bs = []"
| "bin_orders (Suc k) bs = bin_unorder (take 48 bs) # bin_orders k (drop 48 bs)"

definition bin_ser_fields :: "snap_fields \<Rightarrow> u8 list" where
  "bin_ser_fields x = (case x of (n, b, a, orders) \<Rightarrow> le_split 8 n @ bin_opt b @ bin_opt a @ concat (map bin_order orders))"

definition bin_ser :: "Snapshot \<Rightarrow> u8 list" where
  "bin_ser s = le_split 8 (s_wal_record_count s) @ u32_to_le_bytes (s_checksum s) @ bin_opt (s_best_bid s) @
     bin_opt (s_best_ask s) @ concat (map bin_order (s_orders s))"

definition bin_de :: "u8 list \<Rightarrow> Snapshot option" where
  "bin_de bs = (if length bs < 30 then None
     else Some \<lparr>s_wal_record_count = le_join (take 8 bs), s_orders = bin_orders (length (drop 30 bs) div 48) (drop 30 bs),
       s_best_bid = bin_unopt (take 9 (drop 12 bs)), s_best_ask = bin_unopt (take 9 (drop 21 bs)),
       s_checksum = u32_from_le_bytes (take 4 (drop 8 bs))\<rparr>)"

fun columns :: "nat \<Rightarrow> u8 list \<Rightarrow> nat" where
  "columns k [] = 0"
| "columns k (b # bs) = unat b * 256 ^ (k mod 4) + columns (Suc k) bs"

definition column_crc :: "u8 list \<Rightarrow> u32" where
  "column_crc bs = word_of_nat (columns 0 bs)"

lemma bin_lengths [simp]: "length (bin_opt x) = 9" "length (bin_order y) = 48"
  by (simp_all add: bin_opt_def bin_order_def split: option.split)

lemma bin_unopt_opt [simp]: "bin_unopt (bin_opt x) = x"
  by (simp add: bin_opt_def bin_unopt_def split: option.split)

lemma bin_unorder_order [simp]: "bin_unorder (bin_order x) = x"
proof -
  have "bin_u64_at 0 (bin_order x) = o_id x" "bin_u64_at 1 (bin_order x) = o_trader_id x"
    "bin_u64_at 2 (bin_order x) = (case o_side x of Bid \<Rightarrow> 0 | Ask \<Rightarrow> 1)" "bin_u64_at 3 (bin_order x) = i64_bits (o_price x)"
    "bin_u64_at 4 (bin_order x) = o_quantity x" "bin_u64_at 5 (bin_order x) = o_timestamp x"
    by (simp_all add: bin_u64_at_def bin_order_def)
  then show ?thesis by (cases x; cases "o_side x") (simp_all add: bin_unorder_def)
qed

lemma bin_orders_all: "bin_orders (length xs) (concat (map bin_order xs)) = xs" "length (concat (map bin_order xs)) = 48 * length xs"
  by (induction xs) simp_all

lemma bin_reads: "bincode_reads bin_ser bin_de"
proof -
  have "bin_de (bin_ser s) = Some s" if "s_wal_record_count s < 2 ^ 64" for s
  proof -
    have "le_join (le_split 8 (s_wal_record_count s)) = s_wal_record_count s" using that by (simp add: le_join_split)
    then show ?thesis by (simp add: bin_de_def bin_ser_def bin_orders_all)
  qed
  then show ?thesis by (simp add: bincode_reads_def bin_de_def)
qed

lemma le_split_append: "le_split (j + k) n = le_split j n @ le_split k (n div 256 ^ j)"
  by (induction j arbitrary: n) (simp_all add: div_mult2_eq)

lemma le_split_zero: "le_split k 0 = replicate k 0"
  by (induction k) simp_all

lemma le_split_low:
  assumes "n < 2 ^ 32"
  shows "le_split 8 n = le_split 4 n @ replicate 4 0"
proof -
  have "n div 256 ^ 4 = 0" using assms by (intro div_less) simp
  then show ?thesis using le_split_append [of 4 4 n] by (simp add: le_split_zero)
qed

lemma le_split_inj:
  assumes "n < 2 ^ 32" "m < 2 ^ 32" "le_split 4 n = le_split 4 m"
  shows "n = m"
proof -
  have "n mod 256 ^ 4 = m mod 256 ^ 4" using arg_cong [OF assms(3), of le_join] unfolding le_join_split .
  moreover have "n < 256 ^ 4" "m < 256 ^ 4" using assms(1,2) by simp_all
  ultimately show ?thesis by (simp only: mod_less)
qed

lemma differ_low:
  assumes "n < 2 ^ 32" "m < 2 ^ 32" "n \<noteq> m"
  shows "differ_within 4 (pre @ le_split 8 n @ post) (pre @ le_split 8 m @ post)"
  unfolding differ_within_def le_split_low [OF assms(1)] le_split_low [OF assms(2)]
  using le_split_inj [OF assms(1,2)] assms(3)
  by (intro exI [of _ pre] exI [of _ "le_split 4 n"] exI [of _ "le_split 4 m"] exI [of _ "replicate 4 0 @ post"]) auto

lemma bin_fields: "bincode_fields bin_ser_fields"
proof -
  have "differ_within 4 (bin_ser_fields (n, b, a, xs)) (bin_ser_fields (m, b, a, xs))" if "n < 2 ^ 32" "m < 2 ^ 32" "n \<noteq> m" for n m b a xs
    using differ_low [OF that, of "[]"] by (simp add: bin_ser_fields_def)
  moreover have "differ_within 4 (bin_ser_fields (n, b, a, xs @ x # ys)) (bin_ser_fields (n, b, a, xs @ x\<lparr>o_quantity := q\<rparr> # ys))"
    if "unat (o_quantity x) < 2 ^ 32" "unat q < 2 ^ 32" "o_quantity x \<noteq> q" for n b a xs x q ys
    using differ_low [OF that(1,2), of "le_split 8 n @ bin_opt b @ bin_opt a @ concat (map bin_order xs) @ u64_to_le_bytes (o_id x) @
        u64_to_le_bytes (o_trader_id x) @ u64_to_le_bytes (case o_side x of Bid \<Rightarrow> 0 | Ask \<Rightarrow> 1) @ u64_to_le_bytes (i64_bits (o_price x))"
        "u64_to_le_bytes (o_timestamp x) @ concat (map bin_order ys)"] that(3)
    by (simp add: bin_ser_fields_def bin_order_def u64_to_le_bytes_def unat_eq_iff)
  ultimately show ?thesis unfolding bincode_fields_def by blast
qed

lemma columns_append: "columns k (xs @ ys) = columns k xs + columns (k + length xs) ys"
  by (induction xs arbitrary: k) simp_all

lemma columns_zeros: "columns k (replicate n 0) = 0"
  by (induction n arbitrary: k) simp_all

lemma rotate_four: "rotate 1 [a, b, c, d] = [b, c, d, a]" "rotate 2 [a, b, c, d] = [c, d, a, b]" "rotate 3 [a, b, c, d] = [d, a, b, c]"
  by (simp_all add: rotate_def numeral_2_eq_2 numeral_3_eq_3)

lemma columns_four:
  assumes "length bs = 4"
  shows "columns k bs = le_join (rotate ((4 - k mod 4) mod 4) bs)"
proof -
  have "length bs = Suc (Suc (Suc (Suc 0)))" using assms by simp
  then obtain a b c d where bs: "bs = [a, b, c, d]" by (auto simp: length_Suc_conv)
  have "k mod 4 = 0 \<and> Suc k mod 4 = 1 \<and> Suc (Suc k) mod 4 = 2 \<and> Suc (Suc (Suc k)) mod 4 = 3 \<or>
      k mod 4 = 1 \<and> Suc k mod 4 = 2 \<and> Suc (Suc k) mod 4 = 3 \<and> Suc (Suc (Suc k)) mod 4 = 0 \<or>
      k mod 4 = 2 \<and> Suc k mod 4 = 3 \<and> Suc (Suc k) mod 4 = 0 \<and> Suc (Suc (Suc k)) mod 4 = 1 \<or>
      k mod 4 = 3 \<and> Suc k mod 4 = 0 \<and> Suc (Suc k) mod 4 = 1 \<and> Suc (Suc (Suc k)) mod 4 = 2" by presburger
  then show ?thesis by (elim disjE conjE) (simp_all add: bs rotate_four [simplified])
qed

lemma column_crc_detects: "detects_bursts column_crc"
proof -
  have "column_crc (pre @ x @ post) \<noteq> column_crc (pre @ y @ post)" if xy: "length x = length y" "length x \<le> 4" "x \<noteq> y" for pre x y post
  proof
    assume eq: "column_crc (pre @ x @ post) = column_crc (pre @ y @ post)"
    let ?pad = "\<lambda>bs. bs @ replicate (4 - length x) 0 :: u8 list" and ?k = "length pre"
    let ?f = "rotate ((4 - ?k mod 4) mod 4)"
    have len: "length (?pad x) = 4" "length (?pad y) = 4" using xy(1,2) by simp_all
    have "(word_of_nat (columns ?k x) :: u32) = word_of_nat (columns ?k y)"
      using eq xy(1) by (simp add: column_crc_def columns_append)
    then have "(word_of_nat (columns ?k (?pad x)) :: u32) = word_of_nat (columns ?k (?pad y))"
      by (simp add: columns_append columns_zeros)
    then have "u32_from_le_bytes (?f (?pad x)) = u32_from_le_bytes (?f (?pad y))"
      unfolding columns_four [OF len(1)] columns_four [OF len(2)] u32_from_le_bytes_def .
    then have "?f (?pad x) = ?f (?pad y)" using f32.enc_dec [of "?f (?pad x)"] f32.enc_dec [of "?f (?pad y)"] len by (metis length_rotate)
    moreover have "inj (?f :: u8 list \<Rightarrow> u8 list)" unfolding rotate_def by (rule inj_fn [OF inj_rotate1])
    ultimately have "?pad x = ?pad y" by (rule injD [rotated])
    then show False using xy(3) by simp
  qed
  then show ?thesis unfolding detects_bursts_def differ_within_def by blast
qed

section \<open>Property\<close>

text \<open>
  C33: The unit tests of the snapshots pass on the model, for every serializer that reads back what it wrote, refuses
  short inputs and lays integers out at a fixed width, and every checksum that detects a change within four bytes.
\<close>

theorem snapshot_unit_tests_pass:
  assumes "bincode_reads ser de" "bincode_fields ser_fields" "detects_bursts crc"
  shows "all_pass [capture_empty_book crc ser_fields, capture_with_orders crc ser_fields, save_load_roundtrip crc ser_fields ser de,
    checksum_detects_corruption crc ser_fields, checksum_covers_wal_record_count crc ser_fields,
    restore_produces_identical_book crc ser_fields, restore_then_match crc ser_fields,
    load_latest_picks_newest crc ser_fields ser de, load_latest_empty_dir crc ser_fields de,
    load_latest_nonexistent_dir crc ser_fields de, load_latest_skips_corrupt_file crc ser_fields ser de]"
proof -
  have "load_latest_empty_dir crc ser_fields de = Some ()" "load_latest_nonexistent_dir crc ser_fields de = Some ()"
    by (simp_all add: load_latest_empty_dir_def load_latest_nonexistent_dir_def loaded_from_def load_latest_def)
  then show ?thesis
    using assms by (simp add: capture_empty_pass engine_tests_of_snapshot load_tests_pass checksum_tests_pass)
qed

theorem snapshot_unit_tests_pass_witness:
  "save_load_roundtrip column_crc bin_ser_fields bin_ser bin_de = Some () \<and>
   checksum_detects_corruption column_crc bin_ser_fields = Some ()"
  using snapshot_unit_tests_pass [OF bin_reads bin_fields column_crc_detects] by simp

end
