(* ===== verification/RecoveryTests.thy ===== *)
theory RecoveryTests
  imports WalTests SnapshotTests Recovery
begin

text \<open>
  The unit tests of \<open>src/recovery.rs\<close>, with the parameters and assumptions of \<open>WalTests\<close> and \<open>SnapshotTests\<close>. A data
  directory is what \<open>read_dir\<close> gives for its snapshots and the bytes of its log. The test of an undecodable
  record also needs the one checksum it asserts.
\<close>

section \<open>The tests of \<open>src/recovery.rs\<close>\<close>














section \<open>Running them\<close>






text \<open>The rules for a data directory without snapshots, and for one with the snapshot just saved.\<close>

definition recovers :: "(Wal \<Rightarrow> bool) \<Rightarrow> sides \<Rightarrow> (MatchingEngine \<Rightarrow> Wal \<Rightarrow> unit option) \<Rightarrow> bool" where
  "recovers A Q f \<longleftrightarrow> (\<forall>w. A w \<longrightarrow> runs (engine_is Q) (\<lambda>e. f e w))"









lemma recovers_start: "(\<And>w. A w \<Longrightarrow> runs (engine_is Q) (\<lambda>e. f e w)) \<Longrightarrow> recovers A Q f"
  by (simp add: recovers_def)











section \<open>A record that the decoder refuses\<close>




section \<open>Property\<close>




end
