(* ===== verification/GatewayTests.thy ===== *)
theory GatewayTests
  imports Feed Loadgen RecoveryTests
begin

text \<open>
  The unit tests of \<open>src/gateway.rs\<close>. The two that start a matching thread are run over every interleaving of
  the two threads: the tests hold of every run of \<open>Pipeline\<close> that has come to its end, and such runs exist. Every
  datagram sent is received, as on the loop-back interface the tests use. The clock is a parameter that never
  shows the epoch. Not translated: \<open>engine_command_is_send\<close> and \<open>engine_command_size\<close>, which are about Rust types.
\<close>

section \<open>The tests of \<open>src/gateway.rs\<close>\<close>














section \<open>What the clients send\<close>







section \<open>What a run leaves behind\<close>
















section \<open>Property\<close>




end
