(* ===== verification/Metrics.thy ===== *)
theory Metrics
  imports Testing Snapshot
begin

text \<open>
  \<open>src/metrics.rs\<close>: the latency recorder of the load generator, in both builds, and its unit tests. The histogram is
  the crate \<open>hdrhistogram\<close>, a parameter given as the record \<open>Hdr\<close> of the operations used; \<open>hdr_laws\<close> states what its
  documentation says of them. Quantiles are in thousandths and instants in nanoseconds; what a mean is and how
  it is printed belongs to the parameter.
\<close>

section \<open>The histogram\<close>

record ('h, 'f) Hdr =
  new_with_bounds :: "u64 \<Rightarrow> u64 \<Rightarrow> u8 \<Rightarrow> 'h option"
  hdr_record :: "'h \<Rightarrow> u64 \<Rightarrow> 'h \<times> (unit + unit)"
  value_at_quantile :: "'h \<Rightarrow> nat \<Rightarrow> u64"
  hdr_max :: "'h \<Rightarrow> u64"
  hdr_mean :: "'h \<Rightarrow> 'f"
  hdr_len :: "'h \<Rightarrow> u64"
  hdr_reset :: "'h \<Rightarrow> 'h"
  show_mean :: "'f \<Rightarrow> string"

section \<open>The recorder with the feature \<open>metrics\<close>\<close>

record 'h LatencyRecorder =
  histogram :: 'h

definition LatencyRecorder_new :: "('h, 'f) Hdr \<Rightarrow> 'h LatencyRecorder option" where
  "LatencyRecorder_new H = map_option (\<lambda>h. \<lparr>histogram = h\<rparr>) (new_with_bounds H 1 60000000000 3)"

text \<open>\<open>Instant::now\<close>, and the time since, which is never negative.\<close>

definition start_instant :: "nat \<Rightarrow> nat" where
  "start_instant clock = clock"

definition elapsed_nanos :: "nat \<Rightarrow> nat \<Rightarrow> nat" where
  "elapsed_nanos clock start = clock - start"

definition record_nanos :: "('h, 'f) Hdr \<Rightarrow> 'h LatencyRecorder \<Rightarrow> u64 \<Rightarrow> 'h LatencyRecorder" where
  "record_nanos H self nanos = self\<lparr>histogram := fst (hdr_record H (histogram self) nanos)\<rparr>"

definition record_since :: "('h, 'f) Hdr \<Rightarrow> 'h LatencyRecorder \<Rightarrow> nat \<Rightarrow> nat \<Rightarrow> 'h LatencyRecorder" where
  "record_since H self clock start =
     (let elapsed = word_of_nat (elapsed_nanos clock start)
      in self\<lparr>histogram := fst (hdr_record H (histogram self) elapsed)\<rparr>)"

definition p50 :: "('h, 'f) Hdr \<Rightarrow> 'h LatencyRecorder \<Rightarrow> u64" where
  "p50 H self = value_at_quantile H (histogram self) 500"

definition p90 :: "('h, 'f) Hdr \<Rightarrow> 'h LatencyRecorder \<Rightarrow> u64" where
  "p90 H self = value_at_quantile H (histogram self) 900"

definition p99 :: "('h, 'f) Hdr \<Rightarrow> 'h LatencyRecorder \<Rightarrow> u64" where
  "p99 H self = value_at_quantile H (histogram self) 990"

definition p999 :: "('h, 'f) Hdr \<Rightarrow> 'h LatencyRecorder \<Rightarrow> u64" where
  "p999 H self = value_at_quantile H (histogram self) 999"

definition recorder_max :: "('h, 'f) Hdr \<Rightarrow> 'h LatencyRecorder \<Rightarrow> u64" where
  "recorder_max H self = hdr_max H (histogram self)"

definition recorder_mean :: "('h, 'f) Hdr \<Rightarrow> 'h LatencyRecorder \<Rightarrow> 'f" where
  "recorder_mean H self = hdr_mean H (histogram self)"

definition recorder_count :: "('h, 'f) Hdr \<Rightarrow> 'h LatencyRecorder \<Rightarrow> u64" where
  "recorder_count H self = hdr_len H (histogram self)"

definition recorder_reset :: "('h, 'f) Hdr \<Rightarrow> 'h LatencyRecorder \<Rightarrow> 'h LatencyRecorder" where
  "recorder_reset H self = self\<lparr>histogram := hdr_reset H (histogram self)\<rparr>"

text \<open>\<open>{:>10}\<close>: right-aligned in ten columns.\<close>

definition pad_left :: "nat \<Rightarrow> string \<Rightarrow> string" where
  "pad_left k s = replicate (k - length s) CHR '' '' @ s"

definition show_u64 :: "u64 \<Rightarrow> string" where
  "show_u64 n = digits (num_digits (unat n)) (unat n)"

definition print_summary :: "('h, 'f) Hdr \<Rightarrow> 'h LatencyRecorder \<Rightarrow> string list" where
  "print_summary H self =
     [''Latency (ns):'',
      ''  P50   : '' @ pad_left 10 (show_u64 (p50 H self)),
      ''  P90   : '' @ pad_left 10 (show_u64 (p90 H self)),
      ''  P99   : '' @ pad_left 10 (show_u64 (p99 H self)),
      ''  P99.9 : '' @ pad_left 10 (show_u64 (p999 H self)),
      ''  Max   : '' @ pad_left 10 (show_u64 (recorder_max H self)),
      ''  Mean  : '' @ pad_left 10 (show_mean H (recorder_mean H self)),
      ''  Count : '' @ pad_left 10 (show_u64 (recorder_count H self))]"

section \<open>The recorder without it\<close>

text \<open>The same methods on a type with one value: nothing is kept, every reading is zero and nothing is printed.\<close>

datatype NoRecorder = NoRecorder

definition off_new :: NoRecorder where
  "off_new = NoRecorder"

definition off_record :: "NoRecorder \<Rightarrow> unit \<Rightarrow> NoRecorder" where
  "off_record self start = self"

definition off_reset :: "NoRecorder \<Rightarrow> NoRecorder" where
  "off_reset self = self"

definition off_record_nanos :: "NoRecorder \<Rightarrow> u64 \<Rightarrow> NoRecorder" where
  "off_record_nanos self nanos = self"

definition off_reading :: "NoRecorder \<Rightarrow> u64" where
  "off_reading self = 0"

definition off_print_summary :: "NoRecorder \<Rightarrow> string list" where
  "off_print_summary self = []"

section \<open>The tests of \<open>src/metrics.rs\<close>\<close>

definition record_each :: "('h, 'f) Hdr \<Rightarrow> 'h LatencyRecorder \<Rightarrow> u64 list \<Rightarrow> 'h LatencyRecorder" where
  "record_each H recorder ns = fold (\<lambda>n recorder. record_nanos H recorder n) ns recorder"

definition record_and_read_percentiles :: "('h, 'f) Hdr \<Rightarrow> unit option" where
  "record_and_read_percentiles H = do {
     recorder \<leftarrow> LatencyRecorder_new H;
     let recorder = record_each H recorder (map (\<lambda>i. word_of_nat i * 100) [1..<1001]);
     assert (recorder_count H recorder = 1000);
     assert (p50 H recorder > 0);
     assert (p99 H recorder > p50 H recorder);
     assert (recorder_max H recorder \<ge> 100000);
     Some ()
   }"

definition empty_histogram :: "('h, 'f) Hdr \<Rightarrow> unit option" where
  "empty_histogram H = do {
     recorder \<leftarrow> LatencyRecorder_new H;
     assert (recorder_count H recorder = 0);
     assert (p50 H recorder = 0);
     assert (recorder_max H recorder = 0);
     Some ()
   }"

definition reset_clears_data :: "('h, 'f) Hdr \<Rightarrow> unit option" where
  "reset_clears_data H = do {
     recorder \<leftarrow> LatencyRecorder_new H;
     let recorder = record_nanos H recorder 1000;
     assert (recorder_count H recorder = 1);
     let recorder = recorder_reset H recorder;
     assert (recorder_count H recorder = 0);
     Some ()
   }"

section \<open>What the crate documents\<close>

text \<open>
  \<open>vals h\<close> are the values recorded since the creation or the last reset. Values up to the upper bound are recorded; a
  value that is refused changes nothing. A quantile is read at one of the values around its rank, to three
  significant digits; the readings of an empty histogram are zero.
\<close>

definition three_digits :: "u64 \<Rightarrow> u64 \<Rightarrow> bool" where
  "three_digits v r \<longleftrightarrow> 999 * unat v \<le> 1000 * unat r \<and> 1000 * unat r \<le> 1001 * unat v"

definition hdr_laws :: "('h, 'f) Hdr \<Rightarrow> ('h \<Rightarrow> u64 list) \<Rightarrow> bool" where
  "hdr_laws H vals \<longleftrightarrow>
     (\<exists>h. new_with_bounds H 1 60000000000 3 = Some h \<and> vals h = []) \<and>
     (\<forall>h v. case hdr_record H h v of
        (h', Inr _) \<Rightarrow> vals h' = vals h @ [v] | (h', Inl _) \<Rightarrow> h' = h \<and> v > 60000000000) \<and>
     (\<forall>h. hdr_len H h = word_of_nat (length (vals h))) \<and>
     (\<forall>h. vals (hdr_reset H h) = []) \<and>
     (\<forall>h q. vals h = [] \<longrightarrow> value_at_quantile H h q = 0 \<and> hdr_max H h = 0) \<and>
     (\<forall>h q. vals h \<noteq> [] \<and> q \<le> 1000 \<longrightarrow> (\<exists>i < length (vals h). 1000 * i \<le> q * length (vals h) \<and> q * length (vals h) \<le> 1000 * (i + 2) \<and>
        three_digits (sort (vals h) ! i) (value_at_quantile H h q))) \<and>
     (\<forall>h. \<forall>v \<in> set (vals h). v \<le> hdr_max H h)"

lemma hdr_lawsD:
  assumes "hdr_laws H vals"
  shows "\<exists>h. LatencyRecorder_new H = Some \<lparr>histogram = h\<rparr> \<and> vals h = []"
    and "case hdr_record H h v of (h', Inr _) \<Rightarrow> vals h' = vals h @ [v] | (h', Inl _) \<Rightarrow> h' = h \<and> v > 60000000000"
    and "hdr_len H h = word_of_nat (length (vals h))" "vals (hdr_reset H h) = []"
    and "vals h = [] \<Longrightarrow> value_at_quantile H h q = 0" "vals h = [] \<Longrightarrow> hdr_max H h = 0"
    and "vals h \<noteq> [] \<Longrightarrow> q \<le> 1000 \<Longrightarrow> \<exists>i < length (vals h). 1000 * i \<le> q * length (vals h) \<and> q * length (vals h) \<le> 1000 * (i + 2) \<and>
        three_digits (sort (vals h) ! i) (value_at_quantile H h q)"
    and "v \<in> set (vals h) \<Longrightarrow> v \<le> hdr_max H h"
proof -
  show "\<exists>h. LatencyRecorder_new H = Some \<lparr>histogram = h\<rparr> \<and> vals h = []"
    using assms unfolding hdr_laws_def LatencyRecorder_new_def by (elim conjE exE) simp
qed (use assms [unfolded hdr_laws_def] in \<open>elim conjE, simp\<close>)+

lemma hdr_record_in_range:
  assumes "hdr_laws H vals" "v \<le> 60000000000"
  shows "vals (fst (hdr_record H h v)) = vals h @ [v]"
  using hdr_lawsD(2) [OF assms(1), of h v] leD [OF assms(2)] by (auto split: prod.splits sum.splits)

lemma record_each_vals:
  "hdr_laws H vals \<Longrightarrow> list_all (\<lambda>v. v \<le> 60000000000) ns \<Longrightarrow>
   vals (histogram (record_each H r ns)) = vals (histogram r) @ ns"
proof (induction ns arbitrary: r)
  case (Cons n ns)
  then show ?case using Cons.IH [of "record_nanos H r n"] by (simp add: record_each_def record_nanos_def hdr_record_in_range)
qed (simp add: record_each_def)

section \<open>Running the tests\<close>

lemma sample_unat: "i \<le> 1000 \<Longrightarrow> unat (word_of_nat i * 100 :: u64) = 100 * i"
  using unat_word_of_nat [of "i * 100", where 'a = 64] by (simp add: mult.commute)

lemma samples_sorted: "sorted (map (\<lambda>i. word_of_nat i * 100 :: u64) [1..<1001])"
  unfolding sorted_map by (rule sorted_wrt_mono_rel [OF _ sorted_wrt_upt]) (auto simp: word_le_nat_alt sample_unat)

lemma samples_in_range: "list_all (\<lambda>v. v \<le> 60000000000) (map (\<lambda>i. word_of_nat i * 100 :: u64) [1..<1001])"
  by (simp add: list_all_iff word_le_nat_alt sample_unat del: upt_rec_numeral)

lemma percentile_order:
  "i \<le> 500 \<Longrightarrow> 498 \<le> i \<Longrightarrow> 988 \<le> j \<Longrightarrow> 999 * (100 * (i + 1)) \<le> 1000 * a \<Longrightarrow> 1000 * a \<le> 1001 * (100 * (i + 1)) \<Longrightarrow>
   999 * (100 * (j + 1)) \<le> 1000 * b \<Longrightarrow> 0 < a \<and> a < b" for i j a b :: nat
  by simp

lemma percentiles_pass:
  assumes "hdr_laws H vals"
  shows "record_and_read_percentiles H = Some ()"
proof -
  let ?ns = "map (\<lambda>i. word_of_nat i * 100 :: u64) [1..<1001]"
  obtain h where h: "LatencyRecorder_new H = Some \<lparr>histogram = h\<rparr>" "vals h = []" using hdr_lawsD(1) [OF assms] by blast
  define r where "r = record_each H \<lparr>histogram = h\<rparr> ?ns"
  have v: "vals (histogram r) = ?ns" using record_each_vals [OF assms samples_in_range] h(2) by (simp add: r_def del: upt_rec_numeral)
  have len: "length ?ns = 1000" by (simp del: upt_rec_numeral)
  have quantile: "\<exists>i < 1000. 1000 * i \<le> q * 1000 \<and> q * 1000 \<le> 1000 * (i + 2) \<and>
      999 * (100 * (i + 1)) \<le> 1000 * unat (value_at_quantile H (histogram r) q) \<and>
      1000 * unat (value_at_quantile H (histogram r) q) \<le> 1001 * (100 * (i + 1))" if q: "q \<le> 1000" for q
  proof -
    have "?ns \<noteq> []" by (simp del: upt_rec_numeral)
    then obtain i where i: "i < 1000" "1000 * i \<le> q * 1000" "q * 1000 \<le> 1000 * (i + 2)"
      "three_digits (?ns ! i) (value_at_quantile H (histogram r) q)"
      using hdr_lawsD(7) [OF assms, of "histogram r" q] q unfolding v len sorted_sort_id [OF samples_sorted] by blast
    moreover have "unat (?ns ! i) = 100 * (i + 1)"
      using i(1) sample_unat [of "i + 1"] by (simp add: nth_upt add.commute del: upt_rec_numeral of_nat_Suc)
    ultimately show ?thesis unfolding three_digits_def by metis
  qed
  obtain i j where i: "1000 * i \<le> 500 * 1000" "500 * 1000 \<le> 1000 * (i + 2)"
      "999 * (100 * (i + 1)) \<le> 1000 * unat (p50 H r)" "1000 * unat (p50 H r) \<le> 1001 * (100 * (i + 1))"
    and j: "990 * 1000 \<le> 1000 * (j + 2)" "999 * (100 * (j + 1)) \<le> 1000 * unat (p99 H r)"
    using quantile [of 500, simplified] quantile [of 990, simplified] unfolding p50_def p99_def by auto
  have "i \<le> 500" "498 \<le> i" "988 \<le> j" using i(1,2) j(1) by simp_all
  then have "0 < unat (p50 H r) \<and> unat (p50 H r) < unat (p99 H r)" using percentile_order i(3,4) j(2) by blast
  then have "p50 H r > 0" "p99 H r > p50 H r" by (simp_all add: word_less_nat_alt)
  moreover have "recorder_count H r = 1000" using hdr_lawsD(3) [OF assms, of "histogram r"] unfolding v len by (simp add: recorder_count_def)
  moreover have "100000 \<in> set ?ns" by (rule image_eqI [where x = 1000, THEN subsetD [OF equalityD2 [OF set_map]]]) simp_all
  then have "recorder_max H r \<ge> 100000"
    using hdr_lawsD(8) [OF assms, of 100000 "histogram r"] unfolding v by (simp add: recorder_max_def)
  ultimately show ?thesis by (simp add: record_and_read_percentiles_def h(1) Let_def r_def del: upt_rec_numeral)
qed

lemma other_metrics_tests_pass:
  assumes "hdr_laws H vals"
  shows "empty_histogram H = Some ()" "reset_clears_data H = Some ()"
proof -
  obtain h where h: "LatencyRecorder_new H = Some \<lparr>histogram = h\<rparr>" "vals h = []" using hdr_lawsD(1) [OF assms] by blast
  show "empty_histogram H = Some ()"
    by (simp add: empty_histogram_def h(1) recorder_count_def recorder_max_def p50_def hdr_lawsD(3) [OF assms] h(2)
        hdr_lawsD(5,6) [OF assms h(2)])
  have "(1000 :: u64) \<le> 60000000000" by simp
  from hdr_record_in_range [OF assms this, of h] show "reset_clears_data H = Some ()"
    by (simp add: reset_clears_data_def h(1) recorder_count_def record_nanos_def recorder_reset_def Let_def h(2)
        hdr_lawsD(3,4) [OF assms])
qed

section \<open>Property\<close>

text \<open>
  The unit tests of the latency recorder pass on the model, with every histogram that behaves as documented.
\<close>

theorem metrics_unit_tests_pass:
  assumes "hdr_laws H vals"
  shows "all_pass [record_and_read_percentiles H, empty_histogram H, reset_clears_data H]"
  using percentiles_pass [OF assms] other_metrics_tests_pass [OF assms] by simp

text \<open>A histogram that keeps every value.\<close>

definition exact_hdr :: "(u64 list, unit) Hdr" where
  "exact_hdr = \<lparr>new_with_bounds = (\<lambda>_ _ _. Some []),
     hdr_record = (\<lambda>h v. if v \<le> 60000000000 then (h @ [v], Inr ()) else (h, Inl ())),
     value_at_quantile = (\<lambda>h q. if h = [] then 0 else sort h ! (min (q * length h div 1000) (length h - 1))),
     hdr_max = (\<lambda>h. fold max h 0), hdr_mean = (\<lambda>_. ()), hdr_len = (\<lambda>h. word_of_nat (length h)), hdr_reset = (\<lambda>_. []),
     show_mean = (\<lambda>_. [])\<rparr>"

lemma fold_max_bound: "v \<in> set h \<or> v \<le> m \<Longrightarrow> v \<le> fold max h (m :: 'a::linorder)"
  by (induction h arbitrary: m) (auto simp: le_max_iff_disj)

lemma exact_rank:
  fixes n x :: nat
  assumes "0 < n" "x \<le> 1000 * n"
  shows "min (x div 1000) (n - 1) < n" "1000 * min (x div 1000) (n - 1) \<le> x" "x \<le> 1000 * (min (x div 1000) (n - 1) + 2)"
  using assms div_mult_mod_eq [of x 1000] by (auto simp: min_def)

lemma exact_quantile:
  assumes "h \<noteq> []" "q \<le> 1000"
  shows "\<exists>i < length h. 1000 * i \<le> q * length h \<and> q * length h \<le> 1000 * (i + 2) \<and>
    three_digits (sort h ! i) (value_at_quantile exact_hdr h q)"
  using exact_rank [of "length h" "q * length h"] assms
  by (intro exI [of _ "min (q * length h div 1000) (length h - 1)"]) (simp add: exact_hdr_def three_digits_def)

lemma exact_hdr_laws: "hdr_laws exact_hdr (\<lambda>h. h)"
  unfolding hdr_laws_def
proof (intro conjI allI impI)
  show "\<exists>i < length h. 1000 * i \<le> q * length h \<and> q * length h \<le> 1000 * (i + 2) \<and>
      three_digits (sort h ! i) (value_at_quantile exact_hdr h q)" if "h \<noteq> [] \<and> q \<le> 1000" for h q
    using exact_quantile that by blast
qed (auto simp: exact_hdr_def fold_max_bound)

theorem metrics_unit_tests_pass_witness: "record_and_read_percentiles exact_hdr = Some () \<and> reset_clears_data exact_hdr = Some ()"
  using metrics_unit_tests_pass [OF exact_hdr_laws] by simp

end
