(* ===== verification/LoadClock.thy ===== *)
theory LoadClock
  imports Loadgen Metrics
begin

text \<open>
  The rest of \<open>examples/loadgen.rs\<close>: its clocks, the measured loop as it is compiled with the feature \<open>metrics\<close>, the
  printing of the latencies, the receiving loop of TCP mode and \<open>main\<close>. The readings of the two hardware clocks are
  parameters, one value for each reading in turn; so are the operations on \<open>f64\<close>, which only printing uses.

  Shown: the clock step printed is the smallest non-zero difference of consecutive readings, and timing the
  measured loop does not change what it does.
\<close>

section \<open>Clocks\<close>

record 'f Floats =
  f_of_u64 :: "u64 \<Rightarrow> 'f"
  f_div :: "'f \<Rightarrow> 'f \<Rightarrow> 'f"
  f_show :: "nat \<Rightarrow> 'f \<Rightarrow> string"

record Timers =
  tm_instant :: "nat \<Rightarrow> nat"
  tm_rdtsc :: "nat \<Rightarrow> u64"

datatype 'f Clock = Clock_Instant nat | Clock_Tsc 'f

definition clock_instant :: "Timers \<Rightarrow> nat \<Rightarrow> 'f Clock" where
  "clock_instant tm k = Clock_Instant (tm_instant tm k)"

text \<open>
  Calibration: two readings of the counter, and the nanoseconds between them. The difference wraps, as in the
  release build that the measurements are made with.
\<close>

definition clock_tsc :: "'f Floats \<Rightarrow> u64 \<Rightarrow> u64 \<Rightarrow> u64 \<Rightarrow> 'f Clock" where
  "clock_tsc F c0 c1 elapsed = Clock_Tsc (f_div F (f_of_u64 F (c1 - c0)) (f_of_u64 F elapsed))"

definition clock_now :: "Timers \<Rightarrow> 'f Clock \<Rightarrow> nat \<Rightarrow> u64" where
  "clock_now tm clock k =
     (case clock of
        Clock_Instant epoch \<Rightarrow> word_of_nat (elapsed_nanos (tm_instant tm k) epoch)
      | Clock_Tsc _ \<Rightarrow> tm_rdtsc tm k)"

definition ticks_to_ns :: "'f Floats \<Rightarrow> 'f Clock \<Rightarrow> 'f \<Rightarrow> 'f" where
  "ticks_to_ns F clock ticks = (case clock of Clock_Instant _ \<Rightarrow> ticks | Clock_Tsc ticks_per_ns \<Rightarrow> f_div F ticks ticks_per_ns)"

definition describe :: "'f Floats \<Rightarrow> 'f Clock \<Rightarrow> string" where
  "describe F clock =
     (case clock of
        Clock_Instant _ \<Rightarrow> ''std::time::Instant''
      | Clock_Tsc ticks_per_ns \<Rightarrow> ''x86-64 TSC, calibrated '' @ f_show F 4 ticks_per_ns @ '' GHz'')"

text \<open>The loop of \<open>observed_resolution_ns\<close> over the readings behind the first.\<close>

fun smallest_step :: "u64 \<Rightarrow> u64 \<Rightarrow> u64 list \<Rightarrow> u64" where
  "smallest_step smallest prev [] = smallest"
| "smallest_step smallest prev (now # rest) =
     (let d = now - prev
      in smallest_step (if d > 0 \<and> d < smallest then d else smallest) now rest)"

definition observed_step :: "Timers \<Rightarrow> 'f Clock \<Rightarrow> nat \<Rightarrow> nat \<Rightarrow> u64" where
  "observed_step tm clock k n = smallest_step (- 1) (clock_now tm clock k) (map (clock_now tm clock) [Suc k..<Suc k + n])"

definition observed_resolution_ns :: "'f Floats \<Rightarrow> Timers \<Rightarrow> 'f Clock \<Rightarrow> nat \<Rightarrow> 'f" where
  "observed_resolution_ns F tm clock k = ticks_to_ns F clock (f_of_u64 F (observed_step tm clock k 1000000))"

text \<open>\<open>{name:<6}\<close>.\<close>

definition pad_right :: "nat \<Rightarrow> string \<Rightarrow> string" where
  "pad_right k s = s @ replicate (k - length s) CHR '' ''"

definition print_latency :: "'f Floats \<Rightarrow> ('h, 'f) Hdr \<Rightarrow> Timers \<Rightarrow> 'h LatencyRecorder \<Rightarrow> 'f Clock \<Rightarrow> nat \<Rightarrow> string list" where
  "print_latency F H tm recorder clock k =
     [''Latency ('' @ describe F clock @ ''):'',
      ''  clock step : '' @ pad_left 10 (f_show F 1 (observed_resolution_ns F tm clock k)) @
        '' ns (smallest observed delta between consecutive reads)''] @
     map (\<lambda>(name, ticks). ''  '' @ pad_right 6 name @ ''     : '' @ pad_left 10 (f_show F 0 (ticks_to_ns F clock (f_of_u64 F ticks))) @ '' ns'')
       [(''P50'', p50 H recorder), (''P90'', p90 H recorder), (''P99'', p99 H recorder), (''P99.9'', p999 H recorder),
        (''Max'', recorder_max H recorder)] @
     [''  Mean       : '' @ pad_left 10 (f_show F 0 (ticks_to_ns F clock (recorder_mean H recorder))) @ '' ns'',
      ''  Count      : '' @ pad_left 10 (show_u64 (recorder_count H recorder))]"

section \<open>The measured loop with timing\<close>

partial_function (option) timed_loop ::
  "('h, 'g) Hdr \<Rightarrow> Timers \<Rightarrow> 'f Clock \<Rightarrow> nat \<Rightarrow> Harness \<Rightarrow> u64 \<Rightarrow> 'h LatencyRecorder \<Rightarrow> (Harness \<times> u64 \<times> 'h LatencyRecorder) option" where
  "timed_loop H tm clock k h measured_count recorder = do {
     (s, r) \<leftarrow> ring_deq (h_ring h);
     case r of
       None \<Rightarrow> Some (h\<lparr>h_ring := s\<rparr>, measured_count, recorder)
     | Some cmd \<Rightarrow> do {
         let order_start = clock_now tm clock k;
         h \<leftarrow> handle_popped cmd (h\<lparr>h_ring := s\<rparr>);
         let recorder = record_nanos H recorder (clock_now tm clock (k + 1) - order_start);
         timed_loop H tm clock (k + 2) h (measured_count + 1) recorder
       }
   }"

section \<open>Receiving, and \<open>main\<close>\<close>

text \<open>What the receiving socket gives, call by call, up to the error that ends the loop of \<open>run_tcp\<close>.\<close>

fun recv_loop :: "(unit + u8 list) list \<Rightarrow> u64 \<Rightarrow> u64" where
  "recv_loop [] recv_count = recv_count"
| "recv_loop (r # rs) recv_count = (case r of Inr _ \<Rightarrow> recv_loop rs (recv_count + 1) | Inl _ \<Rightarrow> recv_count)"

datatype mode = Run_Tcp | Run_Direct bool

definition loadgen_main :: "string list \<Rightarrow> mode" where
  "loadgen_main args =
     (let tcp_mode = list_ex (\<lambda>a. a = ''--tcp'') args;
          use_instant_clock = list_ex (\<lambda>a. a = ''--instant'') args
      in if tcp_mode then Run_Tcp else Run_Direct use_instant_clock)"

section \<open>The clock step\<close>

fun steps :: "u64 \<Rightarrow> u64 list \<Rightarrow> u64 list" where
  "steps prev [] = []"
| "steps prev (now # rest) = (now - prev) # steps now rest"

lemma smallest_step_eq: "smallest_step m prev xs = fold min (filter (\<lambda>d. d > 0) (steps prev xs)) m"
proof (induction xs arbitrary: m prev)
  case (Cons x xs)
  have "(if x - prev > 0 \<and> x - prev < m then x - prev else m) = (if x - prev > 0 then min (x - prev) m else m)"
    by (simp add: min_def not_less order.strict_iff_order)
  then show ?case using Cons by (simp add: Let_def)
qed simp

lemma fold_min_Min: "fold min xs (m :: 'a::linorder) = Min (insert m (set xs))"
  using Min.set_eq_fold [of m xs] by simp

section \<open>Timing changes nothing\<close>

fun latencies :: "Timers \<Rightarrow> 'f Clock \<Rightarrow> nat \<Rightarrow> nat \<Rightarrow> u64 list" where
  "latencies tm clock k 0 = []"
| "latencies tm clock k (Suc n) = (clock_now tm clock (k + 1) - clock_now tm clock k) # latencies tm clock (k + 2) n"

lemma record_each_simps [simp]: "record_each H r [] = r" "record_each H r (n # ns) = record_each H (record_nanos H r n) ns"
  by (simp_all add: record_each_def)

lemma timed_loop_eq:
  "ring_ok (h_ring h) \<Longrightarrow> engine_ok (h_engine h) \<Longrightarrow>
   timed_loop H tm clock k h n r =
     map_option (\<lambda>(h', n'). (h', n', record_each H r (latencies tm clock k (length (ring_items (h_ring h)))))) (measured_loop h n)"
proof (induction "ring_items (h_ring h)" arbitrary: h n k r)
  case Nil
  then obtain s where "ring_deq (h_ring h) = Some (s, None)" using rq.deq_empty [OF Nil.prems(1)] by metis
  then show ?case using Nil(1) [symmetric] by (subst timed_loop.simps, subst measured_loop.simps) simp
next
  case (Cons cmd cmds)
  note items = Cons.hyps(2) [symmetric]
  obtain s where s: "ring_deq (h_ring h) = Some (s, Some cmd)" "ring_ok s" "ring_items s = cmds"
    using rq.deq_item [OF Cons.prems(1) items] by blast
  obtain h1 where h1: "handle_popped cmd (h\<lparr>h_ring := s\<rparr>) = Some h1" "engine_ok (h_engine h1)" "h_ring h1 = s"
    using handle_popped_ok [of "h\<lparr>h_ring := s\<rparr>" cmd] Cons.prems(2) by auto
  then show ?case
    using Cons.hyps(1) [of h1 "k + 2" "n + 1"] s items
    by (subst timed_loop.simps, subst measured_loop.simps) (simp add: Let_def)
qed

lemma length_latencies [simp]: "length (latencies tm clock k n) = n"
  by (induction n arbitrary: k) simp_all

section \<open>Properties\<close>

text \<open>
  The clock step that is printed is the smallest non-zero difference between consecutive readings, and \<open>u64::MAX\<close> when
  there is none.
\<close>

theorem observed_step_smallest:
  "observed_step tm clock k n =
     Min (insert (- 1) {d \<in> set (steps (clock_now tm clock k) (map (clock_now tm clock) [Suc k..<Suc k + n])). d > 0})"
  unfolding observed_step_def smallest_step_eq fold_min_Min set_filter ..

text \<open>
  C39: Timing the measured loop does not change what it does: with the clock and the histogram the loop ends in the same
  state with the same counts as without, and when the histogram behaves as documented and no latency
  exceeds its range, the count it reports is the number of orders measured.
\<close>

theorem timed_loop_same:
  assumes "ring_ok (h_ring h)" "engine_ok (h_engine h)" "hdr_laws H vals" "LatencyRecorder_new H = Some r"
    and "\<And>k. clock_now tm clock (k + 1) - clock_now tm clock k \<le> 60000000000"
  shows "\<exists>h' r'. measured_loop h 0 = Some (h', word_of_nat (length (ring_items (h_ring h)))) \<and>
    timed_loop H tm clock k h 0 r = Some (h', word_of_nat (length (ring_items (h_ring h))), r') \<and>
    recorder_count H r' = word_of_nat (length (ring_items (h_ring h))) \<and> ring_items (h_ring h') = []"
proof -
  let ?n = "length (ring_items (h_ring h))"
  let ?r = "record_each H r (latencies tm clock k ?n)"
  obtain h' where h': "measured_loop h 0 = Some (h', word_of_nat ?n)" "ring_items (h_ring h') = []"
    using measured_ok [OF assms(1,2), of 0] by auto
  have "list_all (\<lambda>v. v \<le> 60000000000) (latencies tm clock k n)" for n k
    using assms(5) by (induction n arbitrary: k) simp_all
  moreover have "vals (histogram r) = []" using hdr_lawsD(1) [OF assms(3)] assms(4) by auto
  ultimately have "vals (histogram ?r) = latencies tm clock k ?n" using record_each_vals [OF assms(3)] by simp
  then have "recorder_count H ?r = word_of_nat ?n" using hdr_lawsD(3) [OF assms(3)] by (simp add: recorder_count_def)
  moreover have "timed_loop H tm clock k h 0 r = Some (h', word_of_nat ?n, ?r)"
    unfolding timed_loop_eq [OF assms(1,2)] h'(1) by simp
  ultimately show ?thesis using h' by blast
qed

definition ex_timers :: Timers where
  "ex_timers = \<lparr>tm_instant = (\<lambda>k. 5 * k), tm_rdtsc = (\<lambda>k. word_of_nat k)\<rparr>"

theorem timed_loop_same_witness:
  "\<exists>h h' r'. ring_items (h_ring h) = [CancelOrder 1] \<and> measured_loop h 0 = Some (h', 1) \<and>
     timed_loop exact_hdr ex_timers (Clock_Tsc ()) 0 h 0 \<lparr>histogram = []\<rparr> = Some (h', 1, r') \<and> recorder_count exact_hdr r' = 1"
proof -
  have "is_power_of_two (2 :: usize)" by code_simp
  then obtain x :: "EngineCommand Ring" where x: "ring_buffer 2 = Some x" by (auto simp: ring_buffer_def)
  then have "length (ring_items x) < ring_cap x" using ring_buffer_ok [OF x] by simp
  then obtain s where s: "ring_ok s" "ring_items s = [CancelOrder 1]"
    using rq.enq_room [OF ring_buffer_ok(1) [OF x], of "CancelOrder 1"] ring_buffer_ok(2) [OF x] by auto
  let ?h = "\<lparr>h_ring = s, h_engine = MatchingEngine_with_capacity 4, h_report_buf = [], h_seq = 0, h_fill_count = 0\<rparr>"
  have h: "ring_ok (h_ring ?h)" "engine_ok (h_engine ?h)" using s(1) engine_with_capacity(1) by simp_all
  have r: "LatencyRecorder_new exact_hdr = Some \<lparr>histogram = []\<rparr>" by (simp add: LatencyRecorder_new_def exact_hdr_def)
  have c: "clock_now ex_timers (Clock_Tsc ()) (k + 1) - clock_now ex_timers (Clock_Tsc ()) k \<le> 60000000000" for k
    by (simp add: clock_now_def ex_timers_def)
  from timed_loop_same [OF h exact_hdr_laws r c, of 0] s(2) show ?thesis by - (rule exI [of _ ?h], auto)
qed

end
