(* ===== verification/LoadResting.thy ===== *)
theory LoadResting
  imports Loadgen
begin

text \<open>
  What direct mode of \<open>examples/loadgen.rs\<close> prints as orders resting. All orders are for the same quantity, so a bid
  either trades with exactly one ask or rests, unless the arena is full. It never is: while asks are left in
  the lower half of the price levels, every bid in the upper half trades, and when none is left, half of the
  bids have traded.
\<close>

section \<open>The line printed\<close>

text \<open>\<open>measured_count.saturating_sub(fill_count)\<close>.\<close>

definition orders_resting :: "u64 \<Rightarrow> u64 \<Rightarrow> u64" where
  "orders_resting measured_count fill_count = (if fill_count \<le> measured_count then measured_count - fill_count else 0)"

section \<open>Price levels\<close>

lemma level_price_le: "level_price i \<le> level_price j \<longleftrightarrow> i mod 50 \<le> j mod 50"
proof -
  have "sint (10000 + word_of_nat k :: u64) = int (10000 + k)" if "k < 50" for k
  proof -
    have "(10000 + word_of_nat k :: u64) = word_of_nat (10000 + k)" by simp
    also have "sint \<dots> = int (10000 + k)"
      using that unfolding sint_sbintrunc' by (subst signed_of_nat) (simp add: signed_take_bit_int_eq_self)
    finally show ?thesis .
  qed
  then show ?thesis by (simp add: level_price_def PRICE_LEVELS_def)
qed

lemma level_price_less: "level_price i < level_price j \<longleftrightarrow> i mod 50 < j mod 50"
  by (simp only: not_le [symmetric] level_price_le)

text \<open>How many of the first \<open>n\<close> orders are in the lower half of the levels, and how many at level 24 or above.\<close>

definition lower :: "nat \<Rightarrow> nat" where
  "lower n = 25 * (n div 50) + min (n mod 50) 25"

definition upper :: "nat \<Rightarrow> nat" where
  "upper n = 26 * (n div 50) + (n mod 50 - 24)"

lemma lower_Suc: "lower 0 = 0" "lower (Suc n) = lower n + (if n mod 50 < 25 then 1 else 0)"
  by (auto simp: lower_def div_Suc mod_Suc)

lemma upper_Suc: "upper 0 = 0" "upper (Suc n) = upper n + (if 24 \<le> n mod 50 then 1 else 0)"
  by (auto simp: upper_def div_Suc mod_Suc)

lemma halves: "n \<le> 2 * lower n" "n \<le> 2 * upper n + 24"
proof -
  have "n = 50 * (n div 50) + n mod 50" "n mod 50 < 50" by simp_all
  then obtain q r where "n = 50 * q + r" "r < 50" by blast
  then show "n \<le> 2 * lower n" "n \<le> 2 * upper n + 24" by (auto simp: lower_def upper_def)
qed

section \<open>The book of equal lots\<close>

definition lows :: "sides \<Rightarrow> nat" where
  "lows Q = length (filter (\<lambda>x. o_price x < level_price 25) (Q Ask))"

text \<open>\<open>n\<close> asks were put in, and of the first \<open>i\<close> bids \<open>k\<close> traded.\<close>

definition lot_book :: "nat \<Rightarrow> nat \<Rightarrow> nat \<Rightarrow> sides \<Rightarrow> bool" where
  "lot_book n i k Q \<longleftrightarrow>
     (\<forall>x\<in>set (Q Ask). \<exists>j<n. x = lg_order Ask (word_of_nat (Suc j)) j) \<and>
     (\<forall>x\<in>set (Q Bid). \<exists>j<i. x = lg_order Bid (word_of_nat (Suc (n + j))) j) \<and>
     length (Q Ask) + k = n \<and> length (Q Bid) + k = i \<and>
     n \<le> 2 * (lows Q + k) \<and> (0 < lows Q \<longrightarrow> upper i \<le> k)"

lemma lot_book_room:
  assumes "lot_book n i k Q" "i \<le> n"
  shows "view_size Q \<le> n + 24"
proof -
  have "i \<le> 2 * k + 24" using assms halves(2) [of i] unfolding lot_book_def by (cases "lows Q = 0") auto
  then show ?thesis using assms(1) by (simp add: lot_book_def view_size_def)
qed

lemma filter_enqueue: "length (filter P (enqueue x xs)) = length (filter P xs) + (if P x then 1 else 0)"
  by (induction xs) auto

lemma word_of_nat_eq:
  assumes "a < 2 ^ 64" "b < 2 ^ 64"
  shows "(word_of_nat a :: u64) = word_of_nat b \<longleftrightarrow> a = b"
proof -
  have "unat (word_of_nat a :: u64) = a" "unat (word_of_nat b :: u64) = b"
    using assms by (intro unat_word_of_nat; simp)+
  then show ?thesis by metis
qed

text \<open>One bid: it takes the first ask, or there is none at its price and it rests.\<close>

lemma lot_step:
  assumes book: "lot_book n i k Q" and i: "i < n" and srt: "prio_sorted Ask (Q Ask)" and cap: "n + 24 < cap" "2 * n < 2 ^ 64"
  defines "t \<equiv> lg_order Bid (word_of_nat (Suc (n + i))) i"
  shows "(\<exists>m ms r. Q Ask = m # ms \<and> add_spec cap Q t = (Q(Ask := ms), Inr r) \<and> length (r_fills r) = 1 \<and>
      lot_book n (Suc i) (Suc k) (Q(Ask := ms))) \<or>
    (\<exists>r. add_spec cap Q t = (Q(Bid := enqueue t (Q Bid)), Inr r) \<and> r_fills r = [] \<and> lot_book n (Suc i) k (Q(Bid := enqueue t (Q Bid))))"
proof (cases "\<exists>m ms. Q Ask = m # ms \<and> o_price m \<le> o_price t")
  case True
  then obtain m ms where m: "Q Ask = m # ms" "o_price m \<le> o_price t" by blast
  then obtain j where j: "j < n" "m = lg_order Ask (word_of_nat (Suc j)) j" using book by (auto simp: lot_book_def)
  have "o_trader_id m \<noteq> o_trader_id t"
    using word_of_nat_eq [of "Suc j" "Suc (n + i)"] j i cap(2) by (simp add: t_def lg_order_def del: of_nat_Suc)
  moreover have "match_list (t\<lparr>o_quantity := 0\<rparr>) ms = (ms, [], t\<lparr>o_quantity := 0\<rparr>, False)" by (cases ms) simp_all
  ultimately have "match_list t (Q Ask) = (ms, [fill_of t m], t\<lparr>o_quantity := 0\<rparr>, False)"
    using m j(2) by (simp add: crosses_def t_def lg_order_def Let_def)
  then have "add_spec cap Q t = (Q(Ask := ms), Inr \<lparr>r_order_id = o_id t, r_status = FullyFilled, r_fills = [fill_of t m]\<rparr>)"
    by (simp add: add_spec_def t_def lg_order_def Let_def)
  moreover have "lows Q \<le> Suc (lows (Q(Ask := ms)))" "lows (Q(Ask := ms)) \<le> lows Q" using m(1) by (auto simp: lows_def)
  then have "lot_book n (Suc i) (Suc k) (Q(Ask := ms))"
    using book m(1) upper_Suc(2) [of i] unfolding lot_book_def by (auto simp: less_Suc_eq)
  ultimately show ?thesis using m(1) by force
next
  case False
  then have ml: "match_list t (Q Ask) = (Q Ask, [], t, False)"
    by (cases "Q Ask") (auto simp: crosses_def t_def lg_order_def)
  have "o_id t \<notin> view_ids Q"
  proof
    assume "o_id t \<in> view_ids Q"
    then obtain j where "word_of_nat (Suc (n + i)) = (word_of_nat j :: u64)" "j < Suc (n + i)"
      using book i by (fastforce simp: view_ids_def lot_book_def t_def lg_order_def simp del: of_nat_Suc)
    then show False using word_of_nat_eq [of "Suc (n + i)" j] i cap(2) by (simp del: of_nat_Suc)
  qed
  moreover have "view_size Q \<noteq> cap" using lot_book_room [OF book] i cap(1) by simp
  moreover have "Q(Ask := Q Ask) = Q" by simp
  ultimately have "add_spec cap Q t = (Q(Bid := enqueue t (Q Bid)), Inr \<lparr>r_order_id = o_id t, r_status = Resting, r_fills = []\<rparr>)"
    using ml by (simp add: add_spec_def t_def lg_order_def Let_def)
  moreover have "upper (Suc i) = upper i" if low: "0 < lows Q"
  proof -
    obtain x where x: "x \<in> set (Q Ask)" "o_price x < level_price 25" using low by (auto simp: lows_def filter_empty_conv)
    then obtain m ms where m: "Q Ask = m # ms" by (cases "Q Ask") auto
    then have "o_price m \<le> o_price x" using srt x(1) by (auto simp: prio_sorted_def)
    then have "o_price t < o_price m" "o_price m < level_price 25" using False m x(2) by (auto simp: not_le)
    then have "level_price i < level_price 25" by (auto simp: t_def lg_order_def)
    moreover obtain j where "m = lg_order Ask (word_of_nat (Suc j)) j" using book m by (auto simp: lot_book_def)
    ultimately show ?thesis
      using \<open>o_price t < o_price m\<close> \<open>o_price m < level_price 25\<close> upper_Suc(2) [of i]
      by (simp add: t_def lg_order_def level_price_less)
  qed
  then have "lot_book n (Suc i) k (Q(Bid := enqueue t (Q Bid)))"
    using book unfolding lot_book_def lows_def by (auto simp: t_def less_Suc_eq)
  ultimately show ?thesis by force
qed

section \<open>The loops of direct mode\<close>

text \<open>The bids from number \<open>i\<close> on.\<close>

definition bids_from :: "nat \<Rightarrow> nat \<Rightarrow> EngineCommand list" where
  "bids_from n i = map (\<lambda>j. NewOrder (lg_order Bid (word_of_nat (Suc (n + j))) j)) [i..<n]"

lemma bids_from_Cons: "i < n \<Longrightarrow> bids_from n i = NewOrder (lg_order Bid (word_of_nat (Suc (n + i))) i) # bids_from n (Suc i)"
  by (simp add: bids_from_def upt_conv_Cons)

text \<open>The bids numbered \<open>w\<close> and above that rest in the book.\<close>

definition resting_from :: "nat \<Rightarrow> nat \<Rightarrow> sides \<Rightarrow> nat" where
  "resting_from n w Q = length (filter (\<lambda>x. n + w < unat (o_id x)) (Q Bid))"

definition lot_harness :: "nat \<Rightarrow> nat \<Rightarrow> nat \<Rightarrow> Harness \<Rightarrow> bool" where
  "lot_harness n i k h \<longleftrightarrow> lot_book n i k (engine_view (h_engine h)) \<and> engine_ok (h_engine h) \<and>
     n + 24 < engine_capacity (h_engine h) \<and> 2 * n < 2 ^ 64 \<and> ring_ok (h_ring h) \<and> ring_items (h_ring h) = bids_from n i \<and> i \<le> n"

lemma encode_fills_count: "h_fill_count (encode_fills ts fs h) = h_fill_count h + word_of_nat (length fs)"
  by (induction fs arbitrary: h) (auto simp: Let_def add.assoc split: prod.splits)

lemma lot_turn:
  assumes "lot_harness n i k h" "i < n"
  shows "\<exists>s h' d. ring_deq (h_ring h) = Some (s, Some (NewOrder (lg_order Bid (word_of_nat (Suc (n + i))) i))) \<and>
    handle_popped (NewOrder (lg_order Bid (word_of_nat (Suc (n + i))) i)) (h\<lparr>h_ring := s\<rparr>) = Some h' \<and>
    lot_harness n (Suc i) (k + d) h' \<and> h_fill_count h' = h_fill_count h + word_of_nat d \<and> d \<le> 1 \<and>
    (w \<le> i \<longrightarrow> resting_from n w (engine_view (h_engine h')) + d = resting_from n w (engine_view (h_engine h)) + 1)"
proof -
  let ?t = "lg_order Bid (word_of_nat (Suc (n + i))) i" and ?Q = "engine_view (h_engine h)"
  have a: "lot_book n i k ?Q" "engine_ok (h_engine h)" "n + 24 < engine_capacity (h_engine h)" "2 * n < 2 ^ 64"
    using assms(1) by (simp_all add: lot_harness_def)
  obtain s where s: "ring_deq (h_ring h) = Some (s, Some (NewOrder ?t))" "ring_ok s" "ring_items s = bids_from n (Suc i)"
    using rq.deq_item [of "h_ring h"] assms unfolding lot_harness_def bids_from_Cons [OF assms(2)] by blast
  have srt: "prio_sorted Ask (?Q Ask)" using ob.queue_sorted a(2) by (simp add: engine_ok_def engine_view_def)
  have id: "unat (o_id ?t) = Suc (n + i)"
    using unat_word_of_nat [of "Suc (n + i)", where 'a = 64] a(4) assms(2) by (simp add: lg_order_def del: of_nat_Suc)
  have go: "handle_popped (NewOrder ?t) (h\<lparr>h_ring := s\<rparr>) = Some h' \<Longrightarrow> lot_book n (Suc i) k' (engine_view (h_engine h')) \<Longrightarrow>
      h_ring h' = s \<Longrightarrow> engine_ok (h_engine h') \<Longrightarrow> engine_capacity (h_engine h') = engine_capacity (h_engine h) \<Longrightarrow>
      lot_harness n (Suc i) k' h'" for h' k'
    using a s(2,3) assms(2) by (simp add: lot_harness_def)
  from lot_step [OF a(1) assms(2) srt a(3,4)] show ?thesis
  proof (elim disjE exE conjE)
    fix m ms r
    assume sp: "?Q Ask = m # ms" "add_spec (engine_capacity (h_engine h)) ?Q ?t = (?Q(Ask := ms), Inr r)" "length (r_fills r) = 1"
      "lot_book n (Suc i) (Suc k) (?Q(Ask := ms))"
    obtain e where e: "add_order (h_engine h) ?t = Some (e, Inr r)" "engine_ok e" "engine_view e = ?Q(Ask := ms)"
      "engine_capacity e = engine_capacity (h_engine h)"
      using engine_add_order [OF a(2) sp(2)] by blast
    let ?h = "encode_fills (o_timestamp ?t) (r_fills r) (h\<lparr>h_ring := s, h_engine := e\<rparr>)"
    have "handle_popped (NewOrder ?t) (h\<lparr>h_ring := s\<rparr>) = Some ?h" using e(1) by (simp add: handle_popped_def)
    then show ?thesis
      using s(1) go [of ?h "Suc k"] e sp(3,4) encode_fills_keeps encode_fills_count
      by (intro exI [of _ s] exI [of _ ?h] exI [of _ 1]) (auto simp: resting_from_def)
  next
    fix r
    assume sp: "add_spec (engine_capacity (h_engine h)) ?Q ?t = (?Q(Bid := enqueue ?t (?Q Bid)), Inr r)" "r_fills r = []"
      "lot_book n (Suc i) k (?Q(Bid := enqueue ?t (?Q Bid)))"
    obtain e where e: "add_order (h_engine h) ?t = Some (e, Inr r)" "engine_ok e" "engine_view e = ?Q(Bid := enqueue ?t (?Q Bid))"
      "engine_capacity e = engine_capacity (h_engine h)"
      using engine_add_order [OF a(2) sp(1)] by blast
    let ?h = "h\<lparr>h_ring := s, h_engine := e\<rparr>"
    have "handle_popped (NewOrder ?t) (h\<lparr>h_ring := s\<rparr>) = Some ?h" using e(1) sp(2) by (simp add: handle_popped_def)
    then show ?thesis
      using s(1) go [of ?h k] e sp(3) id
      by (intro exI [of _ s] exI [of _ ?h] exI [of _ 0]) (auto simp: resting_from_def filter_enqueue)
  qed
qed

lemma lot_warmup:
  "lot_harness n i k h \<Longrightarrow> \<exists>h' k'. warmup_loop v h = Some (h', min v (n - i)) \<and> lot_harness n (i + min v (n - i)) k' h'"
proof (induction v arbitrary: i k h)
  case (Suc v)
  show ?case
  proof (cases "i < n")
    case True
    obtain s h1 d where h1: "ring_deq (h_ring h) = Some (s, Some (NewOrder (lg_order Bid (word_of_nat (Suc (n + i))) i)))"
      "handle_popped (NewOrder (lg_order Bid (word_of_nat (Suc (n + i))) i)) (h\<lparr>h_ring := s\<rparr>) = Some h1" "lot_harness n (Suc i) (k + d) h1"
      using lot_turn [OF Suc.prems True] by blast
    obtain h' k' where "warmup_loop v h1 = Some (h', min v (n - Suc i))" "lot_harness n (Suc i + min v (n - Suc i)) k' h'"
      using Suc.IH [OF h1(3)] by blast
    moreover have "min (Suc v) (n - i) = Suc (min v (n - Suc i))" using True by auto
    ultimately show ?thesis using h1 by auto
  next
    case False
    then have "ring_ok (h_ring h)" "ring_items (h_ring h) = []" "n - i = 0"
      using Suc.prems by (simp_all add: lot_harness_def bids_from_def)
    moreover from this obtain s where "ring_deq (h_ring h) = Some (s, None)" "ring_ok s" "ring_items s = []"
      using rq.deq_empty by blast
    ultimately show ?thesis using Suc.prems by (auto simp: lot_harness_def)
  qed
qed auto

lemma lot_measured:
  assumes "lot_harness n i k h" "w \<le> i"
  shows "\<exists>h' d. measured_loop h c = Some (h', c + word_of_nat (n - i)) \<and> lot_harness n n (k + d) h' \<and>
    h_fill_count h' = h_fill_count h + word_of_nat d \<and>
    resting_from n w (engine_view (h_engine h')) + d = resting_from n w (engine_view (h_engine h)) + (n - i)"
  using assms
proof (induction "n - i" arbitrary: i k h c)
  case 0
  then have "ring_ok (h_ring h)" "ring_items (h_ring h) = []" "i = n"
    by (simp_all add: lot_harness_def bids_from_def)
  moreover from this obtain s where "ring_deq (h_ring h) = Some (s, None)" "ring_ok s" "ring_items s = []"
    using rq.deq_empty by blast
  ultimately show ?case
    using 0 by (subst measured_loop.simps) (auto simp: lot_harness_def intro!: exI [of _ 0])
next
  case (Suc m)
  then have "i < n" by simp
  obtain s h1 d where h1: "ring_deq (h_ring h) = Some (s, Some (NewOrder (lg_order Bid (word_of_nat (Suc (n + i))) i)))"
    "handle_popped (NewOrder (lg_order Bid (word_of_nat (Suc (n + i))) i)) (h\<lparr>h_ring := s\<rparr>) = Some h1" "lot_harness n (Suc i) (k + d) h1"
    "h_fill_count h1 = h_fill_count h + word_of_nat d"
    "resting_from n w (engine_view (h_engine h1)) + d = resting_from n w (engine_view (h_engine h)) + 1"
    using lot_turn [OF Suc.prems(1) \<open>i < n\<close>, of w] Suc.prems(2) by blast
  obtain h' d' where h': "measured_loop h1 (c + 1) = Some (h', c + 1 + word_of_nat (n - Suc i))" "lot_harness n n (k + d + d') h'"
    "h_fill_count h' = h_fill_count h1 + word_of_nat d'"
    "resting_from n w (engine_view (h_engine h')) + d' = resting_from n w (engine_view (h_engine h1)) + (n - Suc i)"
    using Suc.hyps(1) [OF _ h1(3), of "c + 1"] Suc.hyps(2) Suc.prems(2) by fastforce
  have "n - i = Suc (n - Suc i)" using \<open>i < n\<close> by simp
  then show ?case
    using h1 h' by (subst measured_loop.simps) (auto simp: add.assoc intro!: exI [of _ "d + d'"])
qed

section \<open>Filling the book and the ring\<close>

definition lot_asks :: "nat \<Rightarrow> sides \<Rightarrow> bool" where
  "lot_asks j Q \<longleftrightarrow> (\<forall>x\<in>set (Q Ask). \<exists>i<j. x = lg_order Ask (word_of_nat (Suc i)) i) \<and> Q Bid = [] \<and> length (Q Ask) = j \<and> lows Q = lower j"

lemma lot_asks_filled: "lot_asks j Q \<Longrightarrow> filled j Q"
  by (force simp: lot_asks_def filled_def lg_order_def simp del: of_nat_Suc)

lemma lot_preload:
  assumes "engine_ok e" "lot_asks j (engine_view e)" "j \<le> n" "n \<le> engine_capacity e" "n < 2 ^ 63"
  shows "\<exists>e'. preload [j..<n] (word_of_nat (Suc j)) e = Some (word_of_nat (Suc n), e') \<and> engine_ok e' \<and> lot_asks n (engine_view e') \<and>
    engine_capacity e' = engine_capacity e"
  using assms
proof (induction "n - j" arbitrary: j e)
  case (Suc m)
  then have j: "j < n" "Suc j < 2 ^ 64" by simp_all
  let ?t = "lg_order Ask (word_of_nat (Suc j)) j"
  obtain e1 r where e1: "add_order e ?t = Some (e1, Inr r)" "engine_ok e1"
    "engine_view e1 = (engine_view e)(Ask := enqueue ?t (engine_view e Ask))" "engine_capacity e1 = engine_capacity e"
    using preload_add [OF Suc.prems(1) lot_asks_filled [OF Suc.prems(2)], of j] Suc.prems(4) j by auto
  have "o_price ?t < level_price 25 \<longleftrightarrow> j mod 50 < 25" by (simp add: lg_order_def level_price_less)
  then have "lot_asks (Suc j) (engine_view e1)"
    using Suc.prems(2) unfolding lot_asks_def e1(3) lows_def lower_Suc
    by (auto simp: filter_enqueue less_Suc_eq simp del: of_nat_Suc)
  moreover have "word_of_nat (Suc j) + 1 = (word_of_nat (Suc (Suc j)) :: u64)" by simp
  ultimately show ?case
    using Suc.hyps(1) [of "Suc j" e1] Suc.hyps(2) Suc.prems(4,5) e1 j(1)
    by (simp add: make_order_eq upt_conv_Cons del: of_nat_Suc)
qed auto

lemma push_bids_items:
  "ring_ok s \<Longrightarrow> length (ring_items s) + length js \<le> ring_cap s \<Longrightarrow>
   \<exists>s' k'. push_bids js k s = Some (k', s') \<and> ring_ok s' \<and> ring_items s' = ring_items s @ lg_cmds Bid k js"
proof (induction js arbitrary: k s)
  case (Cons j js)
  obtain s1 where s1: "push_spin s (NewOrder (lg_order Bid k j)) = Some s1" "ring_ok s1"
    "ring_items s1 = ring_items s @ [NewOrder (lg_order Bid k j)]" "ring_cap s1 = ring_cap s"
    using push_spin_room [OF Cons.prems(1), of "NewOrder (lg_order Bid k j)"] Cons.prems(2) by auto
  then show ?case using Cons.IH [OF s1(2), of "k + 1"] Cons.prems(2) by (auto simp: make_order_eq)
qed simp

lemma lg_cmds_bids: "lg_cmds Bid (word_of_nat (Suc (n + i))) [i..<m] = map (\<lambda>j. NewOrder (lg_order Bid (word_of_nat (Suc (n + j))) j)) [i..<m]"
proof (induction "m - i" arbitrary: i)
  case (Suc d)
  have "word_of_nat (Suc (n + i)) + 1 = (word_of_nat (Suc (n + Suc i)) :: u64)" by simp
  then show ?case using Suc.hyps(1) [of "Suc i"] Suc.hyps(2) by (simp add: upt_conv_Cons del: of_nat_Suc)
qed simp

lemma lot_book_start: "lot_asks n Q \<Longrightarrow> lot_book n 0 0 Q"
  using halves(1) [of n] by (auto simp: lot_asks_def lot_book_def upper_Suc)

lemma resting_none:
  assumes "lot_book n w k Q" "w \<le> n" "2 * n < 2 ^ 64"
  shows "resting_from n w Q = 0"
proof -
  have "\<not> n + w < unat (o_id x)" if "x \<in> set (Q Bid)" for x
  proof -
    obtain j where j: "j < w" "x = lg_order Bid (word_of_nat (Suc (n + j))) j" using assms(1) \<open>x \<in> set (Q Bid)\<close> by (auto simp: lot_book_def)
    then have "unat (o_id x) = Suc (n + j)"
      using unat_word_of_nat [of "Suc (n + j)", where 'a = 64] assms(2,3) by (simp add: lg_order_def del: of_nat_Suc)
    then show ?thesis using j(1) by simp
  qed
  then show ?thesis by (auto simp: resting_from_def filter_empty_conv)
qed

lemma saturating_word:
  assumes "b + d = a" "a < 2 ^ 64"
  shows "orders_resting (word_of_nat a) (word_of_nat d) = word_of_nat b"
proof -
  have "unat (word_of_nat a :: u64) = a" "unat (word_of_nat d :: u64) = d" using assms by (intro unat_word_of_nat; simp)+
  then have "(word_of_nat d :: u64) \<le> word_of_nat a" using assms(1) by (simp only: word_le_nat_alt)
  moreover have "(word_of_nat a :: u64) - word_of_nat d = word_of_nat b" using assms(1) by (simp add: algebra_simps flip: assms(1))
  ultimately show ?thesis by (simp add: orders_resting_def)
qed

lemma direct_lots:
  assumes "ring_buffer ring_capacity = (Some s0 :: EngineCommand Ring option)" "n + 24 < unat arena_capacity" "n \<le> unat ring_capacity" "w \<le> n"
  shows "\<exists>h. direct n w ring_capacity arena_capacity = Some (h, w, word_of_nat (n - w)) \<and>
    orders_resting (word_of_nat (n - w)) (h_fill_count h) =
      word_of_nat (length (filter (\<lambda>x. n + w < unat (o_id x)) (engine_view (h_engine h) Bid))) \<and>
    2 * length (engine_view (h_engine h) Bid) \<le> n + 24"
proof -
  note ring = ring_buffer_ok [OF assms(1)] and new = engine_with_capacity [of arena_capacity]
  have n: "n < 2 ^ 63" "2 * n < 2 ^ 64" using assms(2) u32_bound [of arena_capacity] by simp_all
  have "lot_asks 0 (engine_view (MatchingEngine_with_capacity arena_capacity))" by (simp add: new(2) lot_asks_def lows_def lower_Suc)
  moreover have one: "word_of_nat (Suc 0) = (1 :: u64)" by simp
  ultimately obtain e where e: "preload [0..<n] 1 (MatchingEngine_with_capacity arena_capacity) = Some (word_of_nat (Suc n), e)" "engine_ok e"
    "lot_asks n (engine_view e)" "engine_capacity e = unat arena_capacity"
    using lot_preload [OF new(1), of 0 n, unfolded one] n(1) assms(2) new(3) by (auto simp del: of_nat_Suc)
  obtain s k where s: "push_bids [0..<n] (word_of_nat (Suc n)) s0 = Some (k, s)" "ring_ok s" "ring_items s = bids_from n 0"
    using push_bids_items [OF ring(1), of "[0..<n]" "word_of_nat (Suc n)"] ring(2,3) assms(3) lg_cmds_bids [of n 0 n]
    by (auto simp: bids_from_def simp del: of_nat_Suc)
  let ?h = "\<lparr>h_ring = s, h_engine = e, h_report_buf = replicate EXECUTION_REPORT_SIZE 0, h_seq = 0, h_fill_count = 0\<rparr>"
  have "lot_harness n 0 0 ?h" using e s assms(2) n lot_book_start by (simp add: lot_harness_def)
  then obtain h1 k1 where h1: "warmup_loop w ?h = Some (h1, w)" "lot_harness n w k1 h1"
    using lot_warmup [of n 0 0 ?h w] assms(4) by (auto simp: min_absorb1)
  then have "lot_harness n w k1 (h1\<lparr>h_fill_count := 0\<rparr>)" by (simp add: lot_harness_def)
  then obtain h d where h: "measured_loop (h1\<lparr>h_fill_count := 0\<rparr>) 0 = Some (h, word_of_nat (n - w))" "lot_harness n n (k1 + d) h"
    "h_fill_count h = word_of_nat d"
    "resting_from n w (engine_view (h_engine h)) + d = resting_from n w (engine_view (h_engine h1)) + (n - w)"
    using lot_measured [of n w k1 "h1\<lparr>h_fill_count := 0\<rparr>" w 0] by auto
  have "resting_from n w (engine_view (h_engine h1)) = 0" using resting_none h1(2) assms(4) n(2) by (auto simp: lot_harness_def)
  then have "orders_resting (word_of_nat (n - w)) (h_fill_count h) = word_of_nat (resting_from n w (engine_view (h_engine h)))"
    using saturating_word [of "resting_from n w (engine_view (h_engine h))" d "n - w"] h(3,4) n(2) by simp
  moreover have "2 * length (engine_view (h_engine h) Bid) \<le> n + 24"
    using h(2) lot_book_room [of n n "k1 + d" "engine_view (h_engine h)"] by (auto simp: lot_harness_def lot_book_def view_size_def)
  ultimately show ?thesis
    using assms(1) e(1) s(1) h1(1) h(1) by (auto simp: direct_def resting_from_def simp del: of_nat_Suc)
qed

section \<open>Property\<close>



text \<open>With the sizes in the code.\<close>

theorem run_direct_resting_line:
  "\<exists>h. run_direct = Some (h, 10000, 990000) \<and>
     orders_resting 990000 (h_fill_count h) =
       word_of_nat (length (filter (\<lambda>x. 1010000 < unat (o_id x)) (engine_view (h_engine h) Bid))) \<and>
     2 * length (engine_view (h_engine h) Bid) \<le> 1000024"
proof -
  have "is_power_of_two (RING_CAPACITY)" by (simp add: RING_CAPACITY_def) code_simp
  then obtain s0 :: "EngineCommand Ring" where "ring_buffer RING_CAPACITY = Some s0" by (auto simp: ring_buffer_def RING_CAPACITY_def)
  moreover have "ORDER_COUNT + 24 < unat LG_ARENA_CAPACITY" "ORDER_COUNT \<le> unat RING_CAPACITY" "WARMUP_COUNT \<le> ORDER_COUNT"
    by (simp_all add: ORDER_COUNT_def WARMUP_COUNT_def LG_ARENA_CAPACITY_def RING_CAPACITY_def)
  ultimately have "\<exists>h. run_direct = Some (h, WARMUP_COUNT, word_of_nat (ORDER_COUNT - WARMUP_COUNT)) \<and>
    orders_resting (word_of_nat (ORDER_COUNT - WARMUP_COUNT)) (h_fill_count h) =
      word_of_nat (length (filter (\<lambda>x. ORDER_COUNT + WARMUP_COUNT < unat (o_id x)) (engine_view (h_engine h) Bid))) \<and>
    2 * length (engine_view (h_engine h) Bid) \<le> ORDER_COUNT + 24"
    unfolding run_direct_def by (rule direct_lots)
  then show ?thesis by (simp add: ORDER_COUNT_def WARMUP_COUNT_def)
qed

end
