(* ===== verification/Startup.thy ===== *)
theory Startup
  imports Feed
begin

text \<open>
  How the programs around the engine start: \<open>src/main.rs\<close>, and the part of \<open>examples/relay.rs\<close> and
  \<open>examples/subscriber.rs\<close> in front of their loops. The environment is a function from names to values; a value that
  does not parse ends the program (\<open>None\<close>). Binding, joining and connecting sockets are not modelled beyond the
  addresses they get.

  Shown: addresses and ports are read back as they are printed, and which multicast group each program uses by
  default.
\<close>

section \<open>Numbers and addresses as text\<close>

definition digit_of :: "char \<Rightarrow> nat option" where
  "digit_of c = (let n = of_char c in if 48 \<le> n \<and> n \<le> 57 then Some (n - 48) else None)"

text \<open>Decimal digits, stopping with an error when the value exceeds \<open>m\<close>.\<close>

fun parse_digits :: "nat \<Rightarrow> nat \<Rightarrow> string \<Rightarrow> nat option" where
  "parse_digits m acc [] = Some acc"
| "parse_digits m acc (c # cs) = do {
     d \<leftarrow> digit_of c;
     if 10 * acc + d \<le> m then parse_digits m (10 * acc + d) cs else None
   }"

text \<open>\<open>u16::from_str\<close>: an optional plus sign and at least one digit.\<close>

definition parse_u16 :: "string \<Rightarrow> 16 word option" where
  "parse_u16 s =
     (let ds = (if s \<noteq> [] \<and> hd s = CHR ''+'' then tl s else s)
      in if ds = [] then None else map_option word_of_nat (parse_digits 65535 0 ds))"

text \<open>\<open>Ipv4Addr::from_str\<close>: four numbers of at most three digits, without leading zeros.\<close>

fun split_dots :: "string \<Rightarrow> string list" where
  "split_dots [] = [[]]"
| "split_dots (c # cs) =
     (if c = CHR ''.'' then [] # split_dots cs
      else case split_dots cs of [] \<Rightarrow> [[c]] | x # xs \<Rightarrow> (c # x) # xs)"

definition parse_octet :: "string \<Rightarrow> u8 option" where
  "parse_octet s =
     (if s = [] \<or> 3 < length s \<or> 1 < length s \<and> hd s = CHR ''0'' then None
      else map_option word_of_nat (parse_digits 255 0 s))"

definition parse_ipv4 :: "string \<Rightarrow> (u8 \<times> u8 \<times> u8 \<times> u8) option" where
  "parse_ipv4 s =
     (case split_dots s of
        [a, b, c, d] \<Rightarrow> do {
          a \<leftarrow> parse_octet a; b \<leftarrow> parse_octet b; c \<leftarrow> parse_octet c; d \<leftarrow> parse_octet d;
          Some (a, b, c, d)
        }
      | _ \<Rightarrow> None)"

definition show_num :: "nat \<Rightarrow> string" where
  "show_num n = digits (num_digits n) n"

definition show_ipv4 :: "u8 \<times> u8 \<times> u8 \<times> u8 \<Rightarrow> string" where
  "show_ipv4 x = (case x of (a, b, c, d) \<Rightarrow>
     show_num (unat a) @ ''.'' @ show_num (unat b) @ ''.'' @ show_num (unat c) @ ''.'' @ show_num (unat d))"

definition show_addr :: "SocketAddr \<Rightarrow> string" where
  "show_addr x = show_ipv4 (fst x) @ '':'' @ show_num (unat (snd x))"

section \<open>The programs\<close>

text \<open>\<open>main\<close> of the gateway: the lines it prints and the configuration it runs.\<close>

definition gateway_main :: "string \<Rightarrow> string list \<times> GatewayConfig" where
  "gateway_main version =
     (let config = GatewayConfig_default in
      ([''Ferrox - Order Matching Engine'',
        ''ferrox v'' @ version,
        ''  tcp listen:  '' @ show_addr (g_listen_addr config),
        ''  udp multicast: '' @ show_addr (g_multicast_addr config),
        ''  ring capacity: '' @ show_num (unat (g_ring_capacity config)),
        ''  arena capacity: '' @ show_num (unat (g_arena_capacity config)),
        (case g_data_dir config of Some dir \<Rightarrow> ''  data dir:    '' @ dir | None \<Rightarrow> ''  persistence: disabled''),
        ''''],
       config))"

record RelayConfig =
  rc_multicast_group :: "u8 \<times> u8 \<times> u8 \<times> u8"
  rc_listen_port :: "16 word"
  rc_relay_to :: string

definition var_or :: "(string \<Rightarrow> string option) \<Rightarrow> string \<Rightarrow> string \<Rightarrow> string" where
  "var_or env name default_value = (case env name of Some v \<Rightarrow> v | None \<Rightarrow> default_value)"

definition relay_config :: "(string \<Rightarrow> string option) \<Rightarrow> RelayConfig option" where
  "relay_config env = do {
     multicast_group \<leftarrow> parse_ipv4 (var_or env ''MULTICAST_GROUP'' ''239.1.1.1'');
     listen_port \<leftarrow> parse_u16 (var_or env ''LISTEN_PORT'' ''9001'');
     relay_to \<leftarrow> env ''RELAY_TO'';
     Some \<lparr>rc_multicast_group = multicast_group, rc_listen_port = listen_port, rc_relay_to = relay_to\<rparr>
   }"

definition relay_banner :: "RelayConfig \<Rightarrow> string" where
  "relay_banner c = ''relay: '' @ show_addr (rc_multicast_group c, rc_listen_port c) @ '' -> '' @ rc_relay_to c @ '' (unicast)''"

text \<open>The port of the health-check thread: no thread, a thread that panics, or one that listens.\<close>

definition health_port :: "(string \<Rightarrow> string option) \<Rightarrow> 16 word option option" where
  "health_port env = map_option parse_u16 (env ''HEALTH_PORT'')"

record SubscriberConfig =
  sc_bind_addr :: string
  sc_multicast_group :: "(u8 \<times> u8 \<times> u8 \<times> u8) option"
  sc_banner :: string

definition subscriber_config :: "(string \<Rightarrow> string option) \<Rightarrow> SubscriberConfig option" where
  "subscriber_config env = do {
     let bind_addr = var_or env ''BIND_ADDR'' ''0.0.0.0:9001'';
     let banner = ''subscriber: listening for execution reports on '' @ bind_addr;
     case env ''MULTICAST_GROUP'' of
       Some grp \<Rightarrow>
         if grp \<noteq> [] then do {
           addr \<leftarrow> parse_ipv4 grp;
           Some \<lparr>sc_bind_addr = bind_addr, sc_multicast_group = Some addr, sc_banner = banner @ '', multicast group '' @ grp\<rparr>
         }
         else Some \<lparr>sc_bind_addr = bind_addr, sc_multicast_group = None, sc_banner = banner @ '' (unicast)''\<rparr>
     | None \<Rightarrow> Some \<lparr>sc_bind_addr = bind_addr, sc_multicast_group = None, sc_banner = banner @ '' (unicast)''\<rparr>
   }"

section \<open>Reading back what is printed\<close>

lemma digit_of_char [simp]: "d < 10 \<Longrightarrow> digit_of (char_of (48 + d)) = Some d"
  by (simp add: digit_of_def)

lemma digit_chars: "c \<in> set (digits k n) \<Longrightarrow> 48 \<le> (of_char c :: nat) \<and> of_char c \<le> (57 :: nat)"
proof (induction k arbitrary: n)
  case (Suc k)
  have "n mod 10 < 10" by simp
  then show ?case using Suc by (auto simp: less_Suc_eq_le)
qed simp

lemma not_digit: "CHR ''.'' \<notin> set (digits k n)" "CHR ''+'' \<notin> set (digits k n)"
  using digit_chars [of "CHR ''.''"] digit_chars [of "CHR ''+''"] by auto

lemma parse_digits_append:
  "parse_digits m acc (xs @ ys) = do { acc \<leftarrow> parse_digits m acc xs; parse_digits m acc ys }"
  by (induction xs arbitrary: acc) (auto split: bind_split)

lemma num_digits_pow: "n < 10 ^ num_digits n"
proof (induction n rule: num_digits.induct)
  case (1 n)
  then show ?case by (cases "n < 10") (auto simp: num_digits.simps [of n])
qed

lemma parse_digits_digits: "n < 10 ^ k \<Longrightarrow> n \<le> m \<Longrightarrow> parse_digits m 0 (digits k n) = Some n"
proof (induction k arbitrary: n)
  case (Suc k)
  have "n div 10 < 10 ^ k" "n div 10 \<le> m" using Suc.prems by auto
  then show ?case using Suc.IH [of "n div 10"] Suc.prems(2) by (simp add: parse_digits_append)
qed simp

lemma parse_show [simp]: "n \<le> m \<Longrightarrow> parse_digits m 0 (show_num n) = Some n"
  using parse_digits_digits [OF num_digits_pow] by (simp add: show_num_def)

lemma show_num_Nil [simp]: "show_num n \<noteq> []"
  by (simp add: show_num_def num_digits.simps [of n])

lemma no_leading_zero: "0 < n \<Longrightarrow> hd (show_num n) \<noteq> CHR ''0''"
proof (induction n rule: num_digits.induct)
  case (1 n)
  show ?case
  proof (cases "n < 10")
    case True
    have "(48 + n) mod 256 = 48 + n" using True by simp
    then have "(of_char (char_of (48 + n) :: char) :: nat) \<noteq> of_char CHR ''0''" using 1(2) by simp
    then have "char_of (48 + n) \<noteq> CHR ''0''" by metis
    then show ?thesis using True by (simp add: show_num_def num_digits.simps [of n])
  next
    case False
    have "digits (num_digits (n div 10)) (n div 10) \<noteq> []" by (simp add: num_digits.simps [of "n div 10"])
    then have "hd (show_num n) = hd (show_num (n div 10))" using False by (simp add: show_num_def num_digits.simps [of n])
    then show ?thesis using 1(1) False by simp
  qed
qed

lemma parse_octet_show [simp]: "parse_octet (show_num (unat (a :: u8))) = Some a"
proof -
  have "unat a < 2 ^ LENGTH(8)" by (rule unsigned_less)
  then have n: "unat a \<le> 255" by simp
  then have "num_digits (unat a) \<le> 3" by (intro num_digits_le) simp_all
  then have "length (show_num (unat a)) \<le> 3" by (simp add: show_num_def)
  moreover have "length (show_num 0) = 1" by (simp add: show_num_def num_digits.simps [of 0])
  then have "a = 0 \<Longrightarrow> length (show_num (unat a)) = 1" by simp
  ultimately show ?thesis using n no_leading_zero [of "unat a"] by (cases "a = 0") (auto simp: parse_octet_def unat_gt_0)
qed

lemma split_dots_single: "CHR ''.'' \<notin> set xs \<Longrightarrow> split_dots xs = [xs]"
  by (induction xs) auto

lemma split_dots_append: "CHR ''.'' \<notin> set xs \<Longrightarrow> split_dots (xs @ CHR ''.'' # ys) = xs # split_dots ys"
  by (induction xs) auto

lemma parse_show_ipv4 [simp]: "parse_ipv4 (show_ipv4 x) = Some x"
proof -
  have "CHR ''.'' \<notin> set (show_num n)" for n by (simp add: show_num_def not_digit)
  then show ?thesis
    by (cases x) (simp add: parse_ipv4_def show_ipv4_def split_dots_append split_dots_single)
qed

lemma parse_show_u16 [simp]: "parse_u16 (show_num (unat p)) = Some p"
proof -
  have "unat p < 2 ^ LENGTH(16)" by (rule unsigned_less)
  then have "unat p \<le> 65535" by simp
  moreover have "hd (show_num n) \<noteq> CHR ''+''" for n
    using not_digit(2) hd_in_set [of "show_num n"] by (metis show_num_Nil show_num_def)
  ultimately show ?thesis by (simp add: parse_u16_def Let_def)
qed

lemma shown_nonempty [simp]: "show_ipv4 x \<noteq> []"
  by (cases x) (simp add: show_ipv4_def)

section \<open>Properties\<close>

text \<open>
  The relay and the subscriber use the group and port that their environment names, as they are printed. When
  nothing is set, the relay joins the group and listens on the port that the gateway sends to by default, while
  the subscriber joins no group.
\<close>

theorem startup_addresses:
  assumes "env ''MULTICAST_GROUP'' = map_option show_ipv4 g" "env ''LISTEN_PORT'' = map_option (show_num \<circ> unat) p"
    and "env ''RELAY_TO'' = Some target"
  shows "relay_config env = Some \<lparr>rc_multicast_group = (case g of Some x \<Rightarrow> x | None \<Rightarrow> fst (g_multicast_addr GatewayConfig_default)),
      rc_listen_port = (case p of Some n \<Rightarrow> n | None \<Rightarrow> snd (g_multicast_addr GatewayConfig_default)), rc_relay_to = target\<rparr> \<and>
    map_option sc_multicast_group (subscriber_config env) = Some g"
proof -
  have "''239.1.1.1'' = show_ipv4 (239, 1, 1, 1)" "''9001'' = show_num (unat (9001 :: 16 word))"
    by (simp_all add: show_ipv4_def show_num_def num_digits.simps) code_simp+
  then have "parse_ipv4 ''239.1.1.1'' = Some (239, 1, 1, 1)" "parse_u16 ''9001'' = Some 9001"
    by (simp_all only: parse_show_ipv4 parse_show_u16)
  then show ?thesis
    using assms by (cases g; cases p)
      (simp_all add: relay_config_def var_or_def subscriber_config_def GatewayConfig_default_def Let_def)
qed

theorem startup_addresses_witness:
  "relay_config [''RELAY_TO'' \<mapsto> ''203.0.113.10:9001''] =
     Some \<lparr>rc_multicast_group = (239, 1, 1, 1), rc_listen_port = 9001, rc_relay_to = ''203.0.113.10:9001''\<rparr> \<and>
   map_option sc_multicast_group (subscriber_config [''RELAY_TO'' \<mapsto> ''203.0.113.10:9001'']) = Some None"
  using startup_addresses [of "[''RELAY_TO'' \<mapsto> ''203.0.113.10:9001'']" None None] by (simp add: GatewayConfig_default_def)

end
