(* ===== verification/Spec2Isabelle.thy ===== *)
theory Spec2Isabelle
  imports RefBook Durability Feed Fuzz AllocTrack AsmProbe ProtocolTests GatewayTests LoadClock LoadResting Startup
begin

text \<open>
  Ferrox, a limit order matching engine.

  The program accepts orders over TCP (\<open>src/gateway.rs\<close>, messages by \<open>src/protocol.rs\<close>). The client
  thread reads and stamps them and passes them through a single-producer single-consumer ring
  (\<open>src/ring.rs\<close>) to one matching thread, which appends each command to a log (\<open>src/wal.rs\<close>), applies it
  to the engine (\<open>src/matching.rs\<close> over \<open>src/book.rs\<close> over \<open>src/arena.rs\<close>), sends a datagram per fill and
  takes a snapshot now and then (\<open>src/snapshot.rs\<close>). A start with a data directory rebuilds the engine from
  the newest snapshot and the log (\<open>src/recovery.rs\<close>). Around it stand a subscriber and a relay of the
  datagrams, a load generator, fuzz targets and a differential test against a naive book.

  \<^bold>\<open>Theories, bottom up\<close>

  \<^item> \<open>Prelude\<close>: machine integers (\<open>u32\<close>, \<open>u64\<close> as words that wrap, \<open>i64\<close> with the signed order), indexed
    vectors with panics as \<open>None\<close>, results as sums, and list lemmas.
  \<^item> \<open>Orders\<close>: \<open>src/order.rs\<close>.
  \<^item> \<open>Containers\<close>: the contracts of \<open>HashMap\<close> and \<open>BTreeMap\<close> as locales, with executable models.
  \<^item> \<open>Arena\<close>: \<open>src/arena.rs\<close>, the slot pool with its free list and the intrusive price levels.
  \<^item> \<open>Book\<close>, \<open>Priority\<close>: \<open>src/book.rs\<close>, its representation invariant, its operations on the queues,
    and the contract \<open>order_book\<close> of price-time priority, which is all the engine relies on.
  \<^item> \<open>Matching\<close>, \<open>Engine\<close>: \<open>src/matching.rs\<close>, its list-level specification (\<open>add_spec\<close>, \<open>cancel_spec\<close>), the
    refinement, and the properties of every engine that can be reached.
  \<^item> \<open>RefBook\<close>: \<open>tests/book_model.rs\<close>, the reference book and the differential test.
  \<^item> \<open>Bytes\<close>, \<open>Protocol\<close>: little-endian fields, and \<open>src/protocol.rs\<close>.
  \<^item> \<open>Wal\<close>: \<open>src/wal.rs\<close> over the bytes of the mapped file.
  \<^item> \<open>Snapshot\<close>, \<open>Recovery\<close>: \<open>src/snapshot.rs\<close> over a directory of files, and \<open>src/recovery.rs\<close>.
  \<^item> \<open>RingBuffer\<close>: \<open>src/ring.rs\<close>, each push and pop as its atomic steps in a step relation of two threads,
    and the sequential contract \<open>bounded_queue\<close>.
  \<^item> \<open>RingOrdering\<close>: the same ring on weak memory, with the orderings and the cursor cache the build flags pick, and
    the \<open>shutdown\<close> flag of the gateway.
  \<^item> \<open>Gateway\<close>, \<open>Pipeline\<close>, \<open>Durability\<close>, \<open>Feed\<close>: \<open>src/gateway.rs\<close>; the two threads interleaved over the ring;
    histories of commands, failing snapshots and restarts; the datagrams with \<open>examples/subscriber.rs\<close> and
    \<open>examples/relay.rs\<close>.
  \<^item> \<open>Fuzz\<close>, \<open>AllocTrack\<close>, \<open>Metrics\<close>: \<open>fuzz/fuzz_targets\<close>, \<open>src/alloc_track.rs\<close>, \<open>src/metrics.rs\<close> with its tests.
  \<^item> \<open>Loadgen\<close>, \<open>LoadClock\<close>, \<open>LoadResting\<close>: \<open>examples/loadgen.rs\<close>, without and with timing, and what its counts mean.
  \<^item> \<open>Startup\<close>: \<open>src/main.rs\<close>, and the settings of the relay and the subscriber.
  \<^item> \<open>Testing\<close>, \<open>BookTests\<close>, \<open>EngineTests\<close>, \<open>ProtocolTests\<close>, \<open>WalTests\<close>, \<open>SnapshotTests\<close>, \<open>RecoveryTests\<close>,
    \<open>GatewayTests\<close>, \<open>RingTests\<close>: the \<open>mod tests\<close> blocks of the modules, run over the specifications of the components (those
    of the gateway over every interleaving of its threads), and the property tests of the engine for all arguments.
  \<^item> \<open>RingBench\<close>, \<open>AsmProbe\<close>: \<open>examples/ring_throughput.rs\<close> and \<open>scripts/asm_probe.rs\<close>.

  \<^bold>\<open>What is shown\<close>

  \<^item> Engine: \<open>add_order\<close> and \<open>cancel_order\<close> return and compute the specification; quantity is conserved,
    fills keep price-time priority and limits, no self trades, the book is never crossed; which errors
    there are and what they leave behind; equivalence with the reference book.
  \<^item> Ring: the unsafe slot accesses are sound in every interleaving, first in first out, operations return;
    on weak memory there is a data race exactly when the orderings are relaxed, and draining after shutdown
    is complete.
  \<^item> Storage: any file opens to a well-formed log of its valid prefix, appended commands survive crashes,
    the newest valid snapshot is loaded, a failing \<open>save\<close> harms nothing, recovery rebuilds the book.
  \<^item> Gateway: messages are read back as sent, applied once and in order, none lost at shutdown, no
    deadlock, bounded backlog; what was applied survives any restart; every fill is reported once.
  \<^item> Counterexamples: a reused id trades before it is refused; a snapshot ahead of its log makes the next
    recovery skip a command; two expectations of the fuzz targets fail, on inputs that are characterised; the
    checksum of the throughput harness overflows.
  \<^item> Load generator: direct mode completes, timing does not change it, and its counts of fills and resting orders
    account for every order.
  \<^item> Tests: the unit tests pass on the model, so the model agrees with the code on every input they try.

  \<^bold>\<open>Parameters and assumptions\<close>

  Code outside the repository is an argument: the CRC function \<open>crc\<close>, the serializer \<open>ser\<close>, \<open>ser_fields\<close>
  and \<open>de\<close>, whether the system grants a file size \<open>os\<close>, the clock \<open>now\<close>, the step at which \<open>save\<close> fails \<open>fault\<close>, and
  the choice \<open>index\<close> of the property test, the histogram \<open>H\<close> and the readings of the hardware clocks. Where a property needs more than totality, it is a hypothesis:
  \<open>de\<close> inverts \<open>ser\<close>, \<open>index\<close> stays below its bound, the histogram behaves as documented (\<open>hdr_laws\<close>), and for the unit tests
  that damage stored bytes \<open>crc\<close> detects an inverted byte or a change within four bytes, integers are serialized at
  a fixed width, short inputs are refused, and \<open>crc\<close> has the one value a regression test asserts. Integers have the width of the source and wrap as in a
  release build on a 64-bit target; lengths and offsets of files are unbounded. Loops are structural
  recursions, recursions with a measure, or \<open>partial_function (option)\<close> where they need an invariant to end;
  no fuel is used, and results are stated as \<open>Some\<close>, so that they include termination. Threads are
  interleavings of atomic steps; for the ring and the shutdown flag also the release and acquire accesses of
  the source on a memory with views.

  \<^bold>\<open>Not modelled\<close>

  Sockets and the mapping of files beyond the values they deliver;
  \<open>flush_async\<close>, which only schedules write-back; \<open>Display\<close> and \<open>From\<close> implementations; the \<open>loom\<close>, padding and
  unchecked-index variants of the ring; the benchmarks, which have no logic of their own; and statistics over
  floating-point numbers.
\<close>

end
